(* ===== verification/Gsk_Prelude.thy ===== *)
theory Gsk_Prelude
  imports Main "HOL-Library.Word"
begin

text \<open>
  Shared vocabulary of the development: the machine integer types of GLib (\<open>guint8\<close>,
  \<open>guint16\<close>, \<open>guint\<close>/\<open>guint32\<close>, \<open>guint64\<close>/\<open>gsize\<close>), the C library
  routines on memory that the sources call (\<open>memcpy\<close>, \<open>memset\<close>, \<open>memchr\<close>), and the
  generic lemmas about words and lists that the component theories use.

  A block of C memory is a function from offsets to bytes; the size of the block is kept
  beside it by the data structure that owns it.  A NUL-terminated C string is the list of
  its bytes before the terminator.
\<close>

unbundle bit_operations_syntax

type_synonym u8 = "8 word"
type_synonym u16 = "16 word"
type_synonym u32 = "32 word"
type_synonym u64 = "64 word"

type_synonym memory = "nat \<Rightarrow> u8"

named_theorems unat_simps \<open>moving word arithmetic without wrap-around to nat\<close>

section \<open>The C library on memory\<close>

definition memcpy :: "memory \<Rightarrow> nat \<Rightarrow> u8 list \<Rightarrow> nat \<Rightarrow> memory" where
  "memcpy mem off src n = (\<lambda>i. if off \<le> i \<and> i < off + n then src ! (i - off) else mem i)"

definition memset :: "memory \<Rightarrow> nat \<Rightarrow> u8 \<Rightarrow> nat \<Rightarrow> memory" where
  "memset mem off c n = (\<lambda>i. if off \<le> i \<and> i < off + n then c else mem i)"

text \<open>\<open>n\<close> bytes of a block from offset \<open>off\<close> on.\<close>

definition mem_bytes :: "memory \<Rightarrow> nat \<Rightarrow> nat \<Rightarrow> u8 list" where
  "mem_bytes mem off n = map (\<lambda>i. mem (off + i)) [0..<n]"

fun memchr :: "u8 \<Rightarrow> u8 list \<Rightarrow> nat option" where
  "memchr c [] = None"
| "memchr c (x # xs) = (if x = c then Some 0 else map_option Suc (memchr c xs))"

lemma memcpy_0 [simp]: "memcpy mem off src 0 = mem"
  by (auto simp: memcpy_def fun_eq_iff)

lemma memset_0 [simp]: "memset mem off c 0 = mem"
  by (auto simp: memset_def fun_eq_iff)

lemma length_mem_bytes [simp]: "length (mem_bytes mem off n) = n"
  by (simp add: mem_bytes_def)

lemma mem_bytes_0 [simp]: "mem_bytes mem off 0 = []"
  by (simp add: mem_bytes_def)

lemma nth_mem_bytes: "i < n \<Longrightarrow> mem_bytes mem off n ! i = mem (off + i)"
  by (simp add: mem_bytes_def)

lemma take_mem_bytes: "k \<le> n \<Longrightarrow> take k (mem_bytes mem off n) = mem_bytes mem off k"
  by (intro nth_equalityI) (simp_all add: nth_mem_bytes)

lemma drop_mem_bytes: "k \<le> n \<Longrightarrow> drop k (mem_bytes mem off n) = mem_bytes mem (off + k) (n - k)"
  by (intro nth_equalityI) (simp_all add: nth_mem_bytes add.assoc)

lemma mem_bytes_memcpy_end:
  assumes "n \<le> length src"
  shows "mem_bytes (memcpy mem (off + len) src n) off (len + n) = mem_bytes mem off len @ take n src"
  using assms
  by (intro nth_equalityI) (auto simp: nth_mem_bytes memcpy_def nth_append)

lemma mem_bytes_memset_end:
  "mem_bytes (memset mem (off + len) c n) off (len + n) = mem_bytes mem off len @ replicate n c"
  by (intro nth_equalityI) (auto simp: nth_mem_bytes memset_def nth_append)

section \<open>Searching\<close>

lemma memchr_None_iff: "memchr c xs = None \<longleftrightarrow> c \<notin> set xs"
  by (induction xs) auto

lemma memchr_SomeD:
  "memchr c xs = Some i \<Longrightarrow> i < length xs \<and> xs ! i = c \<and> c \<notin> set (take i xs)"
  by (induction xs arbitrary: i) (auto split: if_splits)

lemma memchr_append:
  "memchr c (xs @ ys) =
     (case memchr c xs of Some i \<Rightarrow> Some i | None \<Rightarrow> map_option ((+) (length xs)) (memchr c ys))"
proof (induction xs)
  case Nil
  show ?case by (cases "memchr c ys") auto
next
  case (Cons x xs)
  then show ?case by (cases "memchr c ys") (auto split: option.splits)
qed

lemma memchr_Some_iff:
  "memchr c xs = Some i \<longleftrightarrow> i < length xs \<and> xs ! i = c \<and> c \<notin> set (take i xs)"
proof
  assume "i < length xs \<and> xs ! i = c \<and> c \<notin> set (take i xs)"
  then show "memchr c xs = Some i"
  proof (induction xs arbitrary: i)
    case (Cons x xs)
    then show ?case by (cases i) auto
  qed simp
qed (rule memchr_SomeD)

section \<open>Words without wrap-around\<close>

lemma unat_add_no_wrap [unat_simps]:
  fixes a b :: "'a::len word"
  shows "unat a + unat b < 2 ^ LENGTH('a) \<Longrightarrow> unat (a + b) = unat a + unat b"
  by (simp add: unat_word_ariths)

lemma unat_sub_no_wrap [unat_simps]:
  fixes a b :: "'a::len word"
  shows "unat b \<le> unat a \<Longrightarrow> unat (a - b) = unat a - unat b"
  by (rule unat_sub) (simp add: word_le_nat_alt)

lemma unat_sub_less:
  fixes a b :: "'a::len word"
  assumes "b \<noteq> 0" "b \<le> a"
  shows "unat (a - b) < unat a"
proof -
  have "unat (a - b) = unat a - unat b" using assms(2) by (rule unat_sub)
  moreover have "0 < unat b" using assms(1) by (simp add: unat_gt_0)
  moreover have "unat b \<le> unat a" using assms(2) by (simp add: word_le_nat_alt)
  ultimately show ?thesis by simp
qed

lemma unat_ucast_u32_u64 [simp]: "unat (ucast (a :: u32) :: u64) = unat a"
proof -
  have "unat a < 2 ^ 32" using unsigned_less [of a, where 'a = nat] by simp
  then have "unat a < 2 ^ 64" by simp
  then show ?thesis by (simp add: unsigned_ucast_eq take_bit_nat_eq_self)
qed

lemma ucast_ucast_u32:
  fixes c :: u64 and a :: u32
  assumes "c \<le> ucast a"
  shows "ucast (ucast c :: u32) = c"
proof -
  have "unat c \<le> unat a" using assms by (simp add: word_le_nat_alt)
  then have "unat c < 2 ^ 32" using unsigned_less [of a, where 'a = nat] by simp
  then show ?thesis by (simp add: unsigned_ucast_eq unsigned_take_bit_eq word_unat_eq_iff take_bit_nat_eq_self)
qed

lemma unat_u32_bound [simp]: "unat (w :: u32) < 4294967296"
  using unsigned_less [of w, where 'a = nat] by simp

lemma unat_of_nat_u32: "n < 4294967296 \<Longrightarrow> unat (of_nat n :: u32) = n"
  by (simp add: unat_of_nat)

lemma unat_u8_bound [simp]: "unat (w :: u8) < 256"
  using unsigned_less [of w, where 'a = nat] by simp

lemma unat_min_word: "unat (if (b :: 'a::len word) < a then b else a) = min (unat a) (unat b)"
  by (auto simp: word_less_nat_alt)

lemma sint_of_nat_u32: "i < 2147483648 \<Longrightarrow> sint (of_nat i :: u32) = int i"
  by (simp add: signed_of_nat signed_take_bit_int_eq_self)

text \<open>The conversion of a number to the 32-bit type \<open>int\<close> of C, as the supported compilers define it.\<close>

definition c_int :: "int \<Rightarrow> int" where
  "c_int k = sint (word_of_int k :: u32)"

lemma c_int_id: "- 2147483648 \<le> k \<Longrightarrow> k < 2147483648 \<Longrightarrow> c_int k = k"
  by (simp add: c_int_def signed_of_int signed_take_bit_int_eq_self)

lemma c_int_wrap:
  assumes "2147483648 \<le> k" "k < 4294967296"
  shows "c_int k = k - 4294967296"
proof -
  have "(word_of_int k :: u32) = word_of_int (k - 4294967296)"
    by (simp only: word_of_int_eq_iff take_bit_eq_mod) (simp add: mod_diff_right_eq)
  then have "c_int k = c_int (k - 4294967296)" by (simp only: c_int_def)
  then show ?thesis using assms by (simp add: c_int_id)
qed

lemma c_int_add: "c_int (c_int j + k) = c_int (j + k)"
  by (simp add: c_int_def)

lemma unat_exp: "k < LENGTH('a) \<Longrightarrow> unat (2 ^ k :: 'a::len word) = 2 ^ k"
  using unat_of_nat [of "2 ^ k", where 'a = 'a] by simp

end
