(* ===== verification/Gsk_Interfaces.thy ===== *)
theory Gsk_Interfaces
  imports Gsk_Prelude
begin

text \<open>
  The contracts through which the components use each other.  \<open>append_sink\<close> is what a
  \<open>GskbAppendFunc\<close> or any other producer relies on: the bytes given to it come after the
  bytes given before.  \<open>byte_source\<close> is what a consumer of a byte sequence relies on: a
  read of at most \<open>n\<close> bytes returns the next ones and leaves the rest.  \<open>byte_queue\<close> is
  both, on one state.  The lemmas of the locales are what every client of the contracts
  gets: a sequence of appends or reads amounts to a single one, and an arbitrary
  interleaving of both transports the bytes in order, without loss or duplication.
\<close>

section \<open>Clients\<close>

text \<open>The clients are ordinary functions over the operations they are given.\<close>

fun append_all :: "(u8 list \<Rightarrow> 's \<Rightarrow> 's) \<Rightarrow> u8 list list \<Rightarrow> 's \<Rightarrow> 's" where
  "append_all put [] s = s"
| "append_all put (d # ds) s = append_all put ds (put d s)"

fun read_chunks :: "(u32 \<Rightarrow> 's \<Rightarrow> (u8 list \<times> 's) option) \<Rightarrow> u32 list \<Rightarrow> 's \<Rightarrow> (u8 list \<times> 's) option" where
  "read_chunks get [] s = Some ([], s)"
| "read_chunks get (n # ns) s =
     (case get n s of
        None \<Rightarrow> None
      | Some (out, s') \<Rightarrow> map_option (\<lambda>(outs, s''). (out @ outs, s'')) (read_chunks get ns s'))"

datatype queue_op = Put "u8 list" | Get u32

fun run_queue ::
  "(u8 list \<Rightarrow> 's \<Rightarrow> 's) \<Rightarrow> (u32 \<Rightarrow> 's \<Rightarrow> (u8 list \<times> 's) option) \<Rightarrow> queue_op list \<Rightarrow> 's
     \<Rightarrow> (u8 list \<times> 's) option" where
  "run_queue put get [] s = Some ([], s)"
| "run_queue put get (Put d # ops) s = run_queue put get ops (put d s)"
| "run_queue put get (Get n # ops) s =
     (case get n s of
        None \<Rightarrow> None
      | Some (out, s') \<Rightarrow> map_option (\<lambda>(outs, s''). (out @ outs, s'')) (run_queue put get ops s'))"

fun bytes_put :: "queue_op list \<Rightarrow> u8 list" where
  "bytes_put [] = []"
| "bytes_put (Put d # ops) = d @ bytes_put ops"
| "bytes_put (Get n # ops) = bytes_put ops"

text \<open>The chunks fit the \<open>guint\<close> length argument.\<close>

fun puts_fit :: "queue_op list \<Rightarrow> bool" where
  "puts_fit [] = True"
| "puts_fit (Put d # ops) = (length d < 2 ^ 32 \<and> puts_fit ops)"
| "puts_fit (Get n # ops) = puts_fit ops"

section \<open>Contracts\<close>

locale append_sink =
  fixes inv :: "'s \<Rightarrow> bool"
    and bytes :: "'s \<Rightarrow> u8 list"
    and put :: "u8 list \<Rightarrow> 's \<Rightarrow> 's"
  assumes put_inv: "inv s \<Longrightarrow> length d < 2 ^ 32 \<Longrightarrow> inv (put d s)"
    and put_bytes: "inv s \<Longrightarrow> length d < 2 ^ 32 \<Longrightarrow> bytes (put d s) = bytes s @ d"
begin

lemma append_all_ok:
  "inv s \<Longrightarrow> list_all (\<lambda>d. length d < 2 ^ 32) ds \<Longrightarrow>
     inv (append_all put ds s) \<and> bytes (append_all put ds s) = bytes s @ concat ds"
  by (induction ds arbitrary: s) (simp_all add: put_inv put_bytes)

end

locale byte_source =
  fixes inv :: "'s \<Rightarrow> bool"
    and bytes :: "'s \<Rightarrow> u8 list"
    and get :: "u32 \<Rightarrow> 's \<Rightarrow> (u8 list \<times> 's) option"
  assumes get_ok: "inv s \<Longrightarrow> \<exists>s'. get n s = Some (take (unat n) (bytes s), s') \<and> inv s' \<and>
      bytes s' = drop (unat n) (bytes s)"
begin

lemma get_cases:
  assumes "inv s"
  obtains s' where "get n s = Some (take (unat n) (bytes s), s')" "inv s'"
    "bytes s' = drop (unat n) (bytes s)"
  using get_ok [OF assms] by blast

lemma read_chunks_ok:
  "inv s \<Longrightarrow>
     \<exists>s'. read_chunks get ns s = Some (take (sum_list (map unat ns)) (bytes s), s') \<and> inv s' \<and>
       bytes s' = drop (sum_list (map unat ns)) (bytes s)"
proof (induction ns arbitrary: s)
  case (Cons n ns)
  obtain s1 where g: "get n s = Some (take (unat n) (bytes s), s1)" "inv s1"
    "bytes s1 = drop (unat n) (bytes s)" using Cons.prems by (rule get_cases)
  obtain s2 where "read_chunks get ns s1 = Some (take (sum_list (map unat ns)) (bytes s1), s2)"
    "inv s2" "bytes s2 = drop (sum_list (map unat ns)) (bytes s1)"
    using Cons.IH [OF g(2)] by blast
  then show ?case by (simp add: g take_add add.commute)
qed simp

end

locale byte_queue = append_sink inv bytes put + byte_source inv bytes get
  for inv :: "'s \<Rightarrow> bool" and bytes put get
begin

theorem run_queue_ok:
  "inv s \<Longrightarrow> puts_fit ops \<Longrightarrow>
     \<exists>out s'. run_queue put get ops s = Some (out, s') \<and> inv s' \<and>
       out @ bytes s' = bytes s @ bytes_put ops"
proof (induction ops arbitrary: s rule: bytes_put.induct)
  case (2 d ops)
  then show ?case using put_inv [of s d] put_bytes [of s d] by fastforce
next
  case (3 n ops)
  obtain s1 where g: "get n s = Some (take (unat n) (bytes s), s1)" "inv s1"
    "bytes s1 = drop (unat n) (bytes s)" using "3.prems"(1) by (rule get_cases)
  obtain out s2 where r: "run_queue put get ops s1 = Some (out, s2)" "inv s2"
    "out @ bytes s2 = bytes s1 @ bytes_put ops"
    using "3.IH" [OF g(2)] "3.prems"(2) by auto
  have "(take (unat n) (bytes s) @ out) @ bytes s2 = bytes s @ bytes_put ops"
    using r(3) g(3) by simp
  then show ?case using g(1) r(1,2) by auto
qed simp

end

section \<open>The plain list\<close>

text \<open>The reference implementation of the contracts.\<close>

definition list_put :: "u8 list \<Rightarrow> u8 list \<Rightarrow> u8 list" where
  "list_put d s = s @ d"

definition list_get :: "u32 \<Rightarrow> u8 list \<Rightarrow> (u8 list \<times> u8 list) option" where
  "list_get n s = Some (take (unat n) s, drop (unat n) s)"

interpretation list_queue: byte_queue "\<lambda>_. True" "\<lambda>s. s" list_put list_get
  by unfold_locales (auto simp: list_put_def list_get_def)

end
