(* ===== verification/Gsk_Buffer.thy ===== *)
theory Gsk_Buffer
  imports Gsk_Interfaces
begin

text \<open>
  The byte buffer \<^verbatim>\<open>GskBuffer\<close> of \<^verbatim>\<open>src/gskbuffer.c\<close> and \<^verbatim>\<open>src/gskbuffer.h\<close>: a chain of
  fragments, each a window \<open>buf_start\<close>, \<open>buf_length\<close> of an allocation of
  \<open>buf_max_size\<close> bytes, a cached total size, and the process-wide stack of recycled
  fragments.  The chain from \<open>first_frag\<close> through \<open>next\<close> to \<open>last_frag\<close> is the list
  \<open>frags\<close>: \<open>first_frag\<close> is its head, \<open>last_frag\<close> its last element, and both are NULL
  when it is empty.  All counters are 32-bit words, as \<open>guint\<close> is.

  The abstraction of a buffer is the byte list \<open>contents\<close>.  The lemmas show that every
  operation keeps the integrity condition that the source checks with
  \<open>verify_buffer\<close> and acts on \<open>contents\<close> as the corresponding operation on a queue
  of bytes, whatever the division into fragments.
\<close>

section \<open>Fragments and the recycling stack\<close>

definition MAX_RECYCLED :: int where
  "MAX_RECYCLED = 16"

definition BUF_CHUNK_SIZE :: u32 where
  "BUF_CHUNK_SIZE = 32768"

definition MAX_FRAGMENTS_TO_WRITE :: nat where
  "MAX_FRAGMENTS_TO_WRITE = 16"

text \<open>The fragment header: two pointers, three \<open>guint\<close>s, a \<open>gboolean\<close> and two more
  pointers, on a 64-bit target.\<close>

definition sizeof_GskBufferFragment :: u32 where
  "sizeof_GskBufferFragment = 48"

text \<open>\<open>destroy\<close> is the identity of the callback (None for NULL).\<close>

record frag =
  buf :: memory
  buf_max_size :: u32
  buf_start :: u32
  buf_length :: u32
  is_foreign :: bool
  destroy :: "nat option"
  destroy_data :: nat

text \<open>
  The allocation state: the recycling stack with its counter, the calls made to destroy
  callbacks so far, and how many native fragments were obtained from and given back to
  the C allocator.  \<open>malloc_image n\<close> is the unspecified content of the \<open>n\<close>-th block
  that \<open>g_malloc\<close> returns.
\<close>

record allocator =
  recycling_stack :: "frag list"
  num_recycled :: int
  destroy_log :: "(nat \<times> nat) list"
  malloc_count :: nat
  free_count :: nat
  malloc_image :: "nat \<Rightarrow> memory"

definition gsk_buffer_fragment_avail :: "frag \<Rightarrow> u32" where
  "gsk_buffer_fragment_avail f = buf_max_size f - buf_start f - buf_length f"

text \<open>The offsets in \<open>buf\<close> that the pointers \<open>gsk_buffer_fragment_start\<close> and
  \<open>gsk_buffer_fragment_end\<close> denote.\<close>

definition gsk_buffer_fragment_start :: "frag \<Rightarrow> nat" where
  "gsk_buffer_fragment_start f = unat (buf_start f)"

definition gsk_buffer_fragment_end :: "frag \<Rightarrow> nat" where
  "gsk_buffer_fragment_end f = unat (buf_start f) + unat (buf_length f)"

definition frag_data :: "frag \<Rightarrow> u8 list" where
  "frag_data f = mem_bytes (buf f) (gsk_buffer_fragment_start f) (unat (buf_length f))"

definition new_native_fragment :: "allocator \<Rightarrow> frag \<times> allocator" where
  "new_native_fragment a =
     (case recycling_stack a of
        f # rest \<Rightarrow>
          (f\<lparr>buf_start := 0, buf_length := 0, is_foreign := False\<rparr>,
           a\<lparr>recycling_stack := rest, num_recycled := num_recycled a - 1\<rparr>)
      | [] \<Rightarrow>
          (\<lparr>buf = malloc_image a (malloc_count a),
            buf_max_size = BUF_CHUNK_SIZE - sizeof_GskBufferFragment,
            buf_start = 0, buf_length = 0, is_foreign = False,
            destroy = None, destroy_data = 0\<rparr>,
           a\<lparr>malloc_count := Suc (malloc_count a)\<rparr>))"

definition new_foreign_fragment :: "memory \<Rightarrow> u32 \<Rightarrow> nat option \<Rightarrow> nat \<Rightarrow> frag" where
  "new_foreign_fragment ptr len destr ddata =
     \<lparr>buf = ptr, buf_max_size = len, buf_start = 0, buf_length = len,
      is_foreign = True, destroy = destr, destroy_data = ddata\<rparr>"

definition recycle :: "frag \<Rightarrow> allocator \<Rightarrow> allocator" where
  "recycle f a =
     (if is_foreign f then
        (case destroy f of
           None \<Rightarrow> a
         | Some d \<Rightarrow> a\<lparr>destroy_log := destroy_log a @ [(d, destroy_data f)]\<rparr>)
      else if MAX_RECYCLED \<le> num_recycled a then
        a\<lparr>free_count := Suc (free_count a)\<rparr>
      else
        a\<lparr>recycling_stack := f # recycling_stack a, num_recycled := num_recycled a + 1\<rparr>)"

fun cleanup_loop :: "frag list \<Rightarrow> allocator \<Rightarrow> allocator" where
  "cleanup_loop [] a = a"
| "cleanup_loop (f # rest) a =
     cleanup_loop rest (a\<lparr>free_count := Suc (free_count a), recycling_stack := rest\<rparr>)"

definition gsk_buffer_cleanup_recycling_bin :: "allocator \<Rightarrow> allocator" where
  "gsk_buffer_cleanup_recycling_bin a =
     (cleanup_loop (recycling_stack a) a)\<lparr>num_recycled := 0\<rparr>"

section \<open>The buffer\<close>

record gsk_buffer =
  bsize :: u32
  frags :: "frag list"

definition gsk_buffer_construct :: gsk_buffer where
  "gsk_buffer_construct = \<lparr>bsize = 0, frags = []\<rparr>"

definition verify_buffer :: "gsk_buffer \<Rightarrow> bool" where
  "verify_buffer b \<longleftrightarrow> foldl (\<lambda>total f. total + buf_length f) 0 (frags b) = bsize b"

subsection \<open>Appending\<close>

text \<open>The head of the loops of \<open>gsk_buffer_append\<close> and
  \<open>gsk_buffer_append_repeated_char\<close>: make sure there is a last fragment with room.
  When the last fragment is full a new one is linked in, and \<open>avail\<close> is taken from the
  full one, so that round of the loop copies nothing.\<close>

definition last_frag_avail :: "frag list \<Rightarrow> allocator \<Rightarrow> frag list \<times> u32 \<times> allocator" where
  "last_frag_avail fs a =
     (if fs = [] then
        (case new_native_fragment a of (f, a') \<Rightarrow> ([f], gsk_buffer_fragment_avail f, a'))
      else
        (let avail = gsk_buffer_fragment_avail (last fs)
         in if avail = 0 then
              (case new_native_fragment a of (f, a') \<Rightarrow>
                 (fs @ [f], gsk_buffer_fragment_avail (last fs), a'))
            else (fs, avail, a)))"

text \<open>\<open>memcpy\<close> (or \<open>memset\<close>) of \<open>n\<close> bytes to the end of the last fragment.\<close>

definition put_last :: "(memory \<Rightarrow> nat \<Rightarrow> nat \<Rightarrow> memory) \<Rightarrow> frag list \<Rightarrow> u32 \<Rightarrow> frag list" where
  "put_last put fs n =
     (let f = last fs
      in butlast fs @ [f\<lparr>buf := put (buf f) (gsk_buffer_fragment_end f) (unat n),
                          buf_length := buf_length f + n\<rparr>])"

lemma gsk_buffer_fragment_avail_new:
  "recycling_stack a = [] \<Longrightarrow>
     gsk_buffer_fragment_avail (fst (new_native_fragment a)) = 32720"
  by (simp add: new_native_fragment_def gsk_buffer_fragment_avail_def BUF_CHUNK_SIZE_def
      sizeof_GskBufferFragment_def)

text \<open>What bounds the two loops: the bytes left, then the recycled fragments left, then
  whether the last fragment is full.\<close>

definition last_full :: "frag list \<Rightarrow> nat" where
  "last_full fs = (if fs \<noteq> [] \<and> gsk_buffer_fragment_avail (last fs) = 0 then 1 else 0)"

lemma last_frag_avail_progress:
  assumes "last_frag_avail fs a = (fs1, avail, a1)"
  shows "avail \<noteq> 0 \<or> length (recycling_stack a1) < length (recycling_stack a)
     \<or> length (recycling_stack a1) = length (recycling_stack a)
         \<and> last_full (put_last put fs1 0) < last_full fs"
  using assms
  by (cases "recycling_stack a")
    (auto simp: last_frag_avail_def last_full_def new_native_fragment_def Let_def put_last_def
      gsk_buffer_fragment_avail_def BUF_CHUNK_SIZE_def sizeof_GskBufferFragment_def
      split: if_splits)

lemma append_step_decreases:
  assumes "(fs1, avail, a1) = last_frag_avail fs a" "len \<noteq> 0"
    and "n = (if len < avail then len else avail)"
  shows "unat (len - n) < unat len \<or> unat (len - n) = unat len \<and>
      (length (recycling_stack a1) < length (recycling_stack a)
       \<or> length (recycling_stack a1) = length (recycling_stack a)
           \<and> last_full (put_last put fs1 n) < last_full fs)"
proof (cases "avail = 0")
  case True
  with assms last_frag_avail_progress [OF assms(1) [symmetric], of put] show ?thesis by auto
next
  case False
  with assms have "n \<noteq> 0" "n \<le> len" by auto
  then show ?thesis by (simp add: unat_sub_less)
qed

lemma append_repeated_step_decreases:
  assumes "(fs1, avail, a1) = last_frag_avail fs a" "count \<noteq> 0"
    and "n = (if count < ucast avail then ucast count else avail)"
  shows "unat (count - ucast n :: u64) < unat count \<or> unat (count - ucast n) = unat count \<and>
      (length (recycling_stack a1) < length (recycling_stack a)
       \<or> length (recycling_stack a1) = length (recycling_stack a)
           \<and> last_full (put_last put fs1 n) < last_full fs)"
proof (cases "avail = 0")
  case True
  with assms last_frag_avail_progress [OF assms(1) [symmetric], of put] show ?thesis by auto
next
  case False
  then have "(ucast avail :: u64) \<noteq> 0" by (simp add: word_unat_eq_iff)
  with assms have "(ucast n :: u64) \<noteq> 0" "ucast n \<le> count"
    by (auto simp: ucast_ucast_u32 [of count avail] split: if_splits)
  then show ?thesis by (simp add: unat_sub_less)
qed

function append_loop :: "frag list \<Rightarrow> u8 list \<Rightarrow> u32 \<Rightarrow> allocator \<Rightarrow> frag list \<times> allocator" where
  "append_loop fs data len a =
     (if len = 0 then (fs, a)
      else
        (case last_frag_avail fs a of (fs1, avail, a1) \<Rightarrow>
           (let n = (if len < avail then len else avail)
            in append_loop (put_last (\<lambda>m off k. memcpy m off data k) fs1 n)
                 (drop (unat n) data) (len - n) a1)))"
  by pat_completeness auto
termination
  by (relation "measures [\<lambda>(fs, data, len, a). unat len,
      \<lambda>(fs, data, len, a). length (recycling_stack a), \<lambda>(fs, data, len, a). last_full fs]")
    (auto dest!: append_step_decreases split: if_splits)

declare append_loop.simps [simp del]

definition gsk_buffer_append ::
  "gsk_buffer \<Rightarrow> u8 list \<Rightarrow> u32 \<Rightarrow> allocator \<Rightarrow> gsk_buffer \<times> allocator" where
  "gsk_buffer_append b data len a =
     (case append_loop (frags b) data len a of (fs, a') \<Rightarrow>
        (b\<lparr>bsize := bsize b + len, frags := fs\<rparr>, a'))"

function append_repeated_loop :: "frag list \<Rightarrow> u8 \<Rightarrow> u64 \<Rightarrow> allocator \<Rightarrow> frag list \<times> allocator" where
  "append_repeated_loop fs c count a =
     (if count = 0 then (fs, a)
      else
        (case last_frag_avail fs a of (fs1, avail, a1) \<Rightarrow>
           (let n = (if count < ucast avail then ucast count else avail)
            in append_repeated_loop (put_last (\<lambda>m off k. memset m off c k) fs1 n)
                 c (count - ucast n) a1)))"
  by pat_completeness auto
termination
  by (relation "measures [\<lambda>(fs, c, count, a). unat count,
      \<lambda>(fs, c, count, a). length (recycling_stack a), \<lambda>(fs, c, count, a). last_full fs]")
    (auto dest!: append_repeated_step_decreases split: if_splits)

declare append_repeated_loop.simps [simp del]

definition gsk_buffer_append_repeated_char ::
  "gsk_buffer \<Rightarrow> u8 \<Rightarrow> u64 \<Rightarrow> allocator \<Rightarrow> gsk_buffer \<times> allocator" where
  "gsk_buffer_append_repeated_char b c count a =
     (case append_repeated_loop (frags b) c count a of (fs, a') \<Rightarrow>
        (b\<lparr>bsize := bsize b + ucast count, frags := fs\<rparr>, a'))"

text \<open>A C string argument is the list of its bytes before the NUL; None is NULL, for which
  \<open>g_return_if_fail\<close> leaves the function.\<close>

definition gsk_buffer_append_string ::
  "gsk_buffer \<Rightarrow> u8 list option \<Rightarrow> allocator \<Rightarrow> gsk_buffer \<times> allocator" where
  "gsk_buffer_append_string b str a =
     (case str of None \<Rightarrow> (b, a) | Some s \<Rightarrow> gsk_buffer_append b s (of_nat (length s)) a)"

definition gsk_buffer_append_char ::
  "gsk_buffer \<Rightarrow> u8 \<Rightarrow> allocator \<Rightarrow> gsk_buffer \<times> allocator" where
  "gsk_buffer_append_char b character a = gsk_buffer_append b [character] 1 a"

definition gsk_buffer_append_string0 ::
  "gsk_buffer \<Rightarrow> u8 list \<Rightarrow> allocator \<Rightarrow> gsk_buffer \<times> allocator" where
  "gsk_buffer_append_string0 b s a = gsk_buffer_append b (s @ [0]) (of_nat (length s + 1)) a"

definition gsk_buffer_append_foreign ::
  "gsk_buffer \<Rightarrow> memory \<Rightarrow> u32 \<Rightarrow> nat option \<Rightarrow> nat \<Rightarrow> gsk_buffer" where
  "gsk_buffer_append_foreign b data len destr ddata =
     b\<lparr>bsize := bsize b + len, frags := frags b @ [new_foreign_fragment data len destr ddata]\<rparr>"

text \<open>
  \<open>rendered\<close> is what the format and its arguments print, \<open>upper_bound\<close> what
  \<open>g_printf_string_upper_bound\<close> answers for them.  Output below 1024 bytes goes through a
  stack buffer, which \<open>g_vsnprintf\<close> cuts at 1023 bytes; longer output becomes a foreign
  fragment that \<open>g_free\<close> (callback identity \<open>g_free_id\<close>) releases.  The heap string
  carries its NUL after the text.
\<close>

definition gsk_buffer_vprintf ::
  "gsk_buffer \<Rightarrow> nat \<Rightarrow> u8 list \<Rightarrow> nat \<Rightarrow> nat \<Rightarrow> allocator \<Rightarrow> gsk_buffer \<times> allocator" where
  "gsk_buffer_vprintf b upper_bound rendered g_free_id heap_ptr a =
     (if upper_bound < 1024 then gsk_buffer_append_string b (Some (take 1023 rendered)) a
      else (gsk_buffer_append_foreign b (\<lambda>i. (rendered @ [0]) ! i) (of_nat (length rendered))
              (Some g_free_id) heap_ptr, a))"

subsection \<open>Reading\<close>

text \<open>The loop of \<open>gsk_buffer_read\<close>: the bytes copied out, \<open>rv\<close>, the remaining chain.\<close>

fun read_loop :: "frag list \<Rightarrow> u32 \<Rightarrow> allocator \<Rightarrow> u8 list \<times> u32 \<times> frag list \<times> allocator" where
  "read_loop [] max_length a = ([], 0, [], a)"
| "read_loop (first # rest) max_length a =
     (if max_length = 0 then ([], 0, first # rest, a)
      else if buf_length first \<le> max_length then
        (case read_loop rest (max_length - buf_length first) (recycle first a) of
           (data, rv, fs, a') \<Rightarrow> (frag_data first @ data, buf_length first + rv, fs, a'))
      else
        (mem_bytes (buf first) (gsk_buffer_fragment_start first) (unat max_length), max_length,
         first\<lparr>buf_length := buf_length first - max_length,
               buf_start := buf_start first + max_length\<rparr> # rest, a))"

text \<open>None is the abort of the closing \<open>g_assert\<close>.\<close>

definition gsk_buffer_read ::
  "gsk_buffer \<Rightarrow> u32 \<Rightarrow> allocator \<Rightarrow> (u8 list \<times> u32 \<times> gsk_buffer \<times> allocator) option" where
  "gsk_buffer_read b max_length a =
     (case read_loop (frags b) max_length a of (data, rv, fs, a') \<Rightarrow>
        (let b' = b\<lparr>bsize := bsize b - rv, frags := fs\<rparr>
         in if rv = max_length \<or> bsize b' = 0 then Some (data, rv, b', a') else None))"

fun peek_loop :: "frag list \<Rightarrow> u32 \<Rightarrow> u8 list \<times> u32" where
  "peek_loop [] max_length = ([], 0)"
| "peek_loop (f # rest) max_length =
     (if max_length = 0 then ([], 0)
      else if buf_length f \<le> max_length then
        (case peek_loop rest (max_length - buf_length f) of
           (data, rv) \<Rightarrow> (frag_data f @ data, buf_length f + rv))
      else (mem_bytes (buf f) (gsk_buffer_fragment_start f) (unat max_length), max_length))"

definition gsk_buffer_peek :: "gsk_buffer \<Rightarrow> u32 \<Rightarrow> u8 list \<times> u32" where
  "gsk_buffer_peek b max_length = peek_loop (frags b) max_length"

fun discard_loop :: "frag list \<Rightarrow> u32 \<Rightarrow> allocator \<Rightarrow> u32 \<times> frag list \<times> allocator" where
  "discard_loop [] max_discard a = (0, [], a)"
| "discard_loop (first # rest) max_discard a =
     (if max_discard = 0 then (0, first # rest, a)
      else if buf_length first \<le> max_discard then
        (case discard_loop rest (max_discard - buf_length first) (recycle first a) of
           (rv, fs, a') \<Rightarrow> (buf_length first + rv, fs, a'))
      else
        (max_discard,
         first\<lparr>buf_length := buf_length first - max_discard,
               buf_start := buf_start first + max_discard\<rparr> # rest, a))"

definition gsk_buffer_discard :: "gsk_buffer \<Rightarrow> u32 \<Rightarrow> allocator \<Rightarrow> u32 \<times> gsk_buffer \<times> allocator" where
  "gsk_buffer_discard b max_discard a =
     (case discard_loop (frags b) max_discard a of (rv, fs, a') \<Rightarrow>
        (rv, b\<lparr>bsize := bsize b - rv, frags := fs\<rparr>, a'))"

fun destruct_loop :: "frag list \<Rightarrow> allocator \<Rightarrow> allocator" where
  "destruct_loop [] a = a"
| "destruct_loop (at # rest) a = destruct_loop rest (recycle at a)"

definition gsk_buffer_destruct :: "gsk_buffer \<Rightarrow> allocator \<Rightarrow> gsk_buffer \<times> allocator" where
  "gsk_buffer_destruct b a = (b\<lparr>frags := [], bsize := 0\<rparr>, destruct_loop (frags b) a)"

subsection \<open>Scanning\<close>

text \<open>Indices are C \<open>int\<close>s: 32-bit words read as two's complement; -1 is "not found".\<close>

fun index_of_loop :: "frag list \<Rightarrow> u8 \<Rightarrow> u32 \<Rightarrow> int" where
  "index_of_loop [] c rv = -1"
| "index_of_loop (at # rest) c rv =
     (case memchr c (frag_data at) of
        Some i \<Rightarrow> sint (of_nat i + rv)
      | None \<Rightarrow> index_of_loop rest c (rv + buf_length at))"

definition gsk_buffer_index_of :: "gsk_buffer \<Rightarrow> u8 \<Rightarrow> int" where
  "gsk_buffer_index_of b char_to_find = index_of_loop (frags b) char_to_find 0"

text \<open>The scan of \<open>gsk_buffer_read_line\<close>: \<open>len\<close> when a newline was met, None when
  \<open>at\<close> ran off the chain.  \<open>len\<close> is an \<open>int\<close>; what is added to it has a wider or an unsigned type, so
  the sum is converted back.\<close>

fun read_line_scan :: "frag list \<Rightarrow> int \<Rightarrow> int option" where
  "read_line_scan [] len = None"
| "read_line_scan (at # rest) len =
     (case memchr 10 (frag_data at) of
        Some i \<Rightarrow> Some (c_int (len + int i))
      | None \<Rightarrow> read_line_scan rest (c_int (len + int (unat (buf_length at)))))"

text \<open>The result is the allocated array, its NUL included; the inner None is a NULL result.
  The outer None is an abort in \<open>gsk_buffer_read\<close> or in \<open>g_new\<close>, for which a negative \<open>len + 1\<close> is a
  size no allocation meets, the signed overflow of \<open>len + 1\<close>, or the write \<open>rv[-1]\<close>.\<close>

definition gsk_buffer_read_line ::
  "gsk_buffer \<Rightarrow> allocator \<Rightarrow> (u8 list option \<times> gsk_buffer \<times> allocator) option" where
  "gsk_buffer_read_line b a =
     (case read_line_scan (frags b) 0 of
        None \<Rightarrow> Some (None, b, a)
      | Some len \<Rightarrow>
          (if len < 0 \<or> len = 2147483647 then None
           else
             (case gsk_buffer_read b (word_of_int (len + 1)) a of
                None \<Rightarrow> None
              | Some (data, rv, b', a') \<Rightarrow> Some (Some (data[nat len := 0]), b', a'))))"

text \<open>As above; \<open>index0 + 1\<close> may overflow.\<close>

definition gsk_buffer_parse_string0 ::
  "gsk_buffer \<Rightarrow> allocator \<Rightarrow> (u8 list option \<times> gsk_buffer \<times> allocator) option" where
  "gsk_buffer_parse_string0 b a =
     (let index0 = gsk_buffer_index_of b 0
      in if index0 < 0 then Some (None, b, a)
         else if index0 = 2147483647 then None
         else (case gsk_buffer_read b (word_of_int (index0 + 1)) a of
                 None \<Rightarrow> None
               | Some (data, rv, b', a') \<Rightarrow> Some (Some data, b', a')))"

text \<open>None: the source would read through a NULL fragment.\<close>

definition gsk_buffer_peek_char :: "gsk_buffer \<Rightarrow> int option" where
  "gsk_buffer_peek_char b =
     (if bsize b = 0 then Some (-1)
      else (case find (\<lambda>f. 0 < buf_length f) (frags b) of
              None \<Rightarrow> None
            | Some f \<Rightarrow> Some (uint (buf f (gsk_buffer_fragment_start f)))))"

definition gsk_buffer_read_char ::
  "gsk_buffer \<Rightarrow> allocator \<Rightarrow> (int \<times> gsk_buffer \<times> allocator) option" where
  "gsk_buffer_read_char b a =
     (case gsk_buffer_read b 1 a of
        None \<Rightarrow> None
      | Some (data, rv, b', a') \<Rightarrow>
          (if rv = 0 then Some (-1, b', a') else Some (uint (data ! 0), b', a')))"

subsection \<open>Moving data between buffers\<close>

definition gsk_buffer_drain :: "gsk_buffer \<Rightarrow> gsk_buffer \<Rightarrow> u32 \<times> gsk_buffer \<times> gsk_buffer" where
  "gsk_buffer_drain dst src =
     (if frags src = [] then (bsize src, dst, src)
      else (bsize src, dst\<lparr>bsize := bsize dst + bsize src, frags := frags dst @ frags src\<rparr>,
            src\<lparr>bsize := 0, frags := []\<rparr>))"

text \<open>The loop moves whole fragments: source chain, destination chain, what may still be
  transferred, \<open>rv\<close>.\<close>

fun transfer_loop ::
  "frag list \<Rightarrow> frag list \<Rightarrow> u32 \<Rightarrow> u32 \<Rightarrow> frag list \<times> frag list \<times> u32 \<times> u32" where
  "transfer_loop [] dst max_transfer rv = ([], dst, max_transfer, rv)"
| "transfer_loop (f # rest) dst max_transfer rv =
     (if buf_length f \<le> max_transfer
      then transfer_loop rest (dst @ [f]) (max_transfer - buf_length f) (rv + buf_length f)
      else (f # rest, dst, max_transfer, rv))"

definition gsk_buffer_transfer ::
  "gsk_buffer \<Rightarrow> gsk_buffer \<Rightarrow> u32 \<Rightarrow> allocator \<Rightarrow> u32 \<times> gsk_buffer \<times> gsk_buffer \<times> allocator" where
  "gsk_buffer_transfer dst src max_transfer a =
     (case transfer_loop (frags src) (frags dst) max_transfer 0 of
        (sfs, dfs, left, rv) \<Rightarrow>
          (let dst1 = dst\<lparr>bsize := bsize dst + rv, frags := dfs\<rparr>
           in (case sfs of
                 f # rest \<Rightarrow>
                   (if left \<noteq> 0 then
                      (case gsk_buffer_append dst1
                              (mem_bytes (buf f) (gsk_buffer_fragment_start f) (unat left)) left a of
                         (dst2, a') \<Rightarrow>
                           (rv + left, dst2,
                            src\<lparr>bsize := bsize src - (rv + left),
                                frags := f\<lparr>buf_start := buf_start f + left,
                                           buf_length := buf_length f - left\<rparr> # rest\<rparr>, a'))
                    else (rv, dst1, src\<lparr>bsize := bsize src - rv, frags := sfs\<rparr>, a))
               | [] \<Rightarrow> (rv, dst1, src\<lparr>bsize := bsize src - rv, frags := sfs\<rparr>, a))))"

section \<open>Abstraction and invariants\<close>

definition frags_bytes :: "frag list \<Rightarrow> u8 list" where
  "frags_bytes fs = concat (map frag_data fs)"

definition contents :: "gsk_buffer \<Rightarrow> u8 list" where
  "contents b = frags_bytes (frags b)"

text \<open>A fragment's window lies in its allocation; a foreign fragment has no room behind the
  window, so that nothing is ever written to memory the buffer does not own; a native one
  has the size of an allocation chunk.\<close>

definition frag_wf :: "frag \<Rightarrow> bool" where
  "frag_wf f \<longleftrightarrow>
     unat (buf_start f) + unat (buf_length f) \<le> unat (buf_max_size f) \<and>
     (if is_foreign f then unat (buf_start f) + unat (buf_length f) = unat (buf_max_size f)
      else buf_max_size f = 32720)"

definition buffer_wf :: "gsk_buffer \<Rightarrow> bool" where
  "buffer_wf b \<longleftrightarrow> list_all frag_wf (frags b) \<and> verify_buffer b"

definition alloc_wf :: "allocator \<Rightarrow> bool" where
  "alloc_wf a \<longleftrightarrow>
     list_all (\<lambda>f. \<not> is_foreign f \<and> buf_max_size f = 32720) (recycling_stack a) \<and>
     num_recycled a = int (length (recycling_stack a)) \<and> num_recycled a \<le> MAX_RECYCLED"

text \<open>Native fragments that are neither recycled nor freed, as the allocator counts them,
  and as the chains hold them.\<close>

definition outstanding :: "allocator \<Rightarrow> int" where
  "outstanding a = int (malloc_count a) - int (length (recycling_stack a)) - int (free_count a)"

definition native_count :: "frag list \<Rightarrow> int" where
  "native_count fs = int (length (filter (\<lambda>f. \<not> is_foreign f) fs))"

definition destroy_calls :: "frag list \<Rightarrow> (nat \<times> nat) list" where
  "destroy_calls fs =
     concat (map (\<lambda>f. if is_foreign f then (case destroy f of None \<Rightarrow> [] | Some d \<Rightarrow> [(d, destroy_data f)])
                      else []) fs)"

subsection \<open>Basic facts\<close>

lemma frags_bytes_simps [simp]:
  "frags_bytes [] = []"
  "frags_bytes (f # fs) = frag_data f @ frags_bytes fs"
  "frags_bytes (fs @ gs) = frags_bytes fs @ frags_bytes gs"
  by (simp_all add: frags_bytes_def)

lemma native_count_simps [simp]:
  "native_count [] = 0"
  "native_count (f # fs) = (if is_foreign f then 0 else 1) + native_count fs"
  "native_count (fs @ gs) = native_count fs + native_count gs"
  by (simp_all add: native_count_def)

lemma destroy_calls_simps [simp]:
  "destroy_calls [] = []"
  "destroy_calls (f # fs) =
     (if is_foreign f then (case destroy f of None \<Rightarrow> [] | Some d \<Rightarrow> [(d, destroy_data f)]) else [])
       @ destroy_calls fs"
  by (simp_all add: destroy_calls_def)

lemma destroy_calls_append [simp]: "destroy_calls (fs @ gs) = destroy_calls fs @ destroy_calls gs"
  by (simp add: destroy_calls_def)

lemma destroy_calls_foreign: "destroy_calls fs = destroy_calls (filter is_foreign fs)"
  by (induction fs) simp_all

lemma destroy_calls_cong:
  "filter is_foreign fs = filter is_foreign gs \<Longrightarrow> destroy_calls fs = destroy_calls gs"
  by (metis destroy_calls_foreign)

lemma length_frag_data [simp]: "length (frag_data f) = unat (buf_length f)"
  by (simp add: frag_data_def)

lemma foldl_buf_length:
  "foldl (\<lambda>total f. total + buf_length f) t fs = t + of_nat (length (frags_bytes fs))"
  by (induction fs arbitrary: t) (simp_all add: algebra_simps)

lemma verify_buffer_iff: "verify_buffer b \<longleftrightarrow> bsize b = of_nat (length (contents b))"
  by (auto simp: verify_buffer_def contents_def foldl_buf_length)

lemma buffer_wf_iff:
  "buffer_wf b \<longleftrightarrow> list_all frag_wf (frags b) \<and> bsize b = of_nat (length (contents b))"
  by (simp add: buffer_wf_def verify_buffer_iff)

lemma unat_fragment_avail:
  "frag_wf f \<Longrightarrow> unat (gsk_buffer_fragment_avail f)
     = unat (buf_max_size f) - unat (buf_start f) - unat (buf_length f)"
  by (auto simp: frag_wf_def gsk_buffer_fragment_avail_def unat_sub_no_wrap)

lemma new_native_fragment_facts:
  assumes "new_native_fragment a = (f, a')"
  shows "frag_data f = []" "\<not> is_foreign f"
    "alloc_wf a \<Longrightarrow> frag_wf f" "alloc_wf a \<Longrightarrow> alloc_wf a'"
    "outstanding a' = outstanding a + 1" "destroy_log a' = destroy_log a"
  using assms
  by (auto simp: new_native_fragment_def frag_data_def alloc_wf_def frag_wf_def outstanding_def
      BUF_CHUNK_SIZE_def sizeof_GskBufferFragment_def split: list.splits)

lemma recycle_facts:
  "frag_wf f \<Longrightarrow> alloc_wf a \<Longrightarrow> alloc_wf (recycle f a)"
  "outstanding (recycle f a) = outstanding a - (if is_foreign f then 0 else 1)"
  "destroy_log (recycle f a) = destroy_log a @ destroy_calls [f]"
  by (auto simp: recycle_def alloc_wf_def frag_wf_def outstanding_def MAX_RECYCLED_def
      split: option.splits)

subsection \<open>Appending\<close>

lemma last_frag_avail_facts:
  assumes "last_frag_avail fs a = (fs1, avail, a1)" "list_all frag_wf fs" "alloc_wf a"
  shows "fs1 \<noteq> []" "list_all frag_wf fs1" "alloc_wf a1"
    "frags_bytes fs1 = frags_bytes fs"
    "outstanding a1 - native_count fs1 = outstanding a - native_count fs"
    "destroy_log a1 = destroy_log a"
    "avail \<le> gsk_buffer_fragment_avail (last fs1)"
    "filter is_foreign fs1 = filter is_foreign fs"
  using assms
  by (auto simp: last_frag_avail_def Let_def new_native_fragment_facts
      split: if_splits prod.splits)

lemma frag_wf_grow:
  assumes "frag_wf f" "n \<le> gsk_buffer_fragment_avail f"
  shows "unat (buf_length f + n) = unat (buf_length f) + unat n"
    "frag_wf (f\<lparr>buf := m, buf_length := buf_length f + n\<rparr>)"
proof -
  have n: "unat n \<le> unat (buf_max_size f) - unat (buf_start f) - unat (buf_length f)"
    using assms(2) unat_fragment_avail [OF assms(1)] by (simp add: word_le_nat_alt)
  have wf: "unat (buf_start f) + unat (buf_length f) \<le> unat (buf_max_size f)"
    using assms(1) by (simp add: frag_wf_def)
  have "unat (buf_length f) + unat n < 4294967296"
    using n wf unat_u32_bound [of "buf_max_size f"] by linarith
  then show sum: "unat (buf_length f + n) = unat (buf_length f) + unat n"
    by (intro unat_add_no_wrap) simp
  show "frag_wf (f\<lparr>buf := m, buf_length := buf_length f + n\<rparr>)"
    using assms(1) n wf by (auto simp: frag_wf_def sum)
qed

lemma put_last_facts:
  assumes "fs \<noteq> []" "list_all frag_wf fs" "n \<le> gsk_buffer_fragment_avail (last fs)"
    and put: "\<And>m off len. mem_bytes (put m (off + len) (unat n)) off (len + unat n)
                = mem_bytes m off len @ bytes"
  shows "list_all frag_wf (put_last put fs n)"
    "frags_bytes (put_last put fs n) = frags_bytes fs @ bytes"
    "native_count (put_last put fs n) = native_count fs"
proof -
  obtain gs f where fs: "fs = gs @ [f]" using assms(1) by (cases fs rule: rev_cases) auto
  have f: "frag_wf f" "n \<le> gsk_buffer_fragment_avail f" using assms(2,3) by (auto simp: fs)
  show "list_all frag_wf (put_last put fs n)"
    using assms(2) frag_wf_grow(2) [OF f] by (simp add: fs put_last_def)
  show "frags_bytes (put_last put fs n) = frags_bytes fs @ bytes"
    by (simp add: fs put_last_def frag_data_def frag_wf_grow(1) [OF f] gsk_buffer_fragment_end_def
        gsk_buffer_fragment_start_def put)
  show "native_count (put_last put fs n) = native_count fs"
    by (simp add: fs put_last_def)
qed

text \<open>A foreign last fragment has no room, so what is put there is nothing: the foreign
  fragments keep their memory.\<close>

lemma put_last_foreign:
  assumes "fs \<noteq> []" "list_all frag_wf fs" "n \<le> gsk_buffer_fragment_avail (last fs)"
    and "\<And>m off. put m off 0 = m"
  shows "filter is_foreign (put_last put fs n) = filter is_foreign fs"
proof -
  obtain gs f where fs: "fs = gs @ [f]" using assms(1) by (cases fs rule: rev_cases) auto
  have f: "frag_wf f" "n \<le> gsk_buffer_fragment_avail f" using assms(2,3) by (auto simp: fs)
  have "n = 0" if "is_foreign f"
    using f unat_fragment_avail [OF f(1)] that by (simp add: frag_wf_def word_le_nat_alt unat_eq_zero)
  then show ?thesis by (auto simp: fs put_last_def assms(4))
qed

lemma append_loop_spec:
  assumes "append_loop fs data len a = (fs', a')" "list_all frag_wf fs" "alloc_wf a"
    and "unat len \<le> length data"
  shows "list_all frag_wf fs' \<and> alloc_wf a' \<and>
    frags_bytes fs' = frags_bytes fs @ take (unat len) data \<and>
    outstanding a' - native_count fs' = outstanding a - native_count fs \<and>
    destroy_log a' = destroy_log a \<and> filter is_foreign fs' = filter is_foreign fs"
  using assms
proof (induction fs data len a rule: append_loop.induct)
  case (1 fs data len a)
  show ?case
  proof (cases "len = 0")
    case True
    with "1.prems" show ?thesis by (simp add: append_loop.simps)
  next
    case False
    obtain fs1 avail a1 where prep: "last_frag_avail fs a = (fs1, avail, a1)"
      by (metis prod_cases3)
    define n where "n = (if len < avail then len else avail)"
    define fs2 where "fs2 = put_last (\<lambda>m off k. memcpy m off data k) fs1 n"
    note lf = last_frag_avail_facts [OF prep "1.prems"(2,3)]
    have n: "n \<le> len" "n \<le> avail" by (auto simp: n_def)
    then have un: "unat n \<le> unat len" by (simp add: word_le_nat_alt)
    have avail: "n \<le> gsk_buffer_fragment_avail (last fs1)" using n lf(7) by simp
    note pl = put_last_facts [OF lf(1,2) avail, of "\<lambda>m off k. memcpy m off data k" "take (unat n) data",
        folded fs2_def]
    have fo: "filter is_foreign fs2 = filter is_foreign fs1"
      unfolding fs2_def by (rule put_last_foreign [OF lf(1,2) avail]) simp
    have put: "mem_bytes (memcpy m (off + l) data (unat n)) off (l + unat n)
        = mem_bytes m off l @ take (unat n) data" for m off l
      using un "1.prems"(4) by (intro mem_bytes_memcpy_end) simp
    have rest: "append_loop fs2 (drop (unat n) data) (len - n) a1 = (fs', a')"
      using "1.prems"(1) False prep by (simp add: append_loop.simps [of fs] n_def fs2_def Let_def)
    have len': "unat (len - n) = unat len - unat n" using un by (rule unat_sub_no_wrap)
    have IH: "list_all frag_wf fs' \<and> alloc_wf a' \<and>
        frags_bytes fs' = frags_bytes fs2 @ take (unat (len - n)) (drop (unat n) data) \<and>
        outstanding a' - native_count fs' = outstanding a1 - native_count fs2 \<and>
        destroy_log a' = destroy_log a1 \<and> filter is_foreign fs' = filter is_foreign fs2"
      using "1.IH" [OF False prep [symmetric] refl n_def, folded fs2_def, OF rest pl(1) [OF put] lf(3)]
        "1.prems"(4) len' un by simp
    have "take (unat n) data @ take (unat len - unat n) (drop (unat n) data) = take (unat len) data"
      using un by (metis le_add_diff_inverse take_add)
    then show ?thesis using IH pl(2,3) [OF put] lf len' fo by simp
  qed
qed

lemma gsk_buffer_append_spec:
  assumes "gsk_buffer_append b data len a = (b', a')" "buffer_wf b" "alloc_wf a"
    and "unat len \<le> length data"
  shows "buffer_wf b'" "alloc_wf a'" "contents b' = contents b @ take (unat len) data"
    "outstanding a' - native_count (frags b') = outstanding a - native_count (frags b)"
    "destroy_log a' = destroy_log a" "filter is_foreign (frags b') = filter is_foreign (frags b)"
proof -
  obtain fs where loop: "append_loop (frags b) data len a = (fs, a')"
    and b': "b' = b\<lparr>bsize := bsize b + len, frags := fs\<rparr>"
    using assms(1) by (auto simp: gsk_buffer_append_def split: prod.splits)
  have wf: "list_all frag_wf (frags b)" using assms(2) by (simp add: buffer_wf_def)
  note spec = append_loop_spec [OF loop wf assms(3,4)]
  show "contents b' = contents b @ take (unat len) data"
    using spec by (simp add: b' contents_def)
  then show "buffer_wf b'"
    using spec assms(2,4) by (simp add: buffer_wf_iff b')
  show "alloc_wf a'" "outstanding a' - native_count (frags b') = outstanding a - native_count (frags b)"
    "destroy_log a' = destroy_log a" "filter is_foreign (frags b') = filter is_foreign (frags b)"
    using spec by (simp_all add: b')
qed

lemma append_repeated_loop_spec:
  assumes "append_repeated_loop fs c count a = (fs', a')" "list_all frag_wf fs" "alloc_wf a"
  shows "list_all frag_wf fs' \<and> alloc_wf a' \<and>
    frags_bytes fs' = frags_bytes fs @ replicate (unat count) c \<and>
    outstanding a' - native_count fs' = outstanding a - native_count fs \<and>
    destroy_log a' = destroy_log a \<and> filter is_foreign fs' = filter is_foreign fs"
  using assms
proof (induction fs c count a rule: append_repeated_loop.induct)
  case (1 fs c count a)
  show ?case
  proof (cases "count = 0")
    case True
    with "1.prems" show ?thesis by (simp add: append_repeated_loop.simps)
  next
    case False
    obtain fs1 avail a1 where prep: "last_frag_avail fs a = (fs1, avail, a1)"
      by (metis prod_cases3)
    define n :: u32 where "n = (if count < ucast avail then ucast count else avail)"
    define fs2 where "fs2 = put_last (\<lambda>m off k. memset m off c k) fs1 n"
    note lf = last_frag_avail_facts [OF prep "1.prems"(2,3)]
    have n: "(ucast n :: u64) \<le> count" "(ucast n :: u64) \<le> ucast avail"
      by (auto simp: n_def ucast_ucast_u32 [of count avail])
    then have un: "unat n \<le> unat count" "n \<le> avail" by (simp_all add: word_le_nat_alt)
    have avail: "n \<le> gsk_buffer_fragment_avail (last fs1)" using un lf(7) by simp
    have fo: "filter is_foreign fs2 = filter is_foreign fs1"
      unfolding fs2_def by (rule put_last_foreign [OF lf(1,2) avail]) simp
    note pl = put_last_facts [OF lf(1,2) avail, of "\<lambda>m off k. memset m off c k" "replicate (unat n) c",
        folded fs2_def, OF mem_bytes_memset_end]
    have rest: "append_repeated_loop fs2 c (count - ucast n) a1 = (fs', a')"
      using "1.prems"(1) False prep
      by (simp add: append_repeated_loop.simps [of fs] n_def fs2_def Let_def)
    have count': "unat (count - ucast n) = unat count - unat n"
      using un by (simp add: unat_sub_no_wrap)
    have IH: "list_all frag_wf fs' \<and> alloc_wf a' \<and>
        frags_bytes fs' = frags_bytes fs2 @ replicate (unat (count - ucast n)) c \<and>
        outstanding a' - native_count fs' = outstanding a1 - native_count fs2 \<and>
        destroy_log a' = destroy_log a1 \<and> filter is_foreign fs' = filter is_foreign fs2"
      by (rule "1.IH" [OF False prep [symmetric] refl n_def, folded fs2_def, OF rest pl(1) lf(3)])
    have "replicate (unat n) c @ replicate (unat count - unat n) c = replicate (unat count) c"
      using un by (metis le_add_diff_inverse replicate_add)
    then show ?thesis using IH pl(2,3) lf count' fo by simp
  qed
qed

lemma gsk_buffer_append_repeated_char_spec:
  assumes "gsk_buffer_append_repeated_char b c count a = (b', a')" "buffer_wf b" "alloc_wf a"
  shows "buffer_wf b'" "alloc_wf a'" "contents b' = contents b @ replicate (unat count) c"
    "outstanding a' - native_count (frags b') = outstanding a - native_count (frags b)"
    "destroy_log a' = destroy_log a" "filter is_foreign (frags b') = filter is_foreign (frags b)"
proof -
  obtain fs where loop: "append_repeated_loop (frags b) c count a = (fs, a')"
    and b': "b' = b\<lparr>bsize := bsize b + ucast count, frags := fs\<rparr>"
    using assms(1) by (auto simp: gsk_buffer_append_repeated_char_def split: prod.splits)
  have wf: "list_all frag_wf (frags b)" using assms(2) by (simp add: buffer_wf_def)
  note spec = append_repeated_loop_spec [OF loop wf assms(3)]
  show "contents b' = contents b @ replicate (unat count) c"
    using spec by (simp add: b' contents_def)
  then show "buffer_wf b'"
    using spec assms(2) by (simp add: buffer_wf_iff b')
  show "alloc_wf a'" "outstanding a' - native_count (frags b') = outstanding a - native_count (frags b)"
    "destroy_log a' = destroy_log a" "filter is_foreign (frags b') = filter is_foreign (frags b)"
    using spec by (simp_all add: b')
qed

subsection \<open>Reading, peeking, discarding\<close>

lemma frag_wf_advance:
  assumes "frag_wf f" "n < buf_length f"
  shows "frag_wf (f\<lparr>buf_length := buf_length f - n, buf_start := buf_start f + n\<rparr>)"
    "frag_data (f\<lparr>buf_length := buf_length f - n, buf_start := buf_start f + n\<rparr>)
       = drop (unat n) (frag_data f)"
    "mem_bytes (buf f) (gsk_buffer_fragment_start f) (unat n) = take (unat n) (frag_data f)"
proof -
  have n: "unat n < unat (buf_length f)" using assms(2) by (simp add: word_less_nat_alt)
  have wf: "unat (buf_start f) + unat (buf_length f) \<le> unat (buf_max_size f)"
    using assms(1) by (simp add: frag_wf_def)
  have "unat (buf_start f) + unat n < 4294967296"
    using n wf unat_u32_bound [of "buf_max_size f"] by linarith
  then have start: "unat (buf_start f + n) = unat (buf_start f) + unat n"
    by (intro unat_add_no_wrap) simp
  have len: "unat (buf_length f - n) = unat (buf_length f) - unat n"
    using n by (intro unat_sub_no_wrap) simp
  show "frag_wf (f\<lparr>buf_length := buf_length f - n, buf_start := buf_start f + n\<rparr>)"
    using assms(1) n by (auto simp: frag_wf_def start len)
  show "frag_data (f\<lparr>buf_length := buf_length f - n, buf_start := buf_start f + n\<rparr>)
      = drop (unat n) (frag_data f)"
    using n by (simp add: frag_data_def gsk_buffer_fragment_start_def start len drop_mem_bytes)
  show "mem_bytes (buf f) (gsk_buffer_fragment_start f) (unat n) = take (unat n) (frag_data f)"
    using n by (simp add: frag_data_def take_mem_bytes)
qed

lemma unat_sum_le:
  "buf_length f \<le> m \<Longrightarrow> unat rv \<le> unat (m - buf_length f) \<Longrightarrow>
     unat (buf_length f + rv) = unat (buf_length f) + unat rv"
  using unat_u32_bound [of m]
  by (intro unat_add_no_wrap) (simp add: unat_sub word_le_nat_alt del: unat_u32_bound)

lemma discard_loop_spec:
  assumes "discard_loop fs m a = (rv, fs', a')" "list_all frag_wf fs" "alloc_wf a"
  shows "unat rv = min (unat m) (length (frags_bytes fs)) \<and>
    frags_bytes fs' = drop (unat m) (frags_bytes fs) \<and>
    list_all frag_wf fs' \<and> alloc_wf a' \<and>
    outstanding a' - native_count fs' = outstanding a - native_count fs \<and>
    destroy_log a' @ destroy_calls fs' = destroy_log a @ destroy_calls fs"
  using assms
proof (induction fs m a arbitrary: rv fs' a' rule: discard_loop.induct)
  case (1 m a)
  then show ?case by simp
next
  case (2 f rest m a)
  have wf: "frag_wf f" "list_all frag_wf rest" using "2.prems"(2) by auto
  consider "m = 0" | "m \<noteq> 0" "buf_length f \<le> m" | "m \<noteq> 0" "m < buf_length f" by fastforce
  then show ?case
  proof cases
    case 1
    with "2.prems" show ?thesis by simp
  next
    case 2
    obtain rv1 where loop: "discard_loop rest (m - buf_length f) (recycle f a) = (rv1, fs', a')"
      and rv: "rv = buf_length f + rv1"
      using "2.prems"(1) 2 by (auto split: prod.splits)
    have len: "unat (m - buf_length f) = unat m - unat (buf_length f)" "unat (buf_length f) \<le> unat m"
      using 2(2) by (simp_all add: unat_sub word_le_nat_alt)
    note IH = "2.IH" [OF 2(1) _ loop wf(2) recycle_facts(1) [OF wf(1) "2.prems"(3)]]
    have "unat (buf_length f + rv1) = unat (buf_length f) + unat rv1"
      using IH 2(2) len by (intro unat_sum_le [OF 2(2)]) auto
    then show ?thesis using IH 2(2) len by (auto simp: rv recycle_facts)
  next
    case 3
    then have m: "unat m < unat (buf_length f)" by (simp add: word_less_nat_alt)
    have res: "rv = m" "a' = a" "fs' = f\<lparr>buf_length := buf_length f - m, buf_start := buf_start f + m\<rparr> # rest"
      using "2.prems"(1) 3 by (auto simp: not_le [symmetric])
    show ?thesis
      using frag_wf_advance [OF wf(1) 3(2)] wf(2) "2.prems"(3) m
      by (auto simp: res split: option.splits)
  qed
qed

text \<open>\<open>gsk_buffer_read\<close> is \<open>gsk_buffer_peek\<close> for the bytes and \<open>gsk_buffer_discard\<close> for
  the chain.\<close>

lemma read_loop_split:
  "read_loop fs m a = (fst (peek_loop fs m), discard_loop fs m a)"
  by (induction fs m a rule: read_loop.induct) (auto split: prod.splits)

lemma peek_loop_rv: "snd (peek_loop fs m) = fst (discard_loop fs m a)"
  by (induction fs m a rule: discard_loop.induct) (auto split: prod.splits)

lemma peek_loop_data:
  "list_all frag_wf fs \<Longrightarrow> fst (peek_loop fs m) = take (unat m) (frags_bytes fs)"
proof (induction fs m rule: peek_loop.induct)
  case (2 f rest m)
  have "m < buf_length f \<Longrightarrow> take (unat m - unat (buf_length f)) (frags_bytes rest) = []"
    by (simp add: word_less_nat_alt)
  moreover have "buf_length f \<le> m \<Longrightarrow> take (unat m) (frag_data f) = frag_data f"
    by (simp add: word_le_nat_alt)
  ultimately show ?case
    using 2 frag_wf_advance(3) [of f m] by (auto simp: not_le unat_sub split: prod.splits)
qed simp

lemma gsk_buffer_discard_spec:
  assumes "gsk_buffer_discard b m a = (rv, b', a')" "buffer_wf b" "alloc_wf a"
  shows "buffer_wf b'" "alloc_wf a'" "contents b' = drop (unat m) (contents b)"
    "unat rv = min (unat m) (length (contents b))"
    "outstanding a' - native_count (frags b') = outstanding a - native_count (frags b)"
    "destroy_log a' @ destroy_calls (frags b') = destroy_log a @ destroy_calls (frags b)"
proof -
  obtain fs where loop: "discard_loop (frags b) m a = (rv, fs, a')"
    and b': "b' = b\<lparr>bsize := bsize b - rv, frags := fs\<rparr>"
    using assms(1) by (auto simp: gsk_buffer_discard_def split: prod.splits)
  have wf: "list_all frag_wf (frags b)" using assms(2) by (simp add: buffer_wf_def)
  note spec = discard_loop_spec [OF loop wf assms(3)]
  show cs: "contents b' = drop (unat m) (contents b)" and rv: "unat rv = min (unat m) (length (contents b))"
    using spec by (simp_all add: b' contents_def)
  have "length (contents b) = unat rv + length (contents b')" using cs rv by simp
  then have "bsize b - rv = of_nat (length (contents b'))"
    using assms(2) by (simp add: buffer_wf_iff)
  then show "buffer_wf b'" using spec by (simp add: buffer_wf_iff b')
  show "alloc_wf a'" "outstanding a' - native_count (frags b') = outstanding a - native_count (frags b)"
    "destroy_log a' @ destroy_calls (frags b') = destroy_log a @ destroy_calls (frags b)"
    using spec by (simp_all add: b')
qed

lemma gsk_buffer_peek_spec:
  assumes "buffer_wf b"
  shows "fst (gsk_buffer_peek b m) = take (unat m) (contents b)"
    "unat (snd (gsk_buffer_peek b m)) = min (unat m) (length (contents b))"
proof -
  have wf: "list_all frag_wf (frags b)" using assms by (simp add: buffer_wf_def)
  show "fst (gsk_buffer_peek b m) = take (unat m) (contents b)"
    using wf by (simp add: gsk_buffer_peek_def peek_loop_data contents_def)
  let ?a = "\<lparr>recycling_stack = [], num_recycled = 0, destroy_log = [], malloc_count = 0,
    free_count = 0, malloc_image = \<lambda>_ _. 0\<rparr>"
  have "alloc_wf ?a" by (simp add: alloc_wf_def MAX_RECYCLED_def)
  with wf show "unat (snd (gsk_buffer_peek b m)) = min (unat m) (length (contents b))"
    using discard_loop_spec [of "frags b" m ?a, OF _ wf]
    by (simp add: gsk_buffer_peek_def peek_loop_rv [where a = ?a] contents_def)
      (metis prod.collapse)
qed

text \<open>The closing assertion of \<open>gsk_buffer_read\<close> never fails on an intact buffer.\<close>

lemma gsk_buffer_read_discard:
  assumes "buffer_wf b" "alloc_wf a"
  shows "gsk_buffer_read b m a = Some (take (unat m) (contents b), gsk_buffer_discard b m a)"
proof -
  obtain rv b' a' where d: "gsk_buffer_discard b m a = (rv, b', a')" by (metis prod_cases3)
  note spec = gsk_buffer_discard_spec [OF d assms]
  have "rv = m \<or> bsize b' = 0"
  proof (cases "unat m \<le> length (contents b)")
    case True
    then have "unat rv = unat m" using spec(4) by simp
    then show ?thesis by (simp add: word_unat_eq_iff)
  next
    case False
    then have "contents b' = []" using spec(3) by simp
    then show ?thesis using spec(1) by (simp add: buffer_wf_iff)
  qed
  then show ?thesis
    using d assms(1) peek_loop_data [of "frags b" m]
    by (auto simp: gsk_buffer_read_def gsk_buffer_discard_def read_loop_split buffer_wf_def
        contents_def Let_def split: prod.splits)
qed

lemma gsk_buffer_read_spec:
  assumes "buffer_wf b" "alloc_wf a"
  obtains rv b' a' where
    "gsk_buffer_read b m a = Some (take (unat m) (contents b), rv, b', a')"
    "gsk_buffer_discard b m a = (rv, b', a')"
    "unat rv = min (unat m) (length (contents b))"
    "contents b' = drop (unat m) (contents b)" "buffer_wf b'" "alloc_wf a'"
proof -
  obtain rv b' a' where d: "gsk_buffer_discard b m a = (rv, b', a')" by (metis prod_cases3)
  show thesis
    by (rule that [of rv b' a'])
      (simp_all add: gsk_buffer_read_discard [OF assms] d gsk_buffer_discard_spec [OF d assms])
qed

lemma destruct_loop_spec:
  "list_all frag_wf fs \<Longrightarrow> alloc_wf a \<Longrightarrow>
     alloc_wf (destruct_loop fs a) \<and> outstanding (destruct_loop fs a) = outstanding a - native_count fs \<and>
     destroy_log (destruct_loop fs a) = destroy_log a @ destroy_calls fs"
  by (induction fs arbitrary: a) (simp_all add: recycle_facts)

subsection \<open>Scanning\<close>

lemma index_of_loop_memchr:
  "index_of_loop fs c rv =
     (case memchr c (frags_bytes fs) of None \<Rightarrow> -1 | Some i \<Rightarrow> sint (of_nat i + rv))"
  by (induction fs arbitrary: rv) (auto simp: memchr_append algebra_simps split: option.splits)

lemma gsk_buffer_index_of_spec:
  "length (contents b) < 2147483648 \<Longrightarrow>
     gsk_buffer_index_of b c = (case memchr c (contents b) of None \<Rightarrow> -1 | Some i \<Rightarrow> int i)"
  by (auto simp: gsk_buffer_index_of_def index_of_loop_memchr contents_def sint_of_nat_u32
      split: option.splits dest: memchr_SomeD)

lemma read_line_scan_memchr:
  "read_line_scan fs len = map_option (\<lambda>i. c_int (len + int i)) (memchr 10 (frags_bytes fs))"
  by (induction fs arbitrary: len)
    (auto simp: memchr_append option.map_comp comp_def c_int_add add.assoc [symmetric] split: option.splits)

lemma gsk_buffer_read_line_Some:
  assumes "buffer_wf b" "alloc_wf a" "i < 2147483647"
    and "memchr 10 (contents b) = Some i"
  obtains b' a' where
    "gsk_buffer_read_line b a = Some (Some (take i (contents b) @ [0]), b', a')"
    "contents b' = drop (Suc i) (contents b)" "buffer_wf b'" "alloc_wf a'"
proof -
  have i: "i < length (contents b)" using assms(4) by (blast dest: memchr_SomeD)
  have ui: "unat (word_of_int (int i + 1) :: u32) = Suc i"
    using assms(3) unat_of_nat_u32 [of "Suc i"] by (simp add: add.commute)
  have len: "c_int (int i) = int i" using assms(3) by (intro c_int_id) simp_all
  obtain rv b' a' where r: "gsk_buffer_read b (word_of_int (int i + 1)) a = Some (take (Suc i) (contents b), rv, b', a')"
    "contents b' = drop (Suc i) (contents b)" "buffer_wf b'" "alloc_wf a'"
    using gsk_buffer_read_spec [OF assms(1,2), of "word_of_int (int i + 1)"] by (metis ui)
  have "(take (Suc i) (contents b))[i := 0] = take i (contents b) @ [0]"
    using i by (simp add: take_Suc_conv_app_nth list_update_append)
  then have "gsk_buffer_read_line b a = Some (Some (take i (contents b) @ [0]), b', a')"
    using assms(3,4) r(1) len by (simp add: gsk_buffer_read_line_def read_line_scan_memchr contents_def)
  then show thesis using r(2-) by (rule that)
qed

lemma gsk_buffer_read_line_long:
  assumes "memchr 10 (contents b) = Some i" "2147483647 \<le> i" "i < 4294967296"
  shows "gsk_buffer_read_line b a = None"
proof -
  have "c_int (int i) < 0 \<or> c_int (int i) = 2147483647"
    using assms(2,3) c_int_wrap [of "int i"] c_int_id [of "int i"] by (cases "i = 2147483647") auto
  then show ?thesis using assms(1) by (auto simp: gsk_buffer_read_line_def read_line_scan_memchr contents_def)
qed

lemma gsk_buffer_read_line_None:
  "10 \<notin> set (contents b) \<Longrightarrow> gsk_buffer_read_line b a = Some (None, b, a)"
  by (simp add: gsk_buffer_read_line_def read_line_scan_memchr contents_def memchr_None_iff [symmetric])

lemma gsk_buffer_parse_string0_Some:
  assumes "buffer_wf b" "alloc_wf a" "length (contents b) < 2147483648"
    and "memchr 0 (contents b) = Some i"
  obtains b' a' where
    "gsk_buffer_parse_string0 b a = Some (Some (take i (contents b) @ [0]), b', a')"
    "contents b' = drop (Suc i) (contents b)" "buffer_wf b'" "alloc_wf a'"
proof -
  have i: "i < length (contents b)" "contents b ! i = 0" using assms(4) by (auto dest: memchr_SomeD)
  have ui: "unat (of_nat (Suc i) :: u32) = Suc i"
    using i(1) assms(3) by (intro unat_of_nat_u32) simp
  obtain rv b' a' where r: "gsk_buffer_read b (of_nat (Suc i)) a = Some (take (Suc i) (contents b), rv, b', a')"
    "contents b' = drop (Suc i) (contents b)" "buffer_wf b'" "alloc_wf a'"
    using gsk_buffer_read_spec [OF assms(1,2), of "of_nat (Suc i)"] by (metis ui)
  have "take (Suc i) (contents b) = take i (contents b) @ [0]"
    using i by (simp add: take_Suc_conv_app_nth)
  then have "gsk_buffer_parse_string0 b a = Some (Some (take i (contents b) @ [0]), b', a')"
    using assms(3,4) i(1) r(1) gsk_buffer_index_of_spec [OF assms(3), of 0]
    by (simp add: gsk_buffer_parse_string0_def Let_def add.commute)
  then show thesis using r(2-) by (rule that)
qed

lemma find_nonempty_frag:
  "frags_bytes fs \<noteq> [] \<Longrightarrow> \<exists>f. find (\<lambda>f. 0 < buf_length f) fs = Some f
     \<and> buf f (gsk_buffer_fragment_start f) = hd (frags_bytes fs)"
proof (induction fs)
  case (Cons f fs)
  show ?case
  proof (cases "buf_length f = 0")
    case True
    then have "frag_data f = []" by (simp add: frag_data_def)
    with True Cons show ?thesis by simp
  next
    case False
    then have "0 < unat (buf_length f)" by (simp add: unat_gt_0)
    then have "frag_data f \<noteq> []" "hd (frag_data f) = buf f (gsk_buffer_fragment_start f)"
      by (simp_all add: frag_data_def mem_bytes_def hd_map upt_rec)
    with False show ?thesis by (simp add: word_neq_0_conv)
  qed
qed simp

subsection \<open>Moving data\<close>

lemma transfer_loop_spec:
  assumes "transfer_loop fs dst m rv = (sfs, dfs, left, rv')"
  shows "\<exists>moved. fs = moved @ sfs \<and> dfs = dst @ moved \<and> length (frags_bytes moved) \<le> unat m \<and>
    unat left = unat m - length (frags_bytes moved) \<and> rv' = rv + of_nat (length (frags_bytes moved)) \<and>
    (sfs = [] \<or> left < buf_length (hd sfs))"
  using assms
proof (induction fs dst m rv rule: transfer_loop.induct)
  case (1 dst m rv)
  then show ?case by simp
next
  case (2 f rest dst m rv)
  show ?case
  proof (cases "buf_length f \<le> m")
    case True
    then obtain moved where IH: "rest = moved @ sfs" "dfs = (dst @ [f]) @ moved"
      "length (frags_bytes moved) \<le> unat (m - buf_length f)"
      "unat left = unat (m - buf_length f) - length (frags_bytes moved)"
      "rv' = rv + buf_length f + of_nat (length (frags_bytes moved))"
      "sfs = [] \<or> left < buf_length (hd sfs)"
      using "2.IH" "2.prems" by auto
    have "unat (m - buf_length f) = unat m - unat (buf_length f)" "unat (buf_length f) \<le> unat m"
      using True by (simp_all add: unat_sub word_le_nat_alt)
    with IH show ?thesis by (intro exI [of _ "f # moved"]) (auto simp: algebra_simps)
  next
    case False
    with "2.prems" show ?thesis by (auto simp: not_le)
  qed
qed

lemma gsk_buffer_drain_spec:
  assumes "gsk_buffer_drain dst src = (rv, dst', src')" "buffer_wf dst" "buffer_wf src"
  shows "buffer_wf dst'" "buffer_wf src'" "contents dst' = contents dst @ contents src"
    "contents src' = []" "rv = of_nat (length (contents src))"
  using assms
  by (auto simp: gsk_buffer_drain_def buffer_wf_iff contents_def split: if_splits)

text \<open>What is left of the source after whole fragments and a part of the next one are
  taken, and what it means when the loop stops at a fragment boundary.\<close>

lemma take_front_partial:
  assumes "buffer_wf src" "frags src = moved @ f # rest" "left < buf_length f"
    and "src' = src\<lparr>bsize := bsize src - (of_nat (length (frags_bytes moved)) + left),
      frags := f\<lparr>buf_start := buf_start f + left, buf_length := buf_length f - left\<rparr> # rest\<rparr>"
  shows "buffer_wf src'" "contents src' = drop (length (frags_bytes moved) + unat left) (contents src)"
proof -
  have f: "frag_wf f" and ul: "unat left < unat (buf_length f)"
    using assms by (simp_all add: buffer_wf_def word_less_nat_alt)
  have eq: "f\<lparr>buf_start := buf_start f + left, buf_length := buf_length f - left\<rparr>
    = f\<lparr>buf_length := buf_length f - left, buf_start := buf_start f + left\<rparr>" by simp
  have cs: "contents src' = drop (unat left) (frag_data f) @ frags_bytes rest"
    using frag_wf_advance(2) [OF f assms(3)] by (simp only: assms(4) eq) (simp add: contents_def)
  then show "contents src' = drop (length (frags_bytes moved) + unat left) (contents src)"
    using ul by (simp add: contents_def assms(2))
  have "length (contents src) = length (frags_bytes moved) + unat left + length (contents src')"
    using ul by (simp add: cs) (simp add: contents_def assms(2))
  then have "bsize src - (of_nat (length (frags_bytes moved)) + left) = of_nat (length (contents src'))"
    using assms(1) by (simp add: buffer_wf_iff)
  moreover have "list_all frag_wf (frags src')"
    using assms(1,2) frag_wf_advance(1) [OF f assms(3)]
    by (simp only: assms(4) eq) (simp add: buffer_wf_def)
  ultimately show "buffer_wf src'" by (simp add: buffer_wf_iff assms(4))
qed

lemma take_front_whole:
  assumes "buffer_wf src" "frags src = moved @ sfs"
    and "src' = src\<lparr>bsize := bsize src - of_nat (length (frags_bytes moved)), frags := sfs\<rparr>"
  shows "buffer_wf src'" "contents src' = drop (length (frags_bytes moved)) (contents src)"
  using assms by (simp_all add: buffer_wf_iff contents_def)

lemma gsk_buffer_transfer_spec:
  assumes "gsk_buffer_transfer dst src m a = (rv, dst', src', a')"
    and "buffer_wf dst" "buffer_wf src" "alloc_wf a"
  shows "buffer_wf dst' \<and> buffer_wf src' \<and> alloc_wf a' \<and>
    contents dst' = contents dst @ take (unat m) (contents src) \<and>
    contents src' = drop (unat m) (contents src) \<and>
    unat rv = min (unat m) (length (contents src))"
proof -
  obtain sfs dfs left rv1 where loop: "transfer_loop (frags src) (frags dst) m 0 = (sfs, dfs, left, rv1)"
    by (metis prod_cases4)
  then obtain moved where moved: "frags src = moved @ sfs" "dfs = frags dst @ moved"
    and len: "length (frags_bytes moved) \<le> unat m" "unat left = unat m - length (frags_bytes moved)"
    and rv1: "rv1 = of_nat (length (frags_bytes moved))"
    and stop: "sfs = [] \<or> left < buf_length (hd sfs)"
    using transfer_loop_spec by fastforce
  define dst1 where "dst1 = dst\<lparr>bsize := bsize dst + rv1, frags := dfs\<rparr>"
  have dst1: "buffer_wf dst1" "contents dst1 = contents dst @ frags_bytes moved"
    using assms(2,3) moved by (simp_all add: dst1_def rv1 buffer_wf_iff contents_def)
  have src: "contents src = frags_bytes moved @ frags_bytes sfs" using moved by (simp add: contents_def)
  have urv1: "unat rv1 = length (frags_bytes moved)"
    using len unat_u32_bound [of m] by (simp add: rv1 unat_of_nat_u32 del: unat_u32_bound)
  show ?thesis
  proof (cases "sfs = [] \<or> left = 0")
    case True
    then have res: "rv = rv1" "dst' = dst1" "a' = a" "src' = src\<lparr>bsize := bsize src - rv1, frags := sfs\<rparr>"
      using assms(1) by (auto simp: gsk_buffer_transfer_def loop dst1_def Let_def split: list.splits)
    show ?thesis
      using take_front_whole [OF assms(3) moved(1) res(4) [unfolded rv1]] True dst1 assms(4) len urv1
      by (auto simp: res(1-3) src)
  next
    case False
    then obtain f rest where sfs: "sfs = f # rest" and left: "left \<noteq> 0" by (cases sfs) auto
    have f: "frag_wf f" "left < buf_length f"
      using assms(3) moved(1) stop by (auto simp: sfs buffer_wf_def)
    obtain dst2 a2 where app: "gsk_buffer_append dst1
        (mem_bytes (buf f) (gsk_buffer_fragment_start f) (unat left)) left a = (dst2, a2)"
      by (metis surj_pair)
    have res: "rv = rv1 + left" "dst' = dst2" "a' = a2"
      "src' = src\<lparr>bsize := bsize src - (rv1 + left),
        frags := f\<lparr>buf_start := buf_start f + left, buf_length := buf_length f - left\<rparr> # rest\<rparr>"
      using assms(1) left app by (auto simp: gsk_buffer_transfer_def loop dst1_def sfs Let_def)
    have ul: "unat left < unat (buf_length f)" using f(2) by (simp add: word_less_nat_alt)
    have "unat rv = unat m"
      using len urv1 unat_u32_bound [of m] left
      by (simp add: res(1) unat_add_no_wrap unat_gt_0 [symmetric] del: unat_u32_bound)
    then show ?thesis
      using gsk_buffer_append_spec [OF app dst1(1) assms(4)] len ul frag_wf_advance(3) [OF f]
        take_front_partial [OF assms(3) moved(1) [unfolded sfs] f(2) res(4) [unfolded rv1]]
      by (simp add: res(2,3) src sfs dst1 take_mem_bytes)
  qed
qed

section \<open>The buffer as a byte queue\<close>

text \<open>The state of the contract is a buffer together with the allocator.\<close>

definition queue_inv :: "gsk_buffer \<times> allocator \<Rightarrow> bool" where
  "queue_inv s \<longleftrightarrow> buffer_wf (fst s) \<and> alloc_wf (snd s)"

definition buffer_put :: "u8 list \<Rightarrow> gsk_buffer \<times> allocator \<Rightarrow> gsk_buffer \<times> allocator" where
  "buffer_put d s = gsk_buffer_append (fst s) d (of_nat (length d)) (snd s)"

definition buffer_get ::
  "u32 \<Rightarrow> gsk_buffer \<times> allocator \<Rightarrow> (u8 list \<times> gsk_buffer \<times> allocator) option" where
  "buffer_get n s = map_option (\<lambda>(out, rv, b, a). (out, b, a)) (gsk_buffer_read (fst s) n (snd s))"

text \<open>\<open>gsk_buffer_peek\<close> followed by \<open>gsk_buffer_discard\<close>, the other way to consume data.\<close>

definition buffer_peek_discard ::
  "u32 \<Rightarrow> gsk_buffer \<times> allocator \<Rightarrow> (u8 list \<times> gsk_buffer \<times> allocator) option" where
  "buffer_peek_discard n s =
     Some (fst (gsk_buffer_peek (fst s) n), snd (gsk_buffer_discard (fst s) n (snd s)))"

lemma buffer_put_ok:
  assumes "queue_inv s" "length d < 2 ^ 32"
  shows "queue_inv (buffer_put d s)" "contents (fst (buffer_put d s)) = contents (fst s) @ d"
proof -
  obtain b' a' where app: "gsk_buffer_append (fst s) d (of_nat (length d)) (snd s) = (b', a')"
    by (metis surj_pair)
  have "unat (of_nat (length d) :: u32) = length d" using assms(2) by (simp add: unat_of_nat_u32)
  with gsk_buffer_append_spec [OF app] assms(1)
  show "queue_inv (buffer_put d s)" "contents (fst (buffer_put d s)) = contents (fst s) @ d"
    by (simp_all add: buffer_put_def app queue_inv_def)
qed

interpretation buffer_queue: byte_queue queue_inv "\<lambda>s. contents (fst s)" buffer_put buffer_get
proof unfold_locales
  show "\<exists>s'. buffer_get n s = Some (take (unat n) (contents (fst s)), s') \<and> queue_inv s' \<and>
      contents (fst s') = drop (unat n) (contents (fst s))" if "queue_inv s" for n s
    using gsk_buffer_read_spec [of "fst s" "snd s" n] that by (fastforce simp: buffer_get_def queue_inv_def)
qed (simp_all add: buffer_put_ok)

interpretation buffer_peeks: byte_source queue_inv "\<lambda>s. contents (fst s)" buffer_peek_discard
proof unfold_locales
  show "\<exists>s'. buffer_peek_discard n s = Some (take (unat n) (contents (fst s)), s') \<and> queue_inv s' \<and>
      contents (fst s') = drop (unat n) (contents (fst s))" if "queue_inv s" for n s
    using gsk_buffer_discard_spec [of "fst s" n "snd s"] that
    by (cases "gsk_buffer_discard (fst s) n (snd s)")
      (auto simp: buffer_peek_discard_def queue_inv_def gsk_buffer_peek_spec)
qed

end
