(* ===== verification/Gsk_Buffer_System.thy ===== *)
theory Gsk_Buffer_System
  imports Gsk_Buffer "HOL-Library.Multiset"
begin

text \<open>
  Two buffers that share the process-wide recycling stack, as a transition system: any
  operation of \<^verbatim>\<open>src/src/gskbuffer.c\<close> on one of them, and the moves of data between them.
  The invariant of all reachable states is the integrity of both buffers together with
  the accounts of what they own: every native fragment that was allocated is in exactly
  one of the chains, on the recycling stack, or freed; every destroy callback registered
  with a foreign fragment was either called once or still waits in one of the chains.
\<close>

section \<open>Steps\<close>

text \<open>One operation on one buffer, with the callbacks it registers.\<close>

definition registers :: "nat option \<Rightarrow> nat \<Rightarrow> (nat \<times> nat) list" where
  "registers destr ddata = (case destr of None \<Rightarrow> [] | Some d \<Rightarrow> [(d, ddata)])"

inductive buffer_op ::
  "gsk_buffer \<Rightarrow> allocator \<Rightarrow> gsk_buffer \<Rightarrow> allocator \<Rightarrow> (nat \<times> nat) list \<Rightarrow> bool" where
  op_append: "gsk_buffer_append b data len a = (b', a') \<Longrightarrow> unat len \<le> length data \<Longrightarrow>
    buffer_op b a b' a' []"
| op_append_repeated_char: "gsk_buffer_append_repeated_char b c k a = (b', a') \<Longrightarrow>
    buffer_op b a b' a' []"
| op_append_string: "gsk_buffer_append_string b str a = (b', a') \<Longrightarrow> buffer_op b a b' a' []"
| op_append_char: "gsk_buffer_append_char b c a = (b', a') \<Longrightarrow> buffer_op b a b' a' []"
| op_append_string0: "gsk_buffer_append_string0 b s a = (b', a') \<Longrightarrow> buffer_op b a b' a' []"
| op_append_foreign: "gsk_buffer_append_foreign b data len destr ddata = b' \<Longrightarrow>
    buffer_op b a b' a (registers destr ddata)"
| op_read: "gsk_buffer_read b n a = Some (out, rv, b', a') \<Longrightarrow> buffer_op b a b' a' []"
| op_discard: "gsk_buffer_discard b n a = (rv, b', a') \<Longrightarrow> buffer_op b a b' a' []"
| op_read_char: "gsk_buffer_read_char b a = Some (ch, b', a') \<Longrightarrow> buffer_op b a b' a' []"
| op_read_line: "gsk_buffer_read_line b a = Some (line, b', a') \<Longrightarrow> buffer_op b a b' a' []"
| op_parse_string0: "gsk_buffer_parse_string0 b a = Some (str, b', a') \<Longrightarrow> buffer_op b a b' a' []"
| op_destruct: "gsk_buffer_destruct b a = (b', a') \<Longrightarrow> buffer_op b a b' a' []"
| op_cleanup: "gsk_buffer_cleanup_recycling_bin a = a' \<Longrightarrow> buffer_op b a b a' []"

text \<open>The two buffers, the allocator and all callbacks registered so far.\<close>

type_synonym buffers = "gsk_buffer \<times> gsk_buffer \<times> allocator \<times> (nat \<times> nat) list"

inductive buffers_step :: "buffers \<Rightarrow> buffers \<Rightarrow> bool" where
  on_first: "buffer_op b a b' a' l \<Longrightarrow> buffers_step (b, c, a, reg) (b', c, a', reg @ l)"
| on_second: "buffer_op c a c' a' l \<Longrightarrow> buffers_step (b, c, a, reg) (b, c', a', reg @ l)"
| transfer_second: "gsk_buffer_transfer b c n a = (rv, b', c', a') \<Longrightarrow>
    buffers_step (b, c, a, reg) (b', c', a', reg)"
| transfer_first: "gsk_buffer_transfer c b n a = (rv, c', b', a') \<Longrightarrow>
    buffers_step (b, c, a, reg) (b', c', a', reg)"
| drain_second: "gsk_buffer_drain b c = (rv, b', c') \<Longrightarrow>
    buffers_step (b, c, a, reg) (b', c', a, reg)"
| drain_first: "gsk_buffer_drain c b = (rv, c', b') \<Longrightarrow>
    buffers_step (b, c, a, reg) (b', c', a, reg)"

text \<open>The state at program start: empty buffers, nothing allocated, an arbitrary content
  of the blocks the C allocator will hand out.\<close>

definition initial_allocator :: "(nat \<Rightarrow> memory) \<Rightarrow> allocator" where
  "initial_allocator img =
     \<lparr>recycling_stack = [], num_recycled = 0, destroy_log = [], malloc_count = 0, free_count = 0,
      malloc_image = img\<rparr>"

inductive buffers_reachable :: "buffers \<Rightarrow> bool" where
  start: "buffers_reachable (gsk_buffer_construct, gsk_buffer_construct, initial_allocator img, [])"
| step: "buffers_reachable s \<Longrightarrow> buffers_step s s' \<Longrightarrow> buffers_reachable s'"

section \<open>The accounts\<close>

definition balance :: "allocator \<Rightarrow> frag list \<Rightarrow> int" where
  "balance a fs = outstanding a - native_count fs"

definition callbacks :: "allocator \<Rightarrow> frag list \<Rightarrow> (nat \<times> nat) multiset" where
  "callbacks a fs = mset (destroy_log a) + mset (destroy_calls fs)"

lemma balance_append: "balance a (fs @ gs) = balance a fs - native_count gs"
  by (simp add: balance_def)

lemma callbacks_append: "callbacks a (fs @ gs) = callbacks a fs + mset (destroy_calls gs)"
  by (simp add: callbacks_def)

text \<open>What one operation on a buffer keeps.\<close>

definition op_keeps :: "gsk_buffer \<Rightarrow> allocator \<Rightarrow> gsk_buffer \<Rightarrow> allocator \<Rightarrow> (nat \<times> nat) list \<Rightarrow> bool" where
  "op_keeps b a b' a' l \<longleftrightarrow>
     buffer_wf b' \<and> alloc_wf a' \<and> balance a' (frags b') = balance a (frags b) \<and>
     callbacks a' (frags b') = callbacks a (frags b) + mset l"

lemma keeps_append:
  assumes "gsk_buffer_append b data len a = (b', a')" "unat len \<le> length data" "buffer_wf b" "alloc_wf a"
  shows "op_keeps b a b' a' []"
  using gsk_buffer_append_spec [OF assms(1,3,4,2)]
  by (simp add: op_keeps_def balance_def callbacks_def destroy_calls_cong [of "frags b'" "frags b"])

lemma keeps_append_repeated_char:
  assumes "gsk_buffer_append_repeated_char b c k a = (b', a')" "buffer_wf b" "alloc_wf a"
  shows "op_keeps b a b' a' []"
  using gsk_buffer_append_repeated_char_spec [OF assms]
  by (simp add: op_keeps_def balance_def callbacks_def destroy_calls_cong [of "frags b'" "frags b"])

lemma keeps_append_foreign:
  assumes "buffer_wf b" "alloc_wf a"
  shows "op_keeps b a (gsk_buffer_append_foreign b data len destr ddata) a (registers destr ddata)"
  using assms
  by (auto simp: op_keeps_def balance_def callbacks_def gsk_buffer_append_foreign_def buffer_wf_iff
      contents_def new_foreign_fragment_def frag_wf_def registers_def frag_data_def split: option.split)

lemma keeps_discard:
  assumes "gsk_buffer_discard b n a = (rv, b', a')" "buffer_wf b" "alloc_wf a"
  shows "op_keeps b a b' a' []"
proof -
  note spec = gsk_buffer_discard_spec [OF assms]
  have "mset (destroy_log a' @ destroy_calls (frags b')) = mset (destroy_log a @ destroy_calls (frags b))"
    by (simp only: spec(6))
  with spec(1,2,5) show ?thesis by (simp add: op_keeps_def balance_def callbacks_def)
qed

lemma keeps_read:
  assumes "gsk_buffer_read b n a = Some (out, rv, b', a')" "buffer_wf b" "alloc_wf a"
  shows "op_keeps b a b' a' []"
proof -
  have "gsk_buffer_discard b n a = (rv, b', a')"
    using assms(1) by (simp add: gsk_buffer_read_discard [OF assms(2,3)])
  then show ?thesis using assms(2,3) by (rule keeps_discard)
qed

lemma keeps_refl: "buffer_wf b \<Longrightarrow> alloc_wf a \<Longrightarrow> op_keeps b a b a []"
  by (simp add: op_keeps_def)

lemma keeps_destruct:
  assumes "gsk_buffer_destruct b a = (b', a')" "buffer_wf b" "alloc_wf a"
  shows "op_keeps b a b' a' []"
  using assms destruct_loop_spec [of "frags b" a]
  by (auto simp: gsk_buffer_destruct_def op_keeps_def balance_def callbacks_def buffer_wf_iff contents_def)

lemma cleanup_loop_facts:
  "recycling_stack a = fs \<Longrightarrow>
     outstanding (cleanup_loop fs a) = outstanding a \<and> recycling_stack (cleanup_loop fs a) = [] \<and>
     destroy_log (cleanup_loop fs a) = destroy_log a"
proof (induction fs a rule: cleanup_loop.induct)
  case (2 f rest a)
  then show ?case by (auto simp: outstanding_def)
qed simp

lemma keeps_cleanup:
  assumes "gsk_buffer_cleanup_recycling_bin a = a'" "buffer_wf b" "alloc_wf a"
  shows "op_keeps b a b a' []"
  using assms cleanup_loop_facts [OF refl, of a]
  by (auto simp: gsk_buffer_cleanup_recycling_bin_def op_keeps_def balance_def callbacks_def alloc_wf_def
      outstanding_def MAX_RECYCLED_def)

lemma of_nat_u32_le: "unat (of_nat n :: u32) \<le> n"
  by (simp add: unat_of_nat)

lemma buffer_op_keeps:
  "buffer_op b a b' a' l \<Longrightarrow> buffer_wf b \<Longrightarrow> alloc_wf a \<Longrightarrow> op_keeps b a b' a' l"
proof (induction rule: buffer_op.induct)
  case (op_append b data len a b' a')
  then show ?case by (rule keeps_append)
next
  case (op_append_repeated_char b c k a b' a')
  then show ?case by (rule keeps_append_repeated_char)
next
  case (op_append_string b str a b' a')
  then show ?case
    by (cases str) (simp_all add: gsk_buffer_append_string_def keeps_refl keeps_append of_nat_u32_le)
next
  case (op_append_char b c a b' a')
  then show ?case by (simp add: gsk_buffer_append_char_def keeps_append)
next
  case (op_append_string0 b s a b' a')
  have "unat (of_nat (length s + 1) :: u32) \<le> length (s @ [0])"
    using of_nat_u32_le [of "length s + 1"] by simp
  with op_append_string0 show ?case by (auto simp only: gsk_buffer_append_string0_def intro: keeps_append)
next
  case (op_append_foreign b data len destr ddata b' a)
  then show ?case using keeps_append_foreign by blast
next
  case (op_read b n a out rv b' a')
  then show ?case by (rule keeps_read)
next
  case (op_discard b n a rv b' a')
  then show ?case by (rule keeps_discard)
next
  case (op_read_char b a ch b' a')
  then obtain out rv where "gsk_buffer_read b 1 a = Some (out, rv, b', a')"
    by (auto simp: gsk_buffer_read_char_def split: option.splits if_splits)
  then show ?case using op_read_char(2,3) by (rule keeps_read)
next
  case (op_read_line b a line b' a')
  then consider "b' = b" "a' = a" | n out rv where "gsk_buffer_read b n a = Some (out, rv, b', a')"
    by (auto simp: gsk_buffer_read_line_def split: option.splits if_splits)
  then show ?case using op_read_line(2,3) by cases (simp add: keeps_refl, rule keeps_read)
next
  case (op_parse_string0 b a str b' a')
  then consider "b' = b" "a' = a" | n out rv where "gsk_buffer_read b n a = Some (out, rv, b', a')"
    by (auto simp: gsk_buffer_parse_string0_def Let_def split: option.splits if_splits)
  then show ?case using op_parse_string0(2,3) by cases (simp add: keeps_refl, rule keeps_read)
next
  case (op_destruct b a b' a')
  then show ?case by (rule keeps_destruct)
next
  case (op_cleanup a a' b)
  then show ?case by (rule keeps_cleanup)
qed

section \<open>Moves between the buffers\<close>

definition moves_keep ::
  "gsk_buffer \<Rightarrow> gsk_buffer \<Rightarrow> allocator \<Rightarrow> gsk_buffer \<Rightarrow> gsk_buffer \<Rightarrow> allocator \<Rightarrow> bool" where
  "moves_keep b c a b' c' a' \<longleftrightarrow>
     buffer_wf b' \<and> buffer_wf c' \<and> alloc_wf a' \<and>
     balance a' (frags b' @ frags c') = balance a (frags b @ frags c) \<and>
     callbacks a' (frags b' @ frags c') = callbacks a (frags b @ frags c)"

lemma moves_keep_drain:
  assumes "gsk_buffer_drain b c = (rv, b', c')" "buffer_wf b" "buffer_wf c" "alloc_wf a"
  shows "moves_keep b c a b' c' a"
  using gsk_buffer_drain_spec [OF assms(1-3)] assms(1,4)
  by (auto simp: moves_keep_def gsk_buffer_drain_def balance_def callbacks_def split: if_splits)

lemma moves_keep_transfer:
  assumes "gsk_buffer_transfer b c n a = (rv, b', c', a')" "buffer_wf b" "buffer_wf c" "alloc_wf a"
  shows "moves_keep b c a b' c' a'"
proof -
  obtain sfs dfs left rv1 where loop: "transfer_loop (frags c) (frags b) n 0 = (sfs, dfs, left, rv1)"
    by (metis prod_cases4)
  then obtain moved where moved: "frags c = moved @ sfs" "dfs = frags b @ moved"
    and rv1: "rv1 = of_nat (length (frags_bytes moved))"
    using transfer_loop_spec by fastforce
  define b1 where "b1 = b\<lparr>bsize := bsize b + rv1, frags := dfs\<rparr>"
  have wf: "buffer_wf b1" using assms(2,3) moved by (simp add: b1_def rv1 buffer_wf_iff contents_def)
  note spec = gsk_buffer_transfer_spec [OF assms]
  show ?thesis
  proof (cases "sfs = [] \<or> left = 0")
    case True
    then have "frags b' = dfs" "a' = a" "frags c' = sfs"
      using assms(1) by (auto simp: gsk_buffer_transfer_def loop Let_def split: list.splits)
    then show ?thesis using spec moved by (simp add: moves_keep_def balance_def callbacks_def)
  next
    case False
    then obtain f rest where sfs: "sfs = f # rest" "left \<noteq> 0" by (cases sfs) auto
    let ?data = "mem_bytes (buf f) (gsk_buffer_fragment_start f) (unat left)"
    have app: "gsk_buffer_append b1 ?data left a = (b', a')"
      and c': "frags c' = f\<lparr>buf_start := buf_start f + left, buf_length := buf_length f - left\<rparr> # rest"
      using assms(1) sfs by (auto simp: gsk_buffer_transfer_def loop b1_def Let_def split: prod.splits)
    have "op_keeps b1 a b' a' []" by (rule keeps_append [OF app _ wf assms(4)]) simp
    then have "balance a' (frags b') = balance a dfs" "callbacks a' (frags b') = callbacks a dfs"
      by (simp_all add: op_keeps_def b1_def)
    moreover have "native_count (frags c') = native_count sfs" "destroy_calls (frags c') = destroy_calls sfs"
      by (simp_all add: c' sfs(1) split: option.split)
    moreover have "frags b @ frags c = dfs @ sfs" using moved by simp
    ultimately show ?thesis using spec
      by (simp add: moves_keep_def balance_append callbacks_append)
  qed
qed

section \<open>The invariant\<close>

definition buffers_inv :: "buffers \<Rightarrow> bool" where
  "buffers_inv s = (case s of (b, c, a, reg) \<Rightarrow>
     buffer_wf b \<and> buffer_wf c \<and> alloc_wf a \<and>
     balance a (frags b @ frags c) = 0 \<and> callbacks a (frags b @ frags c) = mset reg)"

lemma buffers_inv_commute: "buffers_inv (c, b, a, reg) \<longleftrightarrow> buffers_inv (b, c, a, reg)"
  by (auto simp: buffers_inv_def balance_def callbacks_def union_ac)

lemma buffers_inv_op:
  assumes "op_keeps b a b' a' l"
  shows "buffers_inv (b, c, a, reg) \<Longrightarrow> buffers_inv (b', c, a', reg @ l)"
    "buffers_inv (c, b, a, reg) \<Longrightarrow> buffers_inv (c, b', a', reg @ l)"
proof -
  show *: "buffers_inv (b, c, a, reg) \<Longrightarrow> buffers_inv (b', c, a', reg @ l)"
    using assms by (auto simp: buffers_inv_def op_keeps_def balance_append callbacks_append)
  show "buffers_inv (c, b, a, reg) \<Longrightarrow> buffers_inv (c, b', a', reg @ l)"
    using * by (simp only: buffers_inv_commute [of c])
qed

lemma buffers_inv_move:
  assumes "moves_keep b c a b' c' a'"
  shows "buffers_inv (b, c, a, reg) \<Longrightarrow> buffers_inv (b', c', a', reg)"
    "buffers_inv (c, b, a, reg) \<Longrightarrow> buffers_inv (c', b', a', reg)"
proof -
  show *: "buffers_inv (b, c, a, reg) \<Longrightarrow> buffers_inv (b', c', a', reg)"
    using assms by (auto simp: buffers_inv_def moves_keep_def)
  show "buffers_inv (c, b, a, reg) \<Longrightarrow> buffers_inv (c', b', a', reg)"
    using * by (simp only: buffers_inv_commute [of c] buffers_inv_commute [of c'])
qed

lemma buffers_invD:
  "buffers_inv (b, c, a, reg) \<Longrightarrow> buffer_wf b \<and> buffer_wf c \<and> alloc_wf a"
  by (simp add: buffers_inv_def)

lemma buffers_inv_step:
  "buffers_step s s' \<Longrightarrow> buffers_inv s \<Longrightarrow> buffers_inv s'"
proof (induction rule: buffers_step.induct)
  case (on_first b a b' a' l c reg)
  then show ?case using buffers_inv_op(1) buffer_op_keeps buffers_invD by metis
next
  case (on_second c a c' a' l b reg)
  then show ?case using buffers_inv_op(2) buffer_op_keeps buffers_invD by metis
next
  case (transfer_second b c n a rv b' c' a' reg)
  then show ?case using buffers_inv_move(1) moves_keep_transfer buffers_invD by metis
next
  case (transfer_first c b n a rv c' b' a' reg)
  then show ?case using buffers_inv_move(2) moves_keep_transfer buffers_invD by metis
next
  case (drain_second b c rv b' c' a reg)
  then show ?case using buffers_inv_move(1) moves_keep_drain buffers_invD by metis
next
  case (drain_first c b rv c' b' a reg)
  then show ?case using buffers_inv_move(2) moves_keep_drain buffers_invD by metis
qed

lemma buffers_reachable_inv: "buffers_reachable s \<Longrightarrow> buffers_inv s"
proof (induction rule: buffers_reachable.induct)
  case (start img)
  show ?case
    by (simp add: buffers_inv_def initial_allocator_def gsk_buffer_construct_def buffer_wf_iff contents_def
        alloc_wf_def MAX_RECYCLED_def balance_def outstanding_def callbacks_def)
qed (rule buffers_inv_step)

end
