(* ===== verification/Gsk_Buffer_Scan.thy ===== *)
theory Gsk_Buffer_Scan
  imports Gsk_Buffer "HOL-Library.Sublist"
begin

text \<open>
  The rest of \<^verbatim>\<open>src/gskbuffer.c\<close>: the substring search over the fragment chain, the
  iterator \<^verbatim>\<open>GskBufferIterator\<close> that walks a buffer without consuming it, and the
  operations that move bytes between a buffer and a file descriptor.  The system calls
  \<open>writev\<close> and \<open>read\<close> are parameters: a function from the bytes offered to the result
  and the \<open>errno\<close> value.
\<close>

section \<open>Substring search\<close>

text \<open>
  \<open>match_rest sub fs str\<close>: the comparison of the bytes of \<open>str\<close> (its NUL is the end of
  the list) with what follows a candidate position, \<open>sub\<close> in the current fragment, then
  the fragments \<open>fs\<close>.  False is the jump to \<open>bad_guess\<close>.
\<close>

fun match_rest :: "u8 list \<Rightarrow> frag list \<Rightarrow> u8 list \<Rightarrow> bool" where
  "match_rest sub fs [] = True"
| "match_rest [] [] (c # cs) = False"
| "match_rest [] (f # fs) (c # cs) = match_rest (frag_data f) fs (c # cs)"
| "match_rest (x # xs) fs (c # cs) = (if c \<noteq> x then False else match_rest xs fs cs)"

text \<open>The loop over one fragment: \<open>Inl rv\<close> when found, \<open>Inr rv\<close> at its end.\<close>

fun str_scan_frag :: "u8 list \<Rightarrow> frag list \<Rightarrow> u8 \<Rightarrow> u8 list \<Rightarrow> u32 \<Rightarrow> u32 + u32" where
  "str_scan_frag [] rest c0 cs rv = Inr rv"
| "str_scan_frag (x # xs) rest c0 cs rv =
     (if x \<noteq> c0 then str_scan_frag xs rest c0 cs (rv + 1)
      else if match_rest xs rest cs then Inl rv
      else str_scan_frag xs rest c0 cs (rv + 1))"

fun str_index_loop :: "frag list \<Rightarrow> u8 \<Rightarrow> u8 list \<Rightarrow> u32 \<Rightarrow> int" where
  "str_index_loop [] c0 cs rv = -1"
| "str_index_loop (f # rest) c0 cs rv =
     (case str_scan_frag (frag_data f) rest c0 cs rv of
        Inl i \<Rightarrow> sint i
      | Inr rv' \<Rightarrow> str_index_loop rest c0 cs rv')"

text \<open>For the empty string the source compares with the NUL and, at a zero byte of the
  buffer, reads behind it: None.\<close>

definition gsk_buffer_str_index_of :: "gsk_buffer \<Rightarrow> u8 list \<Rightarrow> int option" where
  "gsk_buffer_str_index_of b str_to_find =
     (case str_to_find of
        c0 # cs \<Rightarrow> Some (str_index_loop (frags b) c0 cs 0)
      | [] \<Rightarrow> (if list_all (\<lambda>f. 0 \<notin> set (frag_data f)) (frags b) then Some (-1) else None))"

section \<open>The iterator\<close>

text \<open>\<open>fragment\<close> is the current fragment with its successors (the empty list is NULL);
  the pointer \<open>cur_data\<close> is a block with an offset, None for NULL.\<close>

type_synonym data_ptr = "(memory \<times> nat) option"

record gsk_iterator =
  fragment :: "frag list"
  in_cur :: u32
  cur_length :: u32
  cur_data :: data_ptr
  offset :: u32

definition frag_ptr :: "frag \<Rightarrow> data_ptr" where
  "frag_ptr f = Some (buf f, gsk_buffer_fragment_start f)"

definition ptr_bytes :: "data_ptr \<Rightarrow> u32 \<Rightarrow> u32 \<Rightarrow> u8 list" where
  "ptr_bytes p i n = (case p of None \<Rightarrow> [] | Some (m, off) \<Rightarrow> mem_bytes m (off + unat i) (unat n))"

definition gsk_buffer_iterator_construct :: "gsk_buffer \<Rightarrow> gsk_iterator" where
  "gsk_buffer_iterator_construct to_iterate =
     (case frags to_iterate of
        f # fs \<Rightarrow> \<lparr>fragment = f # fs, in_cur = 0, cur_length = buf_length f,
                  cur_data = frag_ptr f, offset = 0\<rparr>
      | [] \<Rightarrow> \<lparr>fragment = [], in_cur = 0, cur_length = 0, cur_data = None, offset = 0\<rparr>)"

text \<open>The reload of \<open>frag_length\<close> and \<open>frag_data\<close> after \<open>fragment = fragment->next\<close>, with
  the values they have when there is no next fragment.\<close>

definition next_length :: "frag list \<Rightarrow> u32 \<Rightarrow> u32" where
  "next_length rest frag_length = (case rest of [] \<Rightarrow> frag_length | g # _ \<Rightarrow> buf_length g)"

definition next_data :: "frag list \<Rightarrow> data_ptr \<Rightarrow> data_ptr" where
  "next_data rest frag_dat = (case rest of [] \<Rightarrow> frag_dat | g # _ \<Rightarrow> frag_ptr g)"

text \<open>The loop of \<open>gsk_buffer_iterator_peek\<close>: the bytes copied and \<open>out_remaining\<close>.\<close>

fun iterator_peek_loop ::
  "frag list \<Rightarrow> u32 \<Rightarrow> data_ptr \<Rightarrow> u32 \<Rightarrow> u32 \<Rightarrow> u8 list \<times> u32" where
  "iterator_peek_loop [] frag_length frag_dat in_frag out_remaining = ([], out_remaining)"
| "iterator_peek_loop (f # rest) frag_length frag_dat in_frag out_remaining =
     (let frag_remaining = frag_length - in_frag
      in if out_remaining \<le> frag_remaining then (ptr_bytes frag_dat in_frag out_remaining, 0)
         else
           (case iterator_peek_loop rest (next_length rest frag_length) (next_data rest frag_dat) 0
                    (out_remaining - frag_remaining)
            of (out, left) \<Rightarrow> (ptr_bytes frag_dat in_frag frag_remaining @ out, left)))"

definition gsk_buffer_iterator_peek :: "gsk_iterator \<Rightarrow> u32 \<Rightarrow> u8 list \<times> u32" where
  "gsk_buffer_iterator_peek it max_length =
     (case iterator_peek_loop (fragment it) (cur_length it) (cur_data it) (in_cur it) max_length of
        (out, out_remaining) \<Rightarrow> (out, max_length - out_remaining))"

text \<open>The loop of \<open>gsk_buffer_iterator_read\<close> also returns where it stopped: fragment,
  \<open>frag_length\<close>, \<open>frag_data\<close>, \<open>in_frag\<close>, \<open>out_remaining\<close>.\<close>

fun iterator_read_loop ::
  "frag list \<Rightarrow> u32 \<Rightarrow> data_ptr \<Rightarrow> u32 \<Rightarrow> u32
     \<Rightarrow> u8 list \<times> frag list \<times> u32 \<times> data_ptr \<times> u32 \<times> u32" where
  "iterator_read_loop [] frag_length frag_dat in_frag out_remaining =
     ([], [], frag_length, frag_dat, in_frag, out_remaining)"
| "iterator_read_loop (f # rest) frag_length frag_dat in_frag out_remaining =
     (let frag_remaining = frag_length - in_frag
      in if out_remaining \<le> frag_remaining then
           (ptr_bytes frag_dat in_frag out_remaining, f # rest, frag_length, frag_dat,
            in_frag + out_remaining, 0)
         else
           (case iterator_read_loop rest (next_length rest frag_length) (next_data rest frag_dat) 0
                    (out_remaining - frag_remaining)
            of (out, final) \<Rightarrow> (ptr_bytes frag_dat in_frag frag_remaining @ out, final)))"

definition gsk_buffer_iterator_read :: "gsk_iterator \<Rightarrow> u32 \<Rightarrow> u8 list \<times> u32 \<times> gsk_iterator" where
  "gsk_buffer_iterator_read it max_length =
     (case iterator_read_loop (fragment it) (cur_length it) (cur_data it) (in_cur it) max_length of
        (out, fs, frag_length, frag_dat, in_frag, out_remaining) \<Rightarrow>
          (out, max_length - out_remaining,
           \<lparr>fragment = fs, in_cur = in_frag, cur_length = frag_length, cur_data = frag_dat,
            offset = offset it + (max_length - out_remaining)\<rparr>))"

fun iterator_skip_loop ::
  "frag list \<Rightarrow> u32 \<Rightarrow> data_ptr \<Rightarrow> u32 \<Rightarrow> u32 \<Rightarrow> frag list \<times> u32 \<times> data_ptr \<times> u32 \<times> u32" where
  "iterator_skip_loop [] frag_length frag_dat in_frag out_remaining =
     ([], frag_length, frag_dat, in_frag, out_remaining)"
| "iterator_skip_loop (f # rest) frag_length frag_dat in_frag out_remaining =
     (let frag_remaining = frag_length - in_frag
      in if out_remaining \<le> frag_remaining then
           (f # rest, frag_length, frag_dat, in_frag + out_remaining, 0)
         else
           iterator_skip_loop rest (next_length rest 0) (next_data rest None) 0
             (out_remaining - frag_remaining))"

definition gsk_buffer_iterator_skip :: "gsk_iterator \<Rightarrow> u32 \<Rightarrow> u32 \<times> gsk_iterator" where
  "gsk_buffer_iterator_skip it max_length =
     (case iterator_skip_loop (fragment it) (cur_length it) (cur_data it) (in_cur it) max_length of
        (fs, frag_length, frag_dat, in_frag, out_remaining) \<Rightarrow>
          (max_length - out_remaining,
           \<lparr>fragment = fs, in_cur = in_frag, cur_length = frag_length, cur_data = frag_dat,
            offset = offset it + (max_length - out_remaining)\<rparr>))"

text \<open>The result of \<open>gsk_buffer_iterator_find_char\<close> is a \<open>gboolean\<close>, an \<open>int\<close>: an
  exhausted iterator yields -1.\<close>

fun iterator_find_loop ::
  "frag list \<Rightarrow> u8 \<Rightarrow> u32 \<Rightarrow> data_ptr \<Rightarrow> u32 \<Rightarrow> u32 \<Rightarrow> gsk_iterator option" where
  "iterator_find_loop [] c frag_length frag_dat in_frag new_offset = None"
| "iterator_find_loop (f # rest) c frag_length frag_dat in_frag new_offset =
     (case memchr c (ptr_bytes frag_dat in_frag (frag_length - in_frag)) of
        Some i \<Rightarrow>
          Some \<lparr>fragment = f # rest, in_cur = in_frag + of_nat i, cur_length = frag_length,
                cur_data = frag_dat, offset = of_nat i + new_offset\<rparr>
      | None \<Rightarrow>
          iterator_find_loop rest c (next_length rest frag_length) (next_data rest frag_dat) 0
            (new_offset + (frag_length - in_frag)))"

definition gsk_buffer_iterator_find_char :: "gsk_iterator \<Rightarrow> u8 \<Rightarrow> int \<times> gsk_iterator" where
  "gsk_buffer_iterator_find_char it c =
     (if fragment it = [] then (-1, it)
      else (case iterator_find_loop (fragment it) c (cur_length it) (cur_data it) (in_cur it) (offset it) of
              Some it' \<Rightarrow> (1, it')
            | None \<Rightarrow> (0, it)))"

section \<open>File descriptors\<close>

definition EINTR :: int where "EINTR = 4"
definition EAGAIN :: int where "EAGAIN = 11"
definition EWOULDBLOCK :: int where "EWOULDBLOCK = 11"

definition gsk_errno_is_ignorable :: "int \<Rightarrow> bool" where
  "gsk_errno_is_ignorable errno_value \<longleftrightarrow>
     (if errno_value = EWOULDBLOCK then True else errno_value = EINTR \<or> errno_value = EAGAIN)"

text \<open>The tail that both \<open>writev\<close> functions share, after the system call on \<open>iov\<close>.  Its result, an
  \<open>ssize_t\<close>, is stored in the \<open>int\<close> variable \<open>rv\<close>.\<close>

definition writev_finish ::
  "(u8 list list \<Rightarrow> int \<times> int) \<Rightarrow> gsk_buffer \<Rightarrow> u8 list list \<Rightarrow> allocator \<Rightarrow> int \<times> gsk_buffer \<times> allocator" where
  "writev_finish sys_writev read_from iov a =
     (case sys_writev iov of (result, errno) \<Rightarrow>
        (let rv = c_int result
         in if rv < 0 \<and> gsk_errno_is_ignorable errno then (0, read_from, a)
            else if rv \<le> 0 then (rv, read_from, a)
            else (case gsk_buffer_discard read_from (word_of_int rv) a of (_, b', a') \<Rightarrow> (rv, b', a'))))"

definition gsk_buffer_writev ::
  "(u8 list list \<Rightarrow> int \<times> int) \<Rightarrow> gsk_buffer \<Rightarrow> allocator \<Rightarrow> int \<times> gsk_buffer \<times> allocator" where
  "gsk_buffer_writev sys_writev read_from a =
     writev_finish sys_writev read_from
       (map frag_data (take MAX_FRAGMENTS_TO_WRITE (frags read_from))) a"

text \<open>The two loops of \<open>gsk_buffer_writev_len\<close>: how many fragments are needed, and the
  vector with its lengths cut to \<open>max_bytes\<close>.\<close>

fun writev_len_count :: "frag list \<Rightarrow> nat \<Rightarrow> u32 \<Rightarrow> u32 \<Rightarrow> nat" where
  "writev_len_count [] nfrag bytes max_bytes = nfrag"
| "writev_len_count (f # rest) nfrag bytes max_bytes =
     (if bytes < max_bytes \<and> nfrag < MAX_FRAGMENTS_TO_WRITE
      then writev_len_count rest (Suc nfrag) (bytes + buf_length f) max_bytes
      else nfrag)"

fun writev_len_iov :: "frag list \<Rightarrow> u32 \<Rightarrow> u8 list list" where
  "writev_len_iov [] bytes = []"
| "writev_len_iov (f # rest) bytes =
     (if 0 < bytes then
        (let frag_bytes = (if bytes < buf_length f then bytes else buf_length f)
         in mem_bytes (buf f) (gsk_buffer_fragment_start f) (unat frag_bytes)
              # writev_len_iov rest (bytes - frag_bytes))
      else [])"

definition gsk_buffer_writev_len ::
  "(u8 list list \<Rightarrow> int \<times> int) \<Rightarrow> gsk_buffer \<Rightarrow> u32 \<Rightarrow> allocator \<Rightarrow> int \<times> gsk_buffer \<times> allocator" where
  "gsk_buffer_writev_len sys_writev read_from max_bytes a =
     (let nfrag = writev_len_count (frags read_from) 0 0 max_bytes
      in writev_finish sys_writev read_from (writev_len_iov (take nfrag (frags read_from)) max_bytes) a)"

text \<open>\<open>sys_read 8192\<close> is the result of \<open>read\<close> and what it stored in the local array.\<close>

definition gsk_buffer_read_in_fd ::
  "(nat \<Rightarrow> int \<times> u8 list) \<Rightarrow> gsk_buffer \<Rightarrow> allocator \<Rightarrow> int \<times> gsk_buffer \<times> allocator" where
  "gsk_buffer_read_in_fd sys_read write_to a =
     (case sys_read 8192 of (rv, data) \<Rightarrow>
        (if rv < 0 then (rv, write_to, a)
         else (case gsk_buffer_append write_to data (word_of_int rv) a of (b', a') \<Rightarrow> (rv, b', a'))))"

section \<open>Correctness of the search\<close>

text \<open>The reference: the least index at which \<open>pat\<close> is a prefix of the rest.\<close>

fun first_occurrence :: "u8 list \<Rightarrow> u8 list \<Rightarrow> nat option" where
  "first_occurrence pat [] = (if pat = [] then Some 0 else None)"
| "first_occurrence pat (x # xs) =
     (if prefix pat (x # xs) then Some 0 else map_option Suc (first_occurrence pat xs))"

lemma first_occurrence_SomeD:
  "first_occurrence pat xs = Some i \<Longrightarrow>
     i \<le> length xs \<and> prefix pat (drop i xs) \<and> (\<forall>j<i. \<not> prefix pat (drop j xs))"
proof (induction pat xs arbitrary: i rule: first_occurrence.induct)
  case (2 pat x xs)
  show ?case
  proof (cases "prefix pat (x # xs)")
    case True
    with 2 show ?thesis by simp
  next
    case False
    with "2.prems" obtain k where k: "i = Suc k" "first_occurrence pat xs = Some k" by auto
    have "\<not> prefix pat (drop j (x # xs))" if "j < i" for j
      using "2.IH" [OF False k(2)] that False by (cases j) (auto simp: k)
    then show ?thesis using "2.IH" [OF False k(2)] by (simp add: k)
  qed
qed (auto split: if_splits)

lemma first_occurrence_NoneD:
  "first_occurrence pat xs = None \<Longrightarrow> \<not> prefix pat (drop j xs)"
proof (induction pat xs arbitrary: j rule: first_occurrence.induct)
  case (2 pat x xs)
  then show ?case by (cases j) (auto split: if_splits)
qed (auto split: if_splits)

lemma match_rest_prefix: "match_rest sub fs cs = prefix cs (sub @ frags_bytes fs)"
  by (induction sub fs cs rule: match_rest.induct) auto

lemma str_scan_frag_spec:
  "str_scan_frag xs rest c0 cs rv =
     (case first_occurrence (c0 # cs) (xs @ frags_bytes rest) of
        None \<Rightarrow> Inr (rv + of_nat (length xs))
      | Some i \<Rightarrow> if i < length xs then Inl (rv + of_nat i) else Inr (rv + of_nat (length xs)))"
  by (induction xs arbitrary: rv) (auto simp: match_rest_prefix algebra_simps split: option.splits)

lemma first_occurrence_append:
  assumes "\<And>i. first_occurrence pat (xs @ ys) = Some i \<Longrightarrow> length xs \<le> i" "pat \<noteq> []"
  shows "first_occurrence pat (xs @ ys) = map_option ((+) (length xs)) (first_occurrence pat ys)"
  using assms(1)
proof (induction xs)
  case Nil
  show ?case by (cases "first_occurrence pat ys") auto
next
  case (Cons x xs)
  have np: "\<not> prefix pat (x # xs @ ys)" using Cons.prems [of 0] by auto
  have "length xs \<le> i" if "first_occurrence pat (xs @ ys) = Some i" for i
    using Cons.prems [of "Suc i"] that np by simp
  then have "first_occurrence pat (xs @ ys) = map_option ((+) (length xs)) (first_occurrence pat ys)"
    by (rule Cons.IH)
  with np show ?case by (cases "first_occurrence pat ys") auto
qed

lemma str_index_loop_spec:
  "str_index_loop fs c0 cs rv =
     (case first_occurrence (c0 # cs) (frags_bytes fs) of None \<Rightarrow> -1 | Some i \<Rightarrow> sint (rv + of_nat i))"
proof (induction fs arbitrary: rv)
  case (Cons f fs)
  let ?occ = "first_occurrence (c0 # cs)"
  show ?case
  proof (cases "\<exists>i. ?occ (frag_data f @ frags_bytes fs) = Some i \<and> i < unat (buf_length f)")
    case True
    then show ?thesis by (auto simp: str_scan_frag_spec)
  next
    case False
    then have "str_scan_frag (frag_data f) fs c0 cs rv = Inr (rv + buf_length f)"
      by (auto simp: str_scan_frag_spec split: option.splits)
    moreover have "?occ (frag_data f @ frags_bytes fs)
        = map_option ((+) (unat (buf_length f))) (?occ (frags_bytes fs))"
      using False first_occurrence_append [of "c0 # cs" "frag_data f" "frags_bytes fs"] by force
    ultimately show ?thesis
      by (simp add: Cons.IH algebra_simps split: option.splits)
  qed
qed simp

lemma gsk_buffer_str_index_of_spec:
  assumes "str \<noteq> []" "length (contents b) < 2147483648"
  shows "gsk_buffer_str_index_of b str =
     Some (case first_occurrence str (contents b) of None \<Rightarrow> -1 | Some i \<Rightarrow> int i)"
proof -
  obtain c0 cs where str: "str = c0 # cs" using assms(1) by (cases str) auto
  show ?thesis
    using assms(2)
    by (auto simp: str gsk_buffer_str_index_of_def str_index_loop_spec contents_def sint_of_nat_u32
        split: option.splits dest: first_occurrence_SomeD)
qed

section \<open>Correctness of the iterator\<close>

text \<open>A cursor (fragment chain, \<open>cur_length\<close>, \<open>cur_data\<close>, \<open>in_cur\<close>) caches the current
  fragment's length and start and stands inside it; what lies ahead of it:\<close>

definition cursor_ok :: "frag list \<Rightarrow> u32 \<Rightarrow> data_ptr \<Rightarrow> u32 \<Rightarrow> bool" where
  "cursor_ok fs len dat i \<longleftrightarrow>
     (case fs of [] \<Rightarrow> True | f # _ \<Rightarrow> len = buf_length f \<and> dat = frag_ptr f \<and> i \<le> len)"

definition cursor_rest :: "frag list \<Rightarrow> u32 \<Rightarrow> u8 list" where
  "cursor_rest fs i = (case fs of [] \<Rightarrow> [] | f # gs \<Rightarrow> drop (unat i) (frag_data f) @ frags_bytes gs)"

definition iter_wf :: "gsk_iterator \<Rightarrow> bool" where
  "iter_wf it \<longleftrightarrow> cursor_ok (fragment it) (cur_length it) (cur_data it) (in_cur it)"

definition iter_rest :: "gsk_iterator \<Rightarrow> u8 list" where
  "iter_rest it = cursor_rest (fragment it) (in_cur it)"

lemma cursor_start [simp]:
  "cursor_ok (g # gs) (buf_length g) (frag_ptr g) 0"
  "cursor_rest (g # gs) 0 = frags_bytes (g # gs)"
  by (simp_all add: cursor_ok_def cursor_rest_def)

lemma cursor_Nil [simp]: "cursor_ok [] len dat i" "cursor_rest [] i = []"
  by (simp_all add: cursor_ok_def cursor_rest_def)

lemma cursor_ok_next: "cursor_ok rest (next_length rest len) (next_data rest dat) 0"
  by (cases rest) (simp_all add: next_length_def next_data_def)

lemma ptr_bytes_frag_ptr:
  assumes "i \<le> buf_length f" "n \<le> buf_length f - i"
  shows "ptr_bytes (frag_ptr f) i n = take (unat n) (drop (unat i) (frag_data f))"
proof -
  have "unat i \<le> unat (buf_length f)" "unat n \<le> unat (buf_length f) - unat i"
    using assms by (simp_all add: word_le_nat_alt unat_sub_no_wrap)
  then show ?thesis
    by (simp add: ptr_bytes_def frag_ptr_def frag_data_def drop_mem_bytes take_mem_bytes)
qed

lemma iterator_read_loop_spec:
  assumes "iterator_read_loop fs len dat i m = (out, fs', len', dat', i', left)" "cursor_ok fs len dat i"
  shows "out = take (unat m) (cursor_rest fs i) \<and> cursor_rest fs' i' = drop (unat m) (cursor_rest fs i) \<and>
    cursor_ok fs' len' dat' i' \<and> unat left = unat m - length (cursor_rest fs i)"
  using assms
proof (induction fs arbitrary: len dat i m out)
  case Nil
  then show ?case by auto
next
  case (Cons f rest)
  have ok: "len = buf_length f" "dat = frag_ptr f" "i \<le> buf_length f"
    using Cons.prems(2) by (auto simp: cursor_ok_def)
  define rem where "rem = buf_length f - i"
  have rem: "unat rem = unat (buf_length f) - unat i" and i: "unat i \<le> unat (buf_length f)"
    using ok(3) by (simp_all add: rem_def unat_sub word_le_nat_alt)
  show ?case
  proof (cases "m \<le> rem")
    case True
    then have res: "out = ptr_bytes (frag_ptr f) i m" "fs' = f # rest" "len' = buf_length f"
      "dat' = frag_ptr f" "i' = i + m" "left = 0"
      using Cons.prems(1) by (auto simp: ok rem_def Let_def)
    have um: "unat m \<le> unat (buf_length f) - unat i" using True rem by (simp add: word_le_nat_alt)
    then have "unat i + unat m < 4294967296" using i unat_u32_bound [of "buf_length f"] by linarith
    then have "unat (i + m) = unat i + unat m" by (intro unat_add_no_wrap) simp
    then show ?thesis
      using um i ptr_bytes_frag_ptr [OF ok(3) True [unfolded rem_def]]
      by (auto simp: res cursor_rest_def cursor_ok_def word_le_nat_alt add.commute)
  next
    case False
    then have lt: "unat rem < unat m" by (simp add: word_le_nat_alt)
    then have m': "unat (m - rem) = unat m - unat rem" by (intro unat_sub_no_wrap) simp
    obtain out1 len1 dat1 where nxt: "iterator_read_loop rest len1 dat1 0 (m - rem)
        = (out1, fs', len', dat', i', left)"
      and ok1: "cursor_ok rest len1 dat1 0" and out: "out = ptr_bytes (frag_ptr f) i rem @ out1"
      using Cons.prems(1) False cursor_ok_next
      by (auto simp: ok rem_def Let_def split: prod.splits)
    have rest: "cursor_rest rest 0 = frags_bytes rest" by (cases rest) simp_all
    have "ptr_bytes (frag_ptr f) i rem = drop (unat i) (frag_data f)"
      using ptr_bytes_frag_ptr [OF ok(3), of rem] rem by (simp add: rem_def)
    with Cons.IH [OF nxt ok1] lt rem m' rest show ?thesis
      by (auto simp: out cursor_rest_def)
  qed
qed

lemma iterator_peek_loop_read:
  "iterator_peek_loop fs len dat i m =
     (case iterator_read_loop fs len dat i m of (out, _, _, _, _, left) \<Rightarrow> (out, left))"
  by (induction fs arbitrary: len dat i m) (simp_all add: Let_def case_prod_unfold)

lemma iterator_skip_loop_read:
  assumes "iterator_read_loop fs len dat i m = (out, fs', len', dat', i', left)"
    and "fs \<noteq> [] \<Longrightarrow> len2 = len \<and> dat2 = dat"
  shows "\<exists>len'' dat''. iterator_skip_loop fs len2 dat2 i m = (fs', len'', dat'', i', left) \<and>
     (fs' \<noteq> [] \<longrightarrow> len'' = len' \<and> dat'' = dat')"
  using assms
proof (induction fs arbitrary: len dat len2 dat2 i m out)
  case (Cons f rest)
  then have eq: "len2 = len" "dat2 = dat" by auto
  show ?case
  proof (cases "m \<le> len - i")
    case True
    with Cons.prems show ?thesis by (auto simp: eq Let_def)
  next
    case False
    obtain out1 where "iterator_read_loop rest (next_length rest len) (next_data rest dat) 0 (m - (len - i))
        = (out1, fs', len', dat', i', left)"
      using False Cons.prems by (auto simp: Let_def split: prod.splits)
    from Cons.IH [OF this, of "next_length rest 0" "next_data rest None"] show ?thesis
      using False by (auto simp: eq Let_def next_length_def next_data_def split: list.splits)
  qed
qed auto

lemma gsk_buffer_iterator_construct_spec:
  "iter_wf (gsk_buffer_iterator_construct b)" "iter_rest (gsk_buffer_iterator_construct b) = contents b"
  "offset (gsk_buffer_iterator_construct b) = 0"
  by (auto simp: gsk_buffer_iterator_construct_def iter_wf_def iter_rest_def contents_def split: list.splits)

lemma unat_consumed:
  fixes m left :: u32
  shows "unat left = unat m - k \<Longrightarrow> unat (m - left) = min (unat m) k"
  by (simp add: unat_sub_no_wrap)

lemma gsk_buffer_iterator_read_spec:
  assumes "gsk_buffer_iterator_read it m = (out, rv, it')" "iter_wf it"
  shows "out = take (unat m) (iter_rest it)" "unat rv = min (unat m) (length (iter_rest it))"
    "iter_wf it'" "iter_rest it' = drop (unat m) (iter_rest it)" "offset it' = offset it + rv"
proof -
  obtain fs' len' dat' i' left where
    loop: "iterator_read_loop (fragment it) (cur_length it) (cur_data it) (in_cur it) m
      = (out, fs', len', dat', i', left)"
    and res: "rv = m - left"
      "it' = \<lparr>fragment = fs', in_cur = i', cur_length = len', cur_data = dat', offset = offset it + rv\<rparr>"
    using assms(1) by (auto simp: gsk_buffer_iterator_read_def split: prod.splits)
  note spec = iterator_read_loop_spec [OF loop assms(2) [unfolded iter_wf_def], folded iter_rest_def]
  show "unat rv = min (unat m) (length (iter_rest it))" using spec unat_consumed by (simp add: res)
  show "out = take (unat m) (iter_rest it)" "iter_wf it'" "iter_rest it' = drop (unat m) (iter_rest it)"
    "offset it' = offset it + rv"
    using spec by (simp_all add: res iter_wf_def iter_rest_def)
qed

lemma gsk_buffer_iterator_peek_read:
  "gsk_buffer_iterator_peek it m = (case gsk_buffer_iterator_read it m of (out, rv, _) \<Rightarrow> (out, rv))"
  by (simp add: gsk_buffer_iterator_peek_def gsk_buffer_iterator_read_def iterator_peek_loop_read
      split: prod.splits)

lemma gsk_buffer_iterator_skip_spec:
  assumes "gsk_buffer_iterator_skip it m = (rv, it')" "iter_wf it"
  shows "unat rv = min (unat m) (length (iter_rest it))" "iter_wf it'"
    "iter_rest it' = drop (unat m) (iter_rest it)" "offset it' = offset it + rv"
proof -
  obtain out fs' len' dat' i' left where
    loop: "iterator_read_loop (fragment it) (cur_length it) (cur_data it) (in_cur it) m
      = (out, fs', len', dat', i', left)" by (metis prod_cases6)
  obtain len'' dat'' where
    skip: "iterator_skip_loop (fragment it) (cur_length it) (cur_data it) (in_cur it) m
      = (fs', len'', dat'', i', left)" and same: "fs' \<noteq> [] \<longrightarrow> len'' = len' \<and> dat'' = dat'"
    using iterator_skip_loop_read [OF loop] by blast
  have res: "rv = m - left"
      "it' = \<lparr>fragment = fs', in_cur = i', cur_length = len'', cur_data = dat'', offset = offset it + rv\<rparr>"
    using assms(1) by (auto simp: gsk_buffer_iterator_skip_def skip)
  note spec = iterator_read_loop_spec [OF loop assms(2) [unfolded iter_wf_def], folded iter_rest_def]
  show "unat rv = min (unat m) (length (iter_rest it))" using spec unat_consumed by (simp add: res)
  have "cursor_ok fs' len'' dat'' i'" using spec same by (cases fs') auto
  then show "iter_wf it'" "iter_rest it' = drop (unat m) (iter_rest it)" "offset it' = offset it + rv"
    using spec by (simp_all add: res iter_wf_def iter_rest_def)
qed

lemma iterator_find_loop_spec:
  assumes "cursor_ok fs len dat i"
  shows "case memchr c (cursor_rest fs i) of
      None \<Rightarrow> iterator_find_loop fs c len dat i off = None
    | Some k \<Rightarrow> \<exists>it'. iterator_find_loop fs c len dat i off = Some it' \<and> iter_wf it' \<and>
        iter_rest it' = drop k (cursor_rest fs i) \<and> offset it' = off + of_nat k"
  using assms
proof (induction fs arbitrary: len dat i off)
  case (Cons f rest)
  have ok: "len = buf_length f" "dat = frag_ptr f" "i \<le> buf_length f"
    using Cons.prems by (auto simp: cursor_ok_def)
  have ui: "unat i \<le> unat (buf_length f)" using ok(3) by (simp add: word_le_nat_alt)
  define ahead where "ahead = drop (unat i) (frag_data f)"
  have "unat (buf_length f - i) = unat (buf_length f) - unat i" using ui by (rule unat_sub_no_wrap)
  then have bytes: "ptr_bytes (frag_ptr f) i (buf_length f - i) = ahead"
    using ptr_bytes_frag_ptr [OF ok(3), of "buf_length f - i"] by (simp add: ahead_def)
  have ahead: "of_nat (length ahead) = buf_length f - i"
    using ui by (simp add: ahead_def of_nat_diff)
  have rest: "cursor_rest (f # rest) i = ahead @ frags_bytes rest"
    "cursor_rest rest 0 = frags_bytes rest"
    by (simp_all add: cursor_rest_def ahead_def split: list.splits)
  show ?case
  proof (cases "memchr c ahead")
    case None
    with Cons.IH [OF cursor_ok_next, of len dat "off + (len - i)"] ok show ?thesis
      by (auto simp: bytes rest memchr_append ahead ahead_def [symmetric] add.assoc
          split: option.splits)
  next
    case (Some k)
    then have k: "k < length ahead" by (blast dest: memchr_SomeD)
    then have uk: "unat i + k < unat (buf_length f)" using ui by (simp add: ahead_def)
    then have "unat (i + of_nat k) = unat i + k"
      using unat_u32_bound [of "buf_length f"]
      by (subst unat_add_no_wrap) (simp_all add: unat_of_nat_u32 del: unat_u32_bound)
    with k uk Some ok show ?thesis
      by (auto simp: bytes rest memchr_append iter_wf_def cursor_ok_def iter_rest_def cursor_rest_def
          ahead_def word_le_nat_alt add.commute)
  qed
qed simp

lemma gsk_buffer_iterator_find_char_spec:
  assumes "gsk_buffer_iterator_find_char it c = (found, it')" "iter_wf it"
  shows "case memchr c (iter_rest it) of
      None \<Rightarrow> it' = it \<and> found = (if fragment it = [] then -1 else 0)
    | Some k \<Rightarrow> found = 1 \<and> iter_wf it' \<and> iter_rest it' = drop k (iter_rest it) \<and>
        offset it' = offset it + of_nat k"
proof (cases "fragment it = []")
  case True
  with assms(1) show ?thesis by (simp add: gsk_buffer_iterator_find_char_def iter_rest_def)
next
  case False
  with assms(1) iterator_find_loop_spec [OF assms(2) [unfolded iter_wf_def], of c "offset it"]
  show ?thesis
    by (auto simp: gsk_buffer_iterator_find_char_def iter_rest_def [of it] split: option.splits)
qed

subsection \<open>Every walk over a buffer\<close>

inductive iter_step :: "gsk_iterator \<Rightarrow> gsk_iterator \<Rightarrow> bool" where
  step_read: "gsk_buffer_iterator_read it n = (out, rv, it') \<Longrightarrow> iter_step it it'"
| step_skip: "gsk_buffer_iterator_skip it n = (rv, it') \<Longrightarrow> iter_step it it'"
| step_find: "gsk_buffer_iterator_find_char it c = (found, it') \<Longrightarrow> iter_step it it'"

inductive iter_reachable :: "gsk_buffer \<Rightarrow> gsk_iterator \<Rightarrow> bool" for b where
  iter_start: "iter_reachable b (gsk_buffer_iterator_construct b)"
| iter_next: "iter_reachable b it \<Longrightarrow> iter_step it it' \<Longrightarrow> iter_reachable b it'"

text \<open>A step moves forward by some number of the bytes ahead and accounts for it in
  \<open>offset\<close>.\<close>

lemma iter_step_advances:
  assumes "iter_step it it'" "iter_wf it"
  shows "\<exists>k \<le> length (iter_rest it). iter_wf it' \<and> iter_rest it' = drop k (iter_rest it) \<and>
    offset it' = offset it + of_nat k"
  using assms
proof (cases rule: iter_step.cases)
  case (step_read n out rv)
  note spec = gsk_buffer_iterator_read_spec [OF step_read assms(2)]
  have "rv = of_nat (unat rv)" by simp
  then show ?thesis
    using spec by (intro exI [of _ "min (unat n) (length (iter_rest it))"]) (auto simp: min_def)
next
  case (step_skip n rv)
  note spec = gsk_buffer_iterator_skip_spec [OF step_skip assms(2)]
  have "rv = of_nat (unat rv)" by simp
  then show ?thesis
    using spec by (intro exI [of _ "min (unat n) (length (iter_rest it))"]) (auto simp: min_def)
next
  case (step_find c found)
  note spec = gsk_buffer_iterator_find_char_spec [OF step_find assms(2)]
  show ?thesis
  proof (cases "memchr c (iter_rest it)")
    case None
    with spec assms(2) show ?thesis by (intro exI [of _ 0]) simp
  next
    case (Some k)
    with spec show ?thesis by (intro exI [of _ k]) (auto dest: memchr_SomeD)
  qed
qed

lemma iter_reachable_inv:
  assumes "iter_reachable b it"
  shows "\<exists>k \<le> length (contents b). iter_wf it \<and> iter_rest it = drop k (contents b) \<and> offset it = of_nat k"
  using assms
proof induction
  case iter_start
  show ?case
    by (rule exI [of _ 0]) (simp add: gsk_buffer_iterator_construct_spec)
next
  case (iter_next it it')
  then obtain k where k: "k \<le> length (contents b)" "iter_wf it" "iter_rest it = drop k (contents b)"
    "offset it = of_nat k" by blast
  with iter_step_advances [OF iter_next.hyps(2)] obtain j where
    "j \<le> length (iter_rest it)" "iter_wf it'" "iter_rest it' = drop j (iter_rest it)"
    "offset it' = offset it + of_nat j" by blast
  with k show ?case by (intro exI [of _ "k + j"]) (auto simp: add.commute)
qed

section \<open>Correctness of the descriptor operations\<close>

lemma word_of_int_nat: "0 \<le> rv \<Longrightarrow> rv < 4294967296 \<Longrightarrow> unat (word_of_int rv :: u32) = nat rv"
  by (metis int_nat_eq nat_less_iff of_int_of_nat_eq of_nat_numeral unat_of_nat_u32)

text \<open>No byte is lost or sent twice: what the system call accepted and what is left in the
  buffer together are the old contents.\<close>

lemma writev_finish_spec:
  assumes "writev_finish sys_writev b iov a = (r, b', a')" "buffer_wf b" "alloc_wf a"
    and "sys_writev iov = (rv, errno)" "- 1 \<le> rv" "rv \<le> int (length (concat iov))"
    and "prefix (concat iov) (contents b)" "length (concat iov) < 2147483648"
  shows "contents b = take (nat rv) (concat iov) @ contents b'" "buffer_wf b'" "alloc_wf a'"
    "r = (if rv < 0 \<and> gsk_errno_is_ignorable errno then 0 else rv)"
proof -
  obtain tail where tail: "contents b = concat iov @ tail" using assms(7) by (auto simp: prefix_def)
  have fin: "writev_finish sys_writev b iov a =
      (if rv < 0 \<and> gsk_errno_is_ignorable errno then (0, b, a) else if rv \<le> 0 then (rv, b, a)
       else (case gsk_buffer_discard b (word_of_int rv) a of (_, b', a') \<Rightarrow> (rv, b', a')))"
    using assms(4,5,6,8) by (simp add: writev_finish_def c_int_id)
  have "contents b = take (nat rv) (concat iov) @ contents b' \<and> buffer_wf b' \<and> alloc_wf a' \<and>
    r = (if rv < 0 \<and> gsk_errno_is_ignorable errno then 0 else rv)"
  proof (cases "0 < rv")
    case False
    with assms(1-3) show ?thesis by (auto simp: fin split: if_splits)
  next
    case True
    then obtain k where d: "gsk_buffer_discard b (word_of_int rv) a = (k, b', a')" and r: "r = rv"
      using assms(1) by (cases "gsk_buffer_discard b (word_of_int rv) a") (simp add: fin)
    have "rv < 4294967296" using assms(6,8) by simp
    then have "contents b' = drop (nat rv) (contents b)"
      using True gsk_buffer_discard_spec(3) [OF d assms(2,3)] by (simp add: word_of_int_nat)
    then have "contents b = take (nat rv) (concat iov) @ contents b'"
      using assms(6) by (simp add: tail)
    then show ?thesis using gsk_buffer_discard_spec(1,2) [OF d assms(2,3)] True r by simp
  qed
  then show "contents b = take (nat rv) (concat iov) @ contents b'" "buffer_wf b'" "alloc_wf a'"
    "r = (if rv < 0 \<and> gsk_errno_is_ignorable errno then 0 else rv)" by auto
qed

text \<open>A count from \<open>2 ^ 31\<close> on becomes negative: the bytes stay in the buffer although they were sent.\<close>

lemma writev_large_count_lost:
  assumes "sys_writev iov = (rv, errno)" "2147483648 \<le> rv" "rv < 4294967296"
  shows "writev_finish sys_writev b iov a = (if gsk_errno_is_ignorable errno then 0 else rv - 4294967296, b, a)"
  using assms by (simp add: writev_finish_def c_int_wrap)

lemma prefix_take_frags: "prefix (frags_bytes (take n fs)) (frags_bytes fs)"
  by (metis append_take_drop_id frags_bytes_simps(3) prefixI)

lemma writev_len_iov_bytes:
  "concat (writev_len_iov fs n) = take (unat n) (frags_bytes fs)"
proof (induction fs n rule: writev_len_iov.induct)
  case (2 f rest n)
  show ?case
  proof (cases "n < buf_length f")
    case True
    then have "unat n < unat (buf_length f)" by (simp add: word_less_nat_alt)
    then show ?thesis
      using 2 True by (cases "n = 0") (auto simp: Let_def frag_data_def take_mem_bytes word_neq_0_conv)
  next
    case False
    then have "unat (buf_length f) \<le> unat n" "unat (n - buf_length f) = unat n - unat (buf_length f)"
      by (simp_all add: not_less word_le_nat_alt unat_sub_no_wrap)
    then show ?thesis
      using 2 False by (cases "n = 0") (auto simp: Let_def word_neq_0_conv simp flip: frag_data_def)
  qed
qed simp

lemma writev_len_iov_length: "length (writev_len_iov fs n) \<le> length fs"
  by (induction fs n rule: writev_len_iov.induct) (simp_all add: Let_def)

lemma writev_len_count_le:
  "nfrag \<le> MAX_FRAGMENTS_TO_WRITE \<Longrightarrow> writev_len_count fs nfrag bytes n \<le> MAX_FRAGMENTS_TO_WRITE"
  by (induction fs nfrag bytes n rule: writev_len_count.induct) simp_all

section \<open>The iterator as a byte source\<close>

definition iterator_get :: "u32 \<Rightarrow> gsk_iterator \<Rightarrow> (u8 list \<times> gsk_iterator) option" where
  "iterator_get n it = (case gsk_buffer_iterator_read it n of (out, rv, it') \<Rightarrow> Some (out, it'))"

definition iterator_peek_skip :: "u32 \<Rightarrow> gsk_iterator \<Rightarrow> (u8 list \<times> gsk_iterator) option" where
  "iterator_peek_skip n it =
     Some (fst (gsk_buffer_iterator_peek it n), snd (gsk_buffer_iterator_skip it n))"

interpretation iterator_source: byte_source iter_wf iter_rest iterator_get
proof unfold_locales
  fix n s assume wf: "iter_wf s"
  obtain out rv it' where r: "gsk_buffer_iterator_read s n = (out, rv, it')" by (metis prod_cases3)
  show "\<exists>s'. iterator_get n s = Some (take (unat n) (iter_rest s), s') \<and> iter_wf s' \<and>
      iter_rest s' = drop (unat n) (iter_rest s)"
    by (rule exI [of _ it']) (simp add: iterator_get_def r gsk_buffer_iterator_read_spec [OF r wf])
qed

interpretation iterator_peeks: byte_source iter_wf iter_rest iterator_peek_skip
proof unfold_locales
  fix n s assume wf: "iter_wf s"
  obtain out rv it' where r: "gsk_buffer_iterator_read s n = (out, rv, it')" by (metis prod_cases3)
  obtain rv2 it2 where k: "gsk_buffer_iterator_skip s n = (rv2, it2)" by (metis surj_pair)
  show "\<exists>s'. iterator_peek_skip n s = Some (take (unat n) (iter_rest s), s') \<and> iter_wf s' \<and>
      iter_rest s' = drop (unat n) (iter_rest s)"
    by (rule exI [of _ it2])
      (simp add: iterator_peek_skip_def k r gsk_buffer_iterator_peek_read
        gsk_buffer_iterator_read_spec(1) [OF r wf] gsk_buffer_iterator_skip_spec [OF k wf])
qed

end
