(* ===== verification/Gsk_Buffer_Properties.thy ===== *)
theory Gsk_Buffer_Properties
  imports Gsk_Buffer_System Gsk_Buffer_Scan
begin

text \<open>
  What the buffer promises its users, stated on the operations of
  \<^verbatim>\<open>src/src/gskbuffer.c\<close>: the transport of bytes, the accounts of fragments and callbacks,
  the equivalence of the ways to consume data, the searches, the line and string readers,
  the iterator, and the exchange with file descriptors.
\<close>

section \<open>Concrete states\<close>

definition blank_allocator :: allocator where
  "blank_allocator = initial_allocator (\<lambda>_ _. 0)"

definition foreign_buffer :: "u8 list \<Rightarrow> gsk_buffer" where
  "foreign_buffer bs =
     gsk_buffer_append_foreign gsk_buffer_construct (\<lambda>i. (bs @ [0]) ! i) (of_nat (length bs)) (Some 7) 9"

lemma blank_allocator_wf [simp]: "alloc_wf blank_allocator"
  by (simp add: blank_allocator_def initial_allocator_def alloc_wf_def MAX_RECYCLED_def)

lemma construct_wf [simp]: "buffer_wf gsk_buffer_construct" "contents gsk_buffer_construct = []"
  by (simp_all add: buffer_wf_iff gsk_buffer_construct_def contents_def)

lemma foreign_buffer_facts:
  assumes "length bs < 2 ^ 32"
  shows "buffer_wf (foreign_buffer bs)" "contents (foreign_buffer bs) = bs"
proof -
  have "op_keeps gsk_buffer_construct blank_allocator (foreign_buffer bs) blank_allocator (registers (Some 7) 9)"
    unfolding foreign_buffer_def by (rule keeps_append_foreign) simp_all
  then show "buffer_wf (foreign_buffer bs)" by (simp add: op_keeps_def)
  have "unat (of_nat (length bs) :: u32) = length bs" using assms by (simp add: unat_of_nat_u32)
  then show "contents (foreign_buffer bs) = bs"
    by (auto simp: foreign_buffer_def gsk_buffer_append_foreign_def gsk_buffer_construct_def contents_def
        new_foreign_fragment_def frag_data_def gsk_buffer_fragment_start_def mem_bytes_def nth_append
        intro: nth_equalityI)
qed

lemma reachable_foreign:
  "buffers_reachable (foreign_buffer [65, 66, 67], gsk_buffer_construct, blank_allocator, [(7, 9)])"
proof -
  have "buffer_op gsk_buffer_construct blank_allocator (foreign_buffer [65, 66, 67]) blank_allocator
      (registers (Some 7) 9)"
    unfolding foreign_buffer_def by (rule op_append_foreign) (rule refl)
  then have "buffers_step (gsk_buffer_construct, gsk_buffer_construct, blank_allocator, [])
      (foreign_buffer [65, 66, 67], gsk_buffer_construct, blank_allocator, [] @ registers (Some 7) 9)"
    by (rule on_first)
  moreover have "buffers_reachable (gsk_buffer_construct, gsk_buffer_construct, blank_allocator, [])"
    unfolding blank_allocator_def by (rule start)
  ultimately have "buffers_reachable
      (foreign_buffer [65, 66, 67], gsk_buffer_construct, blank_allocator, [] @ registers (Some 7) 9)"
    by (rule step [rotated])
  then show ?thesis by (simp add: registers_def)
qed

section \<open>Accounts\<close>

text \<open>C1: In every state that two buffers can reach by any sequence of operations, transfers
  and drains, both pass the integrity check \<open>verify_buffer\<close>; every native fragment ever
  allocated is in one of the two chains, on the recycling stack or freed (no leak, no
  double use); the recycling stack holds at most 16; and every destroy callback registered
  with foreign data was called exactly as often as it was registered, up to those still
  waiting in the chains.\<close>

theorem buffers_reachable_accounts:
  assumes "buffers_reachable (b, c, a, reg)"
  shows "verify_buffer b \<and> verify_buffer c \<and>
    int (malloc_count a) = native_count (frags b) + native_count (frags c)
      + int (length (recycling_stack a)) + int (free_count a) \<and>
    length (recycling_stack a) \<le> 16 \<and>
    mset (destroy_log a) + mset (destroy_calls (frags b)) + mset (destroy_calls (frags c)) = mset reg"
  using buffers_reachable_inv [OF assms]
  by (auto simp: buffers_inv_def buffer_wf_def alloc_wf_def balance_def outstanding_def callbacks_def
      MAX_RECYCLED_def union_ac)

theorem buffers_reachable_accounts_witness:
  "verify_buffer (foreign_buffer [65, 66, 67]) \<and>
   mset (destroy_log blank_allocator) + mset (destroy_calls (frags (foreign_buffer [65, 66, 67])))
     + mset (destroy_calls (frags gsk_buffer_construct)) = mset [(7, 9)]"
  using buffers_reachable_accounts [OF reachable_foreign] by blast

text \<open>C8: Appending never writes to memory that the buffer does not own: the foreign
  fragments of the chain, their memory included, are the same before and after
  \<open>gsk_buffer_append\<close>, even when a foreign fragment is the last one; the bytes come
  after the old contents, and the cached size grows by their number.\<close>

theorem append_spares_foreign_memory:
  assumes "gsk_buffer_append b data len a = (b', a')" "buffer_wf b" "alloc_wf a"
    and "unat len \<le> length data"
  shows "filter is_foreign (frags b') = filter is_foreign (frags b) \<and>
    contents b' = contents b @ take (unat len) data \<and> bsize b' = bsize b + len \<and> verify_buffer b'"
proof -
  have "bsize b' = bsize b + len" using assms(1) by (auto simp: gsk_buffer_append_def split: prod.splits)
  with gsk_buffer_append_spec [OF assms] show ?thesis by (simp add: buffer_wf_def)
qed

theorem append_spares_foreign_memory_witness:
  "contents (fst (gsk_buffer_append (foreign_buffer [65, 66]) [67, 68] 2 blank_allocator)) = [65, 66, 67, 68]"
proof -
  obtain b' a' where r: "gsk_buffer_append (foreign_buffer [65, 66]) [67, 68] 2 blank_allocator = (b', a')"
    by (metis surj_pair)
  show ?thesis
    using append_spares_foreign_memory [OF r] foreign_buffer_facts [of "[65, 66]"] by (simp add: r)
qed

section \<open>Transport of bytes\<close>

text \<open>C2: A buffer is a byte queue: however appends and reads of arbitrary sizes are
  interleaved, every read succeeds (its closing assertion never fails), and what was read
  followed by what the buffer still holds is what it held at first followed by what was
  appended.\<close>

theorem buffer_transports_bytes:
  assumes "queue_inv s" "puts_fit ops"
  shows "\<exists>out s'. run_queue buffer_put buffer_get ops s = Some (out, s') \<and> queue_inv s' \<and>
    out @ contents (fst s') = contents (fst s) @ bytes_put ops"
  using assms by (rule buffer_queue.run_queue_ok)

theorem buffer_transports_bytes_witness:
  "\<exists>out s'. run_queue buffer_put buffer_get [Put [1, 2, 3], Get 2, Put [4], Get 9]
      (gsk_buffer_construct, blank_allocator) = Some (out, s') \<and> queue_inv s' \<and>
    out @ contents (fst s') = [1, 2, 3, 4]"
proof -
  have "queue_inv (gsk_buffer_construct, blank_allocator)" by (simp add: queue_inv_def)
  moreover have "puts_fit [Put [1, 2, 3], Get 2, Put [4], Get 9]" by simp
  moreover have "contents (fst (gsk_buffer_construct, blank_allocator))
      @ bytes_put [Put [1, 2, 3], Get 2, Put [4], Get 9] = [1, 2, 3, 4]" by simp
  ultimately show ?thesis
    using buffer_transports_bytes [of "(gsk_buffer_construct, blank_allocator)"
        "[Put [1, 2, 3], Get 2, Put [4], Get 9]"] by metis
qed

text \<open>\<open>gsk_buffer_read\<close> returns the first bytes of the contents, as many as asked for
  and available, and never aborts; \<open>gsk_buffer_peek\<close> shows the same bytes and count, and
  \<open>gsk_buffer_discard\<close> leaves the same buffer, allocator and count as the read.\<close>

theorem read_peek_discard:
  assumes "buffer_wf b" "alloc_wf a"
  shows "\<exists>rv b' a'. gsk_buffer_read b n a = Some (take (unat n) (contents b), rv, b', a') \<and>
    gsk_buffer_peek b n = (take (unat n) (contents b), rv) \<and>
    gsk_buffer_discard b n a = (rv, b', a') \<and>
    unat rv = min (unat n) (length (contents b)) \<and>
    contents b' = drop (unat n) (contents b) \<and> buffer_wf b' \<and> alloc_wf a'"
proof -
  obtain rv b' a' where r: "gsk_buffer_read b n a = Some (take (unat n) (contents b), rv, b', a')"
    "gsk_buffer_discard b n a = (rv, b', a')" "unat rv = min (unat n) (length (contents b))"
    "contents b' = drop (unat n) (contents b)" "buffer_wf b'" "alloc_wf a'"
    using assms by (rule gsk_buffer_read_spec)
  moreover have "gsk_buffer_peek b n = (take (unat n) (contents b), rv)"
    using gsk_buffer_peek_spec [OF assms(1), of n] r(3) by (metis prod.collapse unsigned_word_eqI)
  ultimately show ?thesis by blast
qed

theorem read_peek_discard_witness:
  "\<exists>rv b' a'. gsk_buffer_read (foreign_buffer [65, 66, 67]) 2 blank_allocator = Some ([65, 66], rv, b', a') \<and>
    gsk_buffer_peek (foreign_buffer [65, 66, 67]) 2 = ([65, 66], rv) \<and> contents b' = [67]"
proof -
  have "buffer_wf (foreign_buffer [65, 66, 67])" "contents (foreign_buffer [65, 66, 67]) = [65, 66, 67]"
    by (simp_all add: foreign_buffer_facts)
  moreover have "take (unat (2 :: u32)) [65, 66, 67 :: u8] = [65, 66]"
    "drop (unat (2 :: u32)) [65, 66, 67 :: u8] = [67]" by simp_all
  ultimately show ?thesis
    using read_peek_discard [of "foreign_buffer [65, 66, 67]" blank_allocator 2] blank_allocator_wf by metis
qed

text \<open>C4: \<open>gsk_buffer_transfer\<close> moves the first bytes of the source to the end of the
  destination and reports how many; both stay intact.  It moves whole fragments by
  relinking and copies only the part of the last one.\<close>

theorem transfer_moves_prefix:
  assumes "gsk_buffer_transfer dst src n a = (rv, dst', src', a')"
    and "buffer_wf dst" "buffer_wf src" "alloc_wf a"
  shows "contents dst' = contents dst @ take (unat n) (contents src) \<and>
    contents src' = drop (unat n) (contents src) \<and>
    unat rv = min (unat n) (length (contents src)) \<and>
    verify_buffer dst' \<and> verify_buffer src'"
  using gsk_buffer_transfer_spec [OF assms] by (simp add: buffer_wf_def)

theorem transfer_moves_prefix_witness:
  "\<exists>rv dst' src' a'. gsk_buffer_transfer (foreign_buffer [1]) (foreign_buffer [2, 3, 4]) 2 blank_allocator
      = (rv, dst', src', a') \<and> contents dst' = [1, 2, 3] \<and> contents src' = [4]"
proof -
  obtain rv dst' src' a' where
    r: "gsk_buffer_transfer (foreign_buffer [1]) (foreign_buffer [2, 3, 4]) 2 blank_allocator = (rv, dst', src', a')"
    by (metis prod_cases4)
  have "buffer_wf (foreign_buffer [1])" "contents (foreign_buffer [1]) = [1]"
    "buffer_wf (foreign_buffer [2, 3, 4])" "contents (foreign_buffer [2, 3, 4]) = [2, 3, 4]"
    by (simp_all add: foreign_buffer_facts)
  moreover have "[1] @ take (unat (2 :: u32)) [2, 3, 4 :: u8] = [1, 2, 3]"
    "drop (unat (2 :: u32)) [2, 3, 4 :: u8] = [4]" by simp_all
  ultimately show ?thesis using r transfer_moves_prefix [OF r] blank_allocator_wf by metis
qed

section \<open>Searching and reading lines\<close>

text \<open>C23: \<open>gsk_buffer_read_line\<close>: without a newline in the buffer it returns NULL and
  changes nothing; otherwise, when the line is shorter than \<open>2 ^ 31 - 1\<close> bytes, it returns the
  bytes before the first newline, terminated by a NUL, and consumes them together with the
  newline, whatever the fragments are.  A longer line aborts.\<close>

theorem read_line_splits:
  assumes "buffer_wf b" "alloc_wf a" "length (contents b) < 4294967296"
  shows "case memchr 10 (contents b) of
      None \<Rightarrow> gsk_buffer_read_line b a = Some (None, b, a)
    | Some i \<Rightarrow>
        if i < 2147483647 then
          (\<exists>b' a'. gsk_buffer_read_line b a = Some (Some (take i (contents b) @ [0]), b', a') \<and>
            contents b' = drop (Suc i) (contents b) \<and> buffer_wf b' \<and> alloc_wf a')
        else gsk_buffer_read_line b a = None"
proof (cases "memchr 10 (contents b)")
  case None
  then have "10 \<notin> set (contents b)" using memchr_None_iff by metis
  with None show ?thesis by (simp add: gsk_buffer_read_line_None)
next
  case (Some i)
  show ?thesis
  proof (cases "i < 2147483647")
    case True
    obtain b' a' where "gsk_buffer_read_line b a = Some (Some (take i (contents b) @ [0]), b', a')"
      "contents b' = drop (Suc i) (contents b)" "buffer_wf b'" "alloc_wf a'"
      using assms(1,2) True Some by (rule gsk_buffer_read_line_Some)
    with Some True show ?thesis by simp
  next
    case False
    moreover have "i < length (contents b)" using Some by (blast dest: memchr_SomeD)
    ultimately show ?thesis using Some assms(3) gsk_buffer_read_line_long [OF Some] by simp
  qed
qed

theorem read_line_splits_witness:
  "\<exists>b' a'. gsk_buffer_read_line (foreign_buffer [104, 105, 10, 120]) blank_allocator
      = Some (Some [104, 105, 0], b', a') \<and> contents b' = [120]"
proof -
  have b: "buffer_wf (foreign_buffer [104, 105, 10, 120])"
    "contents (foreign_buffer [104, 105, 10, 120]) = [104, 105, 10, 120]"
    by (simp_all add: foreign_buffer_facts)
  have "memchr 10 (contents (foreign_buffer [104, 105, 10, 120])) = Some 2" by (simp add: b)
  then show ?thesis
    using read_line_splits [OF b(1) blank_allocator_wf] by (auto simp: b)
qed

text \<open>A string appended to an empty buffer by \<open>gsk_buffer_append_string0\<close> is what
  \<open>gsk_buffer_parse_string0\<close> takes out again, and the buffer is empty afterwards.\<close>

theorem string0_roundtrip:
  assumes "gsk_buffer_append_string0 b s a = (b1, a1)" "buffer_wf b" "alloc_wf a" "contents b = []"
    and "0 \<notin> set s" "length s < 2147483647"
  shows "\<exists>b2 a2. gsk_buffer_parse_string0 b1 a1 = Some (Some (s @ [0]), b2, a2) \<and> contents b2 = []"
proof -
  have len: "unat (of_nat (length s + 1) :: u32) = length s + 1"
    using assms(6) by (intro unat_of_nat_u32) simp
  note spec = gsk_buffer_append_spec [OF assms(1) [unfolded gsk_buffer_append_string0_def] assms(2,3)]
  have b1: "buffer_wf b1" "alloc_wf a1" "contents b1 = s @ [0]"
    using spec(1-3) len assms(4) by (simp_all del: of_nat_add)
  have "memchr 0 (s @ [0]) = Some (length s)"
    using assms(5) by (simp add: memchr_append memchr_None_iff [THEN iffD2])
  then have "memchr 0 (contents b1) = Some (length s)" "length (contents b1) < 2147483648"
    using assms(6) by (simp_all add: b1(3))
  then obtain b2 a2 where "gsk_buffer_parse_string0 b1 a1
      = Some (Some (take (length s) (contents b1) @ [0]), b2, a2)"
    "contents b2 = drop (Suc (length s)) (contents b1)"
    using gsk_buffer_parse_string0_Some [OF b1(1,2), of "length s"] by blast
  then show ?thesis by (simp add: b1(3))
qed

theorem string0_roundtrip_witness:
  "\<exists>b1 a1. gsk_buffer_append_string0 gsk_buffer_construct [104, 105] blank_allocator = (b1, a1) \<and>
     (\<exists>b2 a2. gsk_buffer_parse_string0 b1 a1 = Some (Some [104, 105, 0], b2, a2) \<and> contents b2 = [])"
proof -
  obtain b1 a1 where r: "gsk_buffer_append_string0 gsk_buffer_construct [104, 105] blank_allocator = (b1, a1)"
    by (metis surj_pair)
  show ?thesis using r string0_roundtrip [OF r] by simp
qed

text \<open>C24: \<open>gsk_buffer_index_of\<close> and \<open>gsk_buffer_str_index_of\<close> answer the index of the
  first occurrence in the contents, across fragment boundaries, and -1 when there is none;
  the search string must not be empty.\<close>

theorem index_of_first_occurrence:
  assumes "length (contents b) < 2147483648" "str \<noteq> []"
  shows "gsk_buffer_index_of b c = (case memchr c (contents b) of None \<Rightarrow> -1 | Some i \<Rightarrow> int i) \<and>
    gsk_buffer_str_index_of b str =
      Some (case first_occurrence str (contents b) of None \<Rightarrow> -1 | Some i \<Rightarrow> int i)"
  using gsk_buffer_index_of_spec [OF assms(1)] gsk_buffer_str_index_of_spec [OF assms(2,1)] by blast

theorem index_of_first_occurrence_witness:
  "gsk_buffer_index_of (foreign_buffer [97, 98, 99]) 99 = 2 \<and>
   gsk_buffer_str_index_of (foreign_buffer [97, 98, 99]) [98, 99] = Some 1 \<and>
   gsk_buffer_str_index_of (foreign_buffer [97, 98, 99]) [99, 98] = Some (-1)"
  using index_of_first_occurrence [of "foreign_buffer [97, 98, 99]" "[98, 99]" 99]
    index_of_first_occurrence [of "foreign_buffer [97, 98, 99]" "[99, 98]" 99]
  by (simp add: foreign_buffer_facts)

section \<open>Iterators\<close>

text \<open>Wherever reads, skips and character searches have taken an iterator, it stands at
  the position its \<open>offset\<close> says: what it has left is the contents of the buffer from
  there on.\<close>

theorem iterator_position:
  assumes "iter_reachable b it"
  shows "\<exists>k \<le> length (contents b). iter_rest it = drop k (contents b) \<and> offset it = of_nat k"
  using iter_reachable_inv [OF assms] by blast

theorem iterator_position_witness:
  "\<exists>k \<le> length (contents (foreign_buffer [1, 2, 3])).
     iter_rest (snd (gsk_buffer_iterator_skip (gsk_buffer_iterator_construct (foreign_buffer [1, 2, 3])) 2))
       = drop k (contents (foreign_buffer [1, 2, 3])) \<and>
     offset (snd (gsk_buffer_iterator_skip (gsk_buffer_iterator_construct (foreign_buffer [1, 2, 3])) 2))
       = of_nat k"
  by (rule iterator_position, rule iter_next [OF iter_start], rule step_skip, rule prod.collapse [symmetric])

text \<open>C25: Reading an iterator in chunks of any sizes yields, put together, the bytes of the
  buffer in order; the result does not depend on the chunking.\<close>

theorem iterator_chunks:
  "\<exists>it'. read_chunks iterator_get ns (gsk_buffer_iterator_construct b)
      = Some (take (sum_list (map unat ns)) (contents b), it') \<and>
    iter_rest it' = drop (sum_list (map unat ns)) (contents b)"
  using iterator_source.read_chunks_ok [of "gsk_buffer_iterator_construct b" ns]
  by (auto simp: gsk_buffer_iterator_construct_spec)

text \<open>\<open>gsk_buffer_iterator_find_char\<close> on an exhausted iterator returns -1, which a
  caller that tests the result as a \<open>gboolean\<close> takes for success; with fragments left it
  returns 1 with the iterator at the character, or 0 with the iterator unmoved.\<close>

theorem iterator_find_char_result:
  assumes "gsk_buffer_iterator_find_char it c = (found, it')" "iter_wf it"
  shows "found = (if c \<in> set (iter_rest it) then 1 else if fragment it = [] then -1 else 0) \<and>
    (found \<noteq> 1 \<longrightarrow> it' = it) \<and> (found = 1 \<longrightarrow> iter_rest it' \<noteq> [] \<and> hd (iter_rest it') = c)"
proof (cases "memchr c (iter_rest it)")
  case None
  then have "c \<notin> set (iter_rest it)" using memchr_None_iff by metis
  with None show ?thesis using gsk_buffer_iterator_find_char_spec [OF assms] by simp
next
  case (Some k)
  then have k: "k < length (iter_rest it)" "iter_rest it ! k = c" by (auto dest: memchr_SomeD)
  with Some show ?thesis
    using gsk_buffer_iterator_find_char_spec [OF assms] by (auto simp: hd_drop_conv_nth)
qed

theorem iterator_find_char_result_witness:
  "fst (gsk_buffer_iterator_find_char (gsk_buffer_iterator_construct gsk_buffer_construct) 65) = -1"
proof -
  let ?it = "gsk_buffer_iterator_construct gsk_buffer_construct"
  obtain found it' where r: "gsk_buffer_iterator_find_char ?it 65 = (found, it')" by (metis surj_pair)
  have "iter_rest ?it = []" "iter_wf ?it" by (simp_all add: gsk_buffer_iterator_construct_spec)
  moreover have "fragment ?it = []"
    by (simp add: gsk_buffer_iterator_construct_def gsk_buffer_construct_def)
  ultimately show ?thesis using iterator_find_char_result [OF r] r by simp
qed


section \<open>File descriptors\<close>

text \<open>The pieces that a call offers to the system, and what the call does with the result.\<close>

lemma writev_offer_kept:
  assumes "buffer_wf b" "alloc_wf a" "length (concat iov) < 2147483648" "prefix (concat iov) (contents b)"
    and "\<And>iov. - 1 \<le> fst (sys_writev iov) \<and> fst (sys_writev iov) \<le> int (length (concat iov))"
    and "writev_finish sys_writev b iov a = (r, b', a')"
  shows "contents b = take (nat (fst (sys_writev iov))) (concat iov) @ contents b' \<and> verify_buffer b' \<and>
    r = (if fst (sys_writev iov) < 0 \<and> gsk_errno_is_ignorable (snd (sys_writev iov)) then 0
         else fst (sys_writev iov))"
proof -
  obtain rv errno where sys: "sys_writev iov = (rv, errno)" by (metis surj_pair)
  then have "- 1 \<le> rv" "rv \<le> int (length (concat iov))" using assms(5) [of iov] by simp_all
  note spec = writev_finish_spec [OF assms(6,1,2) sys this assms(4,3)]
  then show ?thesis by (simp add: sys buffer_wf_def)
qed

lemma writev_len_offer:
  fixes b :: gsk_buffer and n :: u32
  defines "iov \<equiv> writev_len_iov (take (writev_len_count (frags b) 0 0 n) (frags b)) n"
  shows "length iov \<le> 16 \<and> prefix (concat iov) (take (unat n) (contents b))"
proof -
  define k where "k = writev_len_count (frags b) 0 0 n"
  have "concat iov = take (unat n) (frags_bytes (take k (frags b)))"
    by (simp add: iov_def k_def writev_len_iov_bytes)
  moreover have "length iov \<le> 16"
    using writev_len_iov_length [of "take k (frags b)" n] writev_len_count_le [of 0 "frags b" 0 n]
    by (simp add: iov_def k_def MAX_FRAGMENTS_TO_WRITE_def)
  ultimately show ?thesis
    using prefix_take_frags [of k "frags b"] unfolding contents_def by (auto simp: prefix_def)
qed

lemma writev_offer:
  fixes b :: gsk_buffer
  defines "iov \<equiv> map frag_data (take MAX_FRAGMENTS_TO_WRITE (frags b))"
  shows "length iov \<le> 16 \<and> prefix (concat iov) (contents b)"
  using prefix_take_frags [of MAX_FRAGMENTS_TO_WRITE "frags b"]
  by (simp add: iov_def contents_def frags_bytes_def MAX_FRAGMENTS_TO_WRITE_def)

text \<open>C5: \<open>gsk_buffer_writev\<close> and \<open>gsk_buffer_writev_len\<close>, on a buffer of less than \<open>2 ^ 31\<close> bytes,
  hand at most 16 pieces that are the beginning of the contents (cut to the byte limit) to
  the \<open>writev\<close> system call and drop exactly what the call accepted: the bytes accepted
  followed by the contents left are the contents before, so nothing is lost or sent twice, on
  partial writes and on errors; an interrupted or would-block call counts as zero bytes.  The
  system call is assumed to return -1 or a number of bytes that it was offered.\<close>

theorem writev_keeps_unsent:
  assumes "buffer_wf b" "alloc_wf a" "length (contents b) < 2147483648"
    and "\<And>iov. - 1 \<le> fst (sys_writev iov) \<and> fst (sys_writev iov) \<le> int (length (concat iov))"
    and "gsk_buffer_writev_len sys_writev b n a = (r, b', a') \<and> limit = unat n \<or>
      gsk_buffer_writev sys_writev b a = (r, b', a') \<and> limit = length (contents b)"
  shows "\<exists>iov. length iov \<le> 16 \<and> prefix (concat iov) (take limit (contents b)) \<and>
    contents b = take (nat (fst (sys_writev iov))) (concat iov) @ contents b' \<and> verify_buffer b' \<and>
    r = (if fst (sys_writev iov) < 0 \<and> gsk_errno_is_ignorable (snd (sys_writev iov)) then 0
         else fst (sys_writev iov))"
proof -
  obtain iov where iov: "writev_finish sys_writev b iov a = (r, b', a')" "length iov \<le> 16"
    "prefix (concat iov) (take limit (contents b))"
    using assms(5) writev_len_offer [of b n] writev_offer [of b]
    by (auto simp: gsk_buffer_writev_len_def gsk_buffer_writev_def Let_def)
  have pre: "prefix (concat iov) (contents b)" using iov(3) by (metis prefix_order.trans take_is_prefix)
  then have "length (concat iov) < 2147483648" using assms(3) prefix_length_le [OF pre] by simp
  from writev_offer_kept [OF assms(1,2) this pre assms(4) iov(1)] iov(2,3) show ?thesis by blast
qed

text \<open>A system call that accepts one byte at a time.\<close>

definition writev_one :: "u8 list list \<Rightarrow> int \<times> int" where
  "writev_one iov = (int (min 1 (length (concat iov))), 0)"

theorem writev_keeps_unsent_witness:
  "\<exists>r b' a' iov. gsk_buffer_writev_len writev_one (foreign_buffer [1, 2, 3]) 2 blank_allocator = (r, b', a') \<and>
     prefix (concat iov) [1, 2] \<and>
     [1, 2, 3] = take (nat (fst (writev_one iov))) (concat iov) @ contents b'"
proof -
  obtain r b' a' where
    r: "gsk_buffer_writev_len writev_one (foreign_buffer [1, 2, 3]) 2 blank_allocator = (r, b', a')"
    by (metis prod_cases3)
  have b: "buffer_wf (foreign_buffer [1, 2, 3])" "contents (foreign_buffer [1, 2, 3]) = [1, 2, 3]"
    by (simp_all add: foreign_buffer_facts)
  have "- 1 \<le> fst (writev_one iov) \<and> fst (writev_one iov) \<le> int (length (concat iov))" for iov
    by (simp add: writev_one_def)
  moreover have "length (contents (foreign_buffer [1, 2, 3])) < 2147483648" by (simp add: b)
  ultimately obtain iov where "prefix (concat iov) (take 2 (contents (foreign_buffer [1, 2, 3])))"
    "contents (foreign_buffer [1, 2, 3]) = take (nat (fst (writev_one iov))) (concat iov) @ contents b'"
    using writev_keeps_unsent [OF b(1) blank_allocator_wf, of writev_one 2 r b' a' 2] r by auto
  moreover have "take 2 (contents (foreign_buffer [1, 2, 3])) = [1, 2]" by (simp add: b)
  ultimately show ?thesis using r unfolding b(2) by metis
qed

end
