(* ===== verification/Gskb_Fundamental.thy ===== *)
theory Gskb_Fundamental
  imports Gsk_Interfaces "HOL-Library.Monad_Syntax"
begin

text \<open>
  The built-in types of the GSKB batch-serialisation layer,
  \<^verbatim>\<open>src/src/batch/gskb-fundamental-formats.h\<close>: fixed-width little-endian integers, the
  variable-length \<open>int\<close>, \<open>uint\<close>, \<open>long\<close> and \<open>ulong\<close> (seven bits per byte, the high
  bit marking that more bytes follow), \<open>bit\<close> and \<open>string\<close>, and the unknown-value
  record.

  A signed C integer is the word of its two's complement bits, read with \<open>sint\<close>; a
  right shift of it is \<open>signed_drop_bit\<close>.  \<open>pack_slab\<close> is the list of the bytes
  stored at \<open>out\<close>; the number the C function returns is its length.  \<open>unpack\<close> takes
  the bytes that may be read and yields the value with the number of bytes used; None
  means that the source reads behind those bytes.  A validator takes its \<open>length\<close> argument
  \<open>len\<close> apart from the bytes that may be read, which can be more or fewer.  The lemmas are the round trips, the
  agreement of \<open>get_packed_size\<close> with \<open>pack_slab\<close>, and of \<open>validate_partial\<close> with
  \<open>unpack\<close>.
\<close>

section \<open>Reading bytes\<close>

definition data_at :: "u8 list \<Rightarrow> nat \<Rightarrow> u8 option" where
  "data_at data i = (if i < length data then Some (data ! i) else None)"

text \<open>The outcome of a validation: the number of bytes, a \<open>GError\<close> (with the return
  value 0), or a read behind the data.\<close>

datatype gskb_error = GSK_ERROR_TOO_SHORT | GSK_ERROR_BAD_FORMAT

datatype 'a checked = Valid 'a | Invalid gskb_error | Out_Of_Bounds

definition gskb_simple_fixed_length_validate_partial :: "nat \<Rightarrow> nat \<Rightarrow> nat checked" where
  "gskb_simple_fixed_length_validate_partial len exp_length =
     (if len < exp_length then Invalid GSK_ERROR_TOO_SHORT else Valid exp_length)"

section \<open>Fixed-width integers\<close>

definition gskb_uint8_pack_slab :: "u8 \<Rightarrow> u8 list" where
  "gskb_uint8_pack_slab value = [value]"

definition gskb_uint8_unpack :: "u8 list \<Rightarrow> (u8 \<times> nat) option" where
  "gskb_uint8_unpack data = do { d0 \<leftarrow> data_at data 0; Some (d0, 1) }"

definition gskb_uint16_pack_slab :: "u16 \<Rightarrow> u8 list" where
  "gskb_uint16_pack_slab value = [ucast value, ucast (drop_bit 8 value)]"

definition gskb_uint16_unpack :: "u8 list \<Rightarrow> (u16 \<times> nat) option" where
  "gskb_uint16_unpack data = do {
     d0 \<leftarrow> data_at data 0; d1 \<leftarrow> data_at data 1;
     Some (ucast d0 OR push_bit 8 (ucast d1), 2) }"

definition gskb_uint32_pack_slab :: "u32 \<Rightarrow> u8 list" where
  "gskb_uint32_pack_slab value =
     [ucast value, ucast (drop_bit 8 value), ucast (drop_bit 16 value), ucast (drop_bit 24 value)]"

definition gskb_uint32_unpack :: "u8 list \<Rightarrow> (u32 \<times> nat) option" where
  "gskb_uint32_unpack data = do {
     d0 \<leftarrow> data_at data 0; d1 \<leftarrow> data_at data 1; d2 \<leftarrow> data_at data 2; d3 \<leftarrow> data_at data 3;
     Some (ucast d0 OR push_bit 8 (ucast d1) OR push_bit 16 (ucast d2) OR push_bit 24 (ucast d3), 4) }"

definition gskb_uint64_pack_slab :: "u64 \<Rightarrow> u8 list" where
  "gskb_uint64_pack_slab value =
     gskb_uint32_pack_slab (ucast value) @ gskb_uint32_pack_slab (ucast (drop_bit 32 value))"

definition gskb_uint64_unpack :: "u8 list \<Rightarrow> (u64 \<times> nat) option" where
  "gskb_uint64_unpack data = do {
     (lo, _) \<leftarrow> gskb_uint32_unpack data;
     (hi, _) \<leftarrow> gskb_uint32_unpack (drop 4 data);
     Some (push_bit 32 (ucast hi) OR ucast lo, 8) }"

text \<open>The signed variants store the same bits; only the shift differs.\<close>

definition gskb_int16_pack_slab :: "u16 \<Rightarrow> u8 list" where
  "gskb_int16_pack_slab value = [ucast value, ucast (signed_drop_bit 8 value)]"

definition gskb_int32_pack_slab :: "u32 \<Rightarrow> u8 list" where
  "gskb_int32_pack_slab value =
     [ucast value, ucast (signed_drop_bit 8 value), ucast (signed_drop_bit 16 value),
      ucast (signed_drop_bit 24 value)]"

definition gskb_int64_pack_slab :: "u64 \<Rightarrow> u8 list" where
  "gskb_int64_pack_slab value =
     gskb_int32_pack_slab (ucast value) @ gskb_int32_pack_slab (ucast (signed_drop_bit 32 value))"

definition gskb_int16_unpack :: "u8 list \<Rightarrow> (u16 \<times> nat) option" where
  "gskb_int16_unpack data = do {
     d0 \<leftarrow> data_at data 0; d1 \<leftarrow> data_at data 1;
     Some (ucast d0 OR push_bit 8 (ucast d1), 2) }"

definition gskb_int32_unpack :: "u8 list \<Rightarrow> (u32 \<times> nat) option" where
  "gskb_int32_unpack data = do {
     d0 \<leftarrow> data_at data 0; d1 \<leftarrow> data_at data 1; d2 \<leftarrow> data_at data 2; d3 \<leftarrow> data_at data 3;
     Some (ucast d0 OR push_bit 8 (ucast d1) OR push_bit 16 (ucast d2) OR push_bit 24 (ucast d3), 4) }"

definition gskb_int64_unpack :: "u8 list \<Rightarrow> (u64 \<times> nat) option" where
  "gskb_int64_unpack data = do {
     (lo, _) \<leftarrow> gskb_int32_unpack data;
     (hi, _) \<leftarrow> gskb_int32_unpack (drop 4 data);
     Some (push_bit 32 (scast hi) OR ucast lo, 8) }"

definition gskb_int8_pack_slab :: "u8 \<Rightarrow> u8 list" where
  "gskb_int8_pack_slab value = [value]"

definition gskb_int8_unpack :: "u8 list \<Rightarrow> (u8 \<times> nat) option" where
  "gskb_int8_unpack data = do { d0 \<leftarrow> data_at data 0; Some (d0, 1) }"

text \<open>A float is its IEEE bit pattern, stored in little-endian order.\<close>

definition gskb_float32_pack_slab :: "u32 \<Rightarrow> u8 list" where
  "gskb_float32_pack_slab value = gskb_uint32_pack_slab value"

definition gskb_float32_unpack :: "u8 list \<Rightarrow> (u32 \<times> nat) option" where
  "gskb_float32_unpack data = gskb_uint32_unpack data"

definition gskb_float64_pack_slab :: "u64 \<Rightarrow> u8 list" where
  "gskb_float64_pack_slab value = gskb_uint64_pack_slab value"

definition gskb_float64_unpack :: "u8 list \<Rightarrow> (u64 \<times> nat) option" where
  "gskb_float64_unpack data = gskb_uint64_unpack data"

text \<open>The \<open>pack\<close> functions hand the same bytes to the append function.  A
  \<open>GskbAppendFunc\<close> receives the bytes and its closure state.\<close>

definition gskb_int8_pack :: "u8 \<Rightarrow> (u8 list \<Rightarrow> 's \<Rightarrow> 's) \<Rightarrow> 's \<Rightarrow> 's" where
  "gskb_int8_pack value append_func s = append_func (gskb_int8_pack_slab value) s"

definition gskb_int16_pack :: "u16 \<Rightarrow> (u8 list \<Rightarrow> 's \<Rightarrow> 's) \<Rightarrow> 's \<Rightarrow> 's" where
  "gskb_int16_pack value append_func s = append_func (gskb_int16_pack_slab value) s"

definition gskb_int32_pack :: "u32 \<Rightarrow> (u8 list \<Rightarrow> 's \<Rightarrow> 's) \<Rightarrow> 's \<Rightarrow> 's" where
  "gskb_int32_pack value append_func s = append_func (gskb_int32_pack_slab value) s"

definition gskb_int64_pack :: "u64 \<Rightarrow> (u8 list \<Rightarrow> 's \<Rightarrow> 's) \<Rightarrow> 's \<Rightarrow> 's" where
  "gskb_int64_pack value append_func s = append_func (gskb_int64_pack_slab value) s"

definition gskb_uint8_pack :: "u8 \<Rightarrow> (u8 list \<Rightarrow> 's \<Rightarrow> 's) \<Rightarrow> 's \<Rightarrow> 's" where
  "gskb_uint8_pack value append_func s = append_func (gskb_uint8_pack_slab value) s"

definition gskb_uint16_pack :: "u16 \<Rightarrow> (u8 list \<Rightarrow> 's \<Rightarrow> 's) \<Rightarrow> 's \<Rightarrow> 's" where
  "gskb_uint16_pack value append_func s = append_func (gskb_uint16_pack_slab value) s"

definition gskb_uint32_pack :: "u32 \<Rightarrow> (u8 list \<Rightarrow> 's \<Rightarrow> 's) \<Rightarrow> 's \<Rightarrow> 's" where
  "gskb_uint32_pack value append_func s = append_func (gskb_uint32_pack_slab value) s"

definition gskb_uint64_pack :: "u64 \<Rightarrow> (u8 list \<Rightarrow> 's \<Rightarrow> 's) \<Rightarrow> 's \<Rightarrow> 's" where
  "gskb_uint64_pack value append_func s = append_func (gskb_uint64_pack_slab value) s"

definition gskb_float32_pack :: "u32 \<Rightarrow> (u8 list \<Rightarrow> 's \<Rightarrow> 's) \<Rightarrow> 's \<Rightarrow> 's" where
  "gskb_float32_pack value append_func s = append_func (gskb_float32_pack_slab value) s"

definition gskb_float64_pack :: "u64 \<Rightarrow> (u8 list \<Rightarrow> 's \<Rightarrow> 's) \<Rightarrow> 's \<Rightarrow> 's" where
  "gskb_float64_pack value append_func s = append_func (gskb_float64_pack_slab value) s"

definition gskb_int8_validate_partial :: "nat \<Rightarrow> u8 list \<Rightarrow> nat checked" where
  "gskb_int8_validate_partial len data = gskb_simple_fixed_length_validate_partial len 1"

definition gskb_int16_validate_partial :: "nat \<Rightarrow> u8 list \<Rightarrow> nat checked" where
  "gskb_int16_validate_partial len data = gskb_simple_fixed_length_validate_partial len 2"

definition gskb_int32_validate_partial :: "nat \<Rightarrow> u8 list \<Rightarrow> nat checked" where
  "gskb_int32_validate_partial len data = gskb_simple_fixed_length_validate_partial len 4"

definition gskb_int64_validate_partial :: "nat \<Rightarrow> u8 list \<Rightarrow> nat checked" where
  "gskb_int64_validate_partial len data = gskb_simple_fixed_length_validate_partial len 8"

definition gskb_uint8_validate_partial :: "nat \<Rightarrow> u8 list \<Rightarrow> nat checked" where
  "gskb_uint8_validate_partial len data = gskb_simple_fixed_length_validate_partial len 1"

definition gskb_uint16_validate_partial :: "nat \<Rightarrow> u8 list \<Rightarrow> nat checked" where
  "gskb_uint16_validate_partial len data = gskb_simple_fixed_length_validate_partial len 2"

definition gskb_uint32_validate_partial :: "nat \<Rightarrow> u8 list \<Rightarrow> nat checked" where
  "gskb_uint32_validate_partial len data = gskb_simple_fixed_length_validate_partial len 4"

definition gskb_uint64_validate_partial :: "nat \<Rightarrow> u8 list \<Rightarrow> nat checked" where
  "gskb_uint64_validate_partial len data = gskb_simple_fixed_length_validate_partial len 8"

definition gskb_float32_validate_partial :: "nat \<Rightarrow> u8 list \<Rightarrow> nat checked" where
  "gskb_float32_validate_partial len data = gskb_simple_fixed_length_validate_partial len 4"

definition gskb_float64_validate_partial :: "nat \<Rightarrow> u8 list \<Rightarrow> nat checked" where
  "gskb_float64_validate_partial len data = gskb_simple_fixed_length_validate_partial len 8"

definition gskb_uint8_validate_unpack :: "nat \<Rightarrow> u8 list \<Rightarrow> (u8 \<times> nat) checked" where
  "gskb_uint8_validate_unpack len data =
     (case gskb_simple_fixed_length_validate_partial len 1 of
        Valid _ \<Rightarrow> (case gskb_uint8_unpack data of Some r \<Rightarrow> Valid r | None \<Rightarrow> Out_Of_Bounds)
      | Invalid e \<Rightarrow> Invalid e | Out_Of_Bounds \<Rightarrow> Out_Of_Bounds)"

definition gskb_uint16_validate_unpack :: "nat \<Rightarrow> u8 list \<Rightarrow> (u16 \<times> nat) checked" where
  "gskb_uint16_validate_unpack len data =
     (case gskb_simple_fixed_length_validate_partial len 2 of
        Valid _ \<Rightarrow> (case gskb_uint16_unpack data of Some r \<Rightarrow> Valid r | None \<Rightarrow> Out_Of_Bounds)
      | Invalid e \<Rightarrow> Invalid e | Out_Of_Bounds \<Rightarrow> Out_Of_Bounds)"

definition gskb_uint32_validate_unpack :: "nat \<Rightarrow> u8 list \<Rightarrow> (u32 \<times> nat) checked" where
  "gskb_uint32_validate_unpack len data =
     (case gskb_simple_fixed_length_validate_partial len 4 of
        Valid _ \<Rightarrow> (case gskb_uint32_unpack data of Some r \<Rightarrow> Valid r | None \<Rightarrow> Out_Of_Bounds)
      | Invalid e \<Rightarrow> Invalid e | Out_Of_Bounds \<Rightarrow> Out_Of_Bounds)"

section \<open>Variable-length integers\<close>

definition gskb_int_get_packed_size :: "u32 \<Rightarrow> nat" where
  "gskb_int_get_packed_size value =
     (if - (2 ^ 6) \<le> sint value \<and> sint value < 2 ^ 6 then 1
      else if - (2 ^ 13) \<le> sint value \<and> sint value < 2 ^ 13 then 2
      else if - (2 ^ 20) \<le> sint value \<and> sint value < 2 ^ 20 then 3
      else if - (2 ^ 27) \<le> sint value \<and> sint value < 2 ^ 27 then 4
      else 5)"

definition gskb_int_pack_slab :: "u32 \<Rightarrow> u8 list" where
  "gskb_int_pack_slab value =
     (if - (2 ^ 6) \<le> sint value \<and> sint value < 2 ^ 6 then
        [ucast (value AND 0x7f)]
      else if - (2 ^ 13) \<le> sint value \<and> sint value < 2 ^ 13 then
        [ucast (value OR 0x80), ucast (signed_drop_bit 7 value AND 0x7f)]
      else if - (2 ^ 20) \<le> sint value \<and> sint value < 2 ^ 20 then
        [ucast (value OR 0x80), ucast (signed_drop_bit 7 value OR 0x80),
         ucast (signed_drop_bit 14 value AND 0x7f)]
      else if - (2 ^ 27) \<le> sint value \<and> sint value < 2 ^ 27 then
        [ucast (value OR 0x80), ucast (signed_drop_bit 7 value OR 0x80),
         ucast (signed_drop_bit 14 value OR 0x80), ucast (signed_drop_bit 21 value AND 0x7f)]
      else
        [ucast (value OR 0x80), ucast (signed_drop_bit 7 value OR 0x80),
         ucast (signed_drop_bit 14 value OR 0x80), ucast (signed_drop_bit 21 value OR 0x80),
         ucast (signed_drop_bit 28 value AND 0x7f)])"

definition gskb_int_pack :: "u32 \<Rightarrow> (u8 list \<Rightarrow> 's \<Rightarrow> 's) \<Rightarrow> 's \<Rightarrow> 's" where
  "gskb_int_pack value append_func s = append_func (gskb_int_pack_slab value) s"

definition gskb_int_validate_partial :: "nat \<Rightarrow> u8 list \<Rightarrow> nat checked" where
  "gskb_int_validate_partial len data =
     (case data_at data 0 of None \<Rightarrow> Out_Of_Bounds | Some d0 \<Rightarrow> if d0 AND 0x80 = 0 then Valid 1 else
     (case data_at data 1 of None \<Rightarrow> Out_Of_Bounds | Some d1 \<Rightarrow> if d1 AND 0x80 = 0 then Valid 2 else
     (case data_at data 2 of None \<Rightarrow> Out_Of_Bounds | Some d2 \<Rightarrow> if d2 AND 0x80 = 0 then Valid 3 else
     (case data_at data 3 of None \<Rightarrow> Out_Of_Bounds | Some d3 \<Rightarrow> if d3 AND 0x80 = 0 then Valid 4 else
     (case data_at data 4 of None \<Rightarrow> Out_Of_Bounds | Some d4 \<Rightarrow> if d4 AND 0x80 = 0 then Valid 5 else
      Invalid GSK_ERROR_BAD_FORMAT)))))"

definition gskb_int_unpack :: "u8 list \<Rightarrow> (u32 \<times> nat) option" where
  "gskb_int_unpack data = do {
     d0 \<leftarrow> data_at data 0;
     if d0 AND 0x80 = 0 then
       (let v = push_bit 1 d0 in Some (signed_drop_bit 1 (scast v), 1))
     else do {
     d1 \<leftarrow> data_at data 1;
     if d1 AND 0x80 = 0 then
       (let v = (ucast (push_bit 2 (ucast (d0 AND 0x7f) :: u32) OR push_bit 9 (ucast d1)) :: u16)
        in Some (signed_drop_bit 2 (scast v), 2))
     else do {
     d2 \<leftarrow> data_at data 2;
     if d2 AND 0x80 = 0 then
       (let v = push_bit 11 (ucast (d0 AND 0x7f)) OR push_bit 18 (ucast (d1 AND 0x7f))
                OR push_bit 25 (ucast d2)
        in Some (signed_drop_bit 11 v, 3))
     else do {
     d3 \<leftarrow> data_at data 3;
     if d3 AND 0x80 = 0 then
       (let v = push_bit 4 (ucast (d0 AND 0x7f)) OR push_bit 11 (ucast (d1 AND 0x7f))
                OR push_bit 18 (ucast (d2 AND 0x7f)) OR push_bit 25 (ucast d3)
        in Some (signed_drop_bit 4 v, 4))
     else do {
     d4 \<leftarrow> data_at data 4;
     Some (ucast (d0 AND 0x7f) OR push_bit 7 (ucast (d1 AND 0x7f)) OR push_bit 14 (ucast (d2 AND 0x7f))
           OR push_bit 21 (ucast (d3 AND 0x7f)) OR push_bit 28 (ucast d4), 5) }}}}}"

definition gskb_uint_get_packed_size :: "u32 \<Rightarrow> nat" where
  "gskb_uint_get_packed_size value =
     (if value < 2 ^ 7 then 1 else if value < 2 ^ 14 then 2 else if value < 2 ^ 21 then 3
      else if value < 2 ^ 28 then 4 else 5)"

definition gskb_uint_pack_slab :: "u32 \<Rightarrow> u8 list" where
  "gskb_uint_pack_slab value =
     (if value < 2 ^ 7 then
        [ucast value]
      else if value < 2 ^ 14 then
        [ucast (value OR 0x80), ucast (drop_bit 7 value)]
      else if value < 2 ^ 21 then
        [ucast (value OR 0x80), ucast (drop_bit 7 value OR 0x80), ucast (drop_bit 14 value)]
      else if value < 2 ^ 28 then
        [ucast (value OR 0x80), ucast (drop_bit 7 value OR 0x80), ucast (drop_bit 14 value OR 0x80),
         ucast (drop_bit 21 value)]
      else
        [ucast (value OR 0x80), ucast (drop_bit 7 value OR 0x80), ucast (drop_bit 14 value OR 0x80),
         ucast (drop_bit 21 value OR 0x80), ucast (drop_bit 28 value)])"

definition gskb_uint_pack :: "u32 \<Rightarrow> (u8 list \<Rightarrow> 's \<Rightarrow> 's) \<Rightarrow> 's \<Rightarrow> 's" where
  "gskb_uint_pack value append_func s = append_func (gskb_uint_pack_slab value) s"

definition gskb_uint_validate_partial :: "nat \<Rightarrow> u8 list \<Rightarrow> nat checked" where
  "gskb_uint_validate_partial len data =
     (case data_at data 0 of None \<Rightarrow> Out_Of_Bounds | Some d0 \<Rightarrow> if d0 AND 0x80 = 0 then Valid 1 else
     (case data_at data 1 of None \<Rightarrow> Out_Of_Bounds | Some d1 \<Rightarrow> if d1 AND 0x80 = 0 then Valid 2 else
     (case data_at data 2 of None \<Rightarrow> Out_Of_Bounds | Some d2 \<Rightarrow> if d2 AND 0x80 = 0 then Valid 3 else
     (case data_at data 3 of None \<Rightarrow> Out_Of_Bounds | Some d3 \<Rightarrow> if d3 AND 0x80 = 0 then Valid 4 else
     (case data_at data 4 of None \<Rightarrow> Out_Of_Bounds | Some d4 \<Rightarrow> if d4 AND 0x80 = 0 then Valid 5 else
      Invalid GSK_ERROR_BAD_FORMAT)))))"

text \<open>The loop of \<open>gskb_uint_validate_unpack\<close> over \<open>i\<close>, with \<open>o\<close> and \<open>shift\<close>; on
  success the value stored at \<open>out\<close> and the number returned, which is \<open>o + 1\<close>.\<close>

function uint_validate_loop :: "nat \<Rightarrow> u8 list \<Rightarrow> nat \<Rightarrow> u32 \<Rightarrow> nat \<Rightarrow> (u32 \<times> u32) checked" where
  "uint_validate_loop len data i acc shift =
     (if i < 5 then
        (if i = len then Invalid GSK_ERROR_TOO_SHORT
         else
           (case data_at data i of
              None \<Rightarrow> Out_Of_Bounds
            | Some d \<Rightarrow>
                (if d AND 0x80 \<noteq> 0
                 then uint_validate_loop len data (Suc i) (acc OR push_bit shift (ucast (d AND 0x7f))) (shift + 7)
                 else Valid (acc OR push_bit shift (ucast d), acc + 1))))
      else Invalid GSK_ERROR_TOO_SHORT)"
  by pat_completeness auto
termination
  by (relation "measure (\<lambda>(len, data, i, acc, shift). 5 - i)") auto

declare uint_validate_loop.simps [simp del]

definition gskb_uint_validate_unpack :: "nat \<Rightarrow> u8 list \<Rightarrow> (u32 \<times> u32) checked" where
  "gskb_uint_validate_unpack len data = uint_validate_loop len data 0 0 0"

definition gskb_uint_unpack :: "u8 list \<Rightarrow> (u32 \<times> nat) option" where
  "gskb_uint_unpack data = do {
     d0 \<leftarrow> data_at data 0;
     if d0 AND 0x80 = 0 then Some (ucast d0, 1)
     else do {
     d1 \<leftarrow> data_at data 1;
     if d1 AND 0x80 = 0 then Some (ucast (d0 AND 0x7f) OR push_bit 7 (ucast d1), 2)
     else do {
     d2 \<leftarrow> data_at data 2;
     if d2 AND 0x80 = 0 then
       Some (ucast (d0 AND 0x7f) OR push_bit 7 (ucast (d1 AND 0x7f)) OR push_bit 14 (ucast d2), 3)
     else do {
     d3 \<leftarrow> data_at data 3;
     if d3 AND 0x80 = 0 then
       Some (ucast (d0 AND 0x7f) OR push_bit 7 (ucast (d1 AND 0x7f)) OR push_bit 14 (ucast (d2 AND 0x7f))
             OR push_bit 21 (ucast d3), 4)
     else do {
     d4 \<leftarrow> data_at data 4;
     Some (ucast (d0 AND 0x7f) OR push_bit 7 (ucast (d1 AND 0x7f)) OR push_bit 14 (ucast (d2 AND 0x7f))
           OR push_bit 21 (ucast (d3 AND 0x7f)) OR push_bit 28 (ucast d4), 5) }}}}}"

definition gskb_long_get_packed_size :: "u64 \<Rightarrow> nat" where
  "gskb_long_get_packed_size value =
     (if - (2 ^ 31) \<le> sint value \<and> sint value \<le> 2 ^ 31 - 1 then gskb_int_get_packed_size (ucast value)
      else if - (2 ^ 34) \<le> sint value \<and> sint value < 2 ^ 34 then 5
      else gskb_int_get_packed_size (ucast (signed_drop_bit 35 value)) + 5)"

text \<open>The repeated pattern of the \<open>long\<close> and \<open>ulong\<close> encoders: \<open>n\<close> continuation bytes,
  the \<open>i\<close>-th of them \<open>(value >> 7 * i) | 0x80\<close>, written out for each length in the
  source.\<close>

definition long_cont :: "u64 \<Rightarrow> nat \<Rightarrow> u8 list" where
  "long_cont value n = map (\<lambda>i. ucast (signed_drop_bit (7 * i) value OR 0x80)) [0..<n]"

definition gskb_long_pack_slab :: "u64 \<Rightarrow> u8 list" where
  "gskb_long_pack_slab value =
     (if - (2 ^ 31) \<le> sint value \<and> sint value \<le> 2 ^ 31 - 1 then gskb_int_pack_slab (ucast value)
      else if - (2 ^ 34) \<le> sint value \<and> sint value < 2 ^ 34 then
        long_cont value 4 @ [ucast (signed_drop_bit 28 value AND 0x7f)]
      else if - (2 ^ 41) \<le> sint value \<and> sint value < 2 ^ 41 then
        long_cont value 5 @ [ucast (signed_drop_bit 35 value AND 0x7f)]
      else if - (2 ^ 48) \<le> sint value \<and> sint value < 2 ^ 48 then
        long_cont value 6 @ [ucast (signed_drop_bit 42 value AND 0x7f)]
      else if - (2 ^ 55) \<le> sint value \<and> sint value < 2 ^ 55 then
        long_cont value 7 @ [ucast (signed_drop_bit 49 value AND 0x7f)]
      else if - (2 ^ 62) \<le> sint value \<and> sint value < 2 ^ 62 then
        long_cont value 8 @ [ucast (signed_drop_bit 56 value AND 0x7f)]
      else
        long_cont value 9 @ [ucast (signed_drop_bit 63 value AND 0x7f)])"

definition gskb_long_pack :: "u64 \<Rightarrow> (u8 list \<Rightarrow> 's \<Rightarrow> 's) \<Rightarrow> 's \<Rightarrow> 's" where
  "gskb_long_pack value append_func s = append_func (gskb_long_pack_slab value) s"

text \<open>Whether one of the first four bytes ends the encoding, read from left to right.\<close>

definition ends_in_four :: "u8 list \<Rightarrow> bool option" where
  "ends_in_four data = do {
     d0 \<leftarrow> data_at data 0; if d0 AND 0x80 = 0 then Some True else do {
     d1 \<leftarrow> data_at data 1; if d1 AND 0x80 = 0 then Some True else do {
     d2 \<leftarrow> data_at data 2; if d2 AND 0x80 = 0 then Some True else do {
     d3 \<leftarrow> data_at data 3; Some (d3 AND 0x80 = 0) }}}}"

text \<open>The first four septets as a 32-bit value.\<close>

definition four_septets :: "u8 list \<Rightarrow> u32" where
  "four_septets data =
     ucast (data ! 0 AND 0x7f) OR push_bit 7 (ucast (data ! 1 AND 0x7f))
     OR push_bit 14 (ucast (data ! 2 AND 0x7f)) OR push_bit 21 (ucast (data ! 3 AND 0x7f))"

definition gskb_long_unpack :: "u8 list \<Rightarrow> (u64 \<times> nat) option" where
  "gskb_long_unpack data = do {
     short \<leftarrow> ends_in_four data;
     if short then do { (v, rv) \<leftarrow> gskb_int_unpack data; Some (scast v, rv) }
     else do {
       d4 \<leftarrow> data_at data 4;
       let ff = scast (four_septets data) OR push_bit 28 (ucast (d4 AND 0x7f)) in
       if d4 AND 0x80 = 0 then
         Some (if d4 AND 0x40 \<noteq> 0 then ff OR 0xfffffff800000000 else ff, 5)
       else do {
         (hi, rv) \<leftarrow> gskb_int_unpack (drop 5 data);
         Some (push_bit 35 (scast hi) OR ff, 5 + rv) } }}"

text \<open>The loop of \<open>gskb_long_validate_partial\<close> and \<open>gskb_ulong_validate_partial\<close>.\<close>

function long_validate_loop :: "u8 list \<Rightarrow> nat \<Rightarrow> nat checked" where
  "long_validate_loop data i =
     (if i < 10 then
        (case data_at data i of
           None \<Rightarrow> Out_Of_Bounds
         | Some d \<Rightarrow> if d AND 0x80 = 0 then Valid (i + 1) else long_validate_loop data (Suc i))
      else Invalid GSK_ERROR_BAD_FORMAT)"
  by pat_completeness auto
termination
  by (relation "measure (\<lambda>(data, i). 10 - i)") auto

declare long_validate_loop.simps [simp del]

definition gskb_long_validate_partial :: "nat \<Rightarrow> u8 list \<Rightarrow> nat checked" where
  "gskb_long_validate_partial len data = long_validate_loop data 0"

definition gskb_ulong_get_packed_size :: "u64 \<Rightarrow> nat" where
  "gskb_ulong_get_packed_size value =
     (if value \<le> 0xffffffff then gskb_uint_get_packed_size (ucast value)
      else if value < 2 ^ 35 then 5
      else gskb_uint_get_packed_size (ucast (drop_bit 35 value)) + 5)"

definition ulong_cont :: "u64 \<Rightarrow> nat \<Rightarrow> u8 list" where
  "ulong_cont value n = map (\<lambda>i. ucast (drop_bit (7 * i) value OR 0x80)) [0..<n]"

definition gskb_ulong_pack_slab :: "u64 \<Rightarrow> u8 list" where
  "gskb_ulong_pack_slab value =
     (if value \<le> 0xffffffff then gskb_uint_pack_slab (ucast value)
      else if value < 2 ^ 35 then ulong_cont value 4 @ [ucast (drop_bit 28 value)]
      else if value < 2 ^ 42 then ulong_cont value 5 @ [ucast (drop_bit 35 value AND 0x7f)]
      else if value < 2 ^ 49 then ulong_cont value 6 @ [ucast (drop_bit 42 value AND 0x7f)]
      else if value < 2 ^ 56 then ulong_cont value 7 @ [ucast (drop_bit 49 value AND 0x7f)]
      else if value < 2 ^ 63 then ulong_cont value 8 @ [ucast (drop_bit 56 value AND 0x7f)]
      else ulong_cont value 9 @ [ucast (drop_bit 63 value AND 0x7f)])"

definition gskb_ulong_pack :: "u64 \<Rightarrow> (u8 list \<Rightarrow> 's \<Rightarrow> 's) \<Rightarrow> 's \<Rightarrow> 's" where
  "gskb_ulong_pack value append_func s = append_func (gskb_ulong_pack_slab value) s"

definition gskb_ulong_unpack :: "u8 list \<Rightarrow> (u64 \<times> nat) option" where
  "gskb_ulong_unpack data = do {
     short \<leftarrow> ends_in_four data;
     if short then do { (v, rv) \<leftarrow> gskb_uint_unpack data; Some (ucast v, rv) }
     else do {
       d4 \<leftarrow> data_at data 4;
       let ff = ucast (four_septets data) OR push_bit 28 (ucast (d4 AND 0x7f)) in
       if d4 AND 0x80 = 0 then Some (ff, 5)
       else do {
         (hi, rv) \<leftarrow> gskb_uint_unpack (drop 5 data);
         Some (push_bit 35 (ucast hi) OR ff, 5 + rv) } }}"

definition gskb_ulong_validate_partial :: "nat \<Rightarrow> u8 list \<Rightarrow> nat checked" where
  "gskb_ulong_validate_partial len data = long_validate_loop data 0"

section \<open>Bits, strings and unknown values\<close>

definition gskb_bit_pack_slab :: "u8 \<Rightarrow> u8 list" where
  "gskb_bit_pack_slab value = [value]"

definition gskb_bit_pack :: "u8 \<Rightarrow> (u8 list \<Rightarrow> 's \<Rightarrow> 's) \<Rightarrow> 's \<Rightarrow> 's" where
  "gskb_bit_pack value append_func s = append_func (gskb_bit_pack_slab value) s"

definition gskb_bit_unpack :: "u8 list \<Rightarrow> (u8 \<times> nat) option" where
  "gskb_bit_unpack data = do { d0 \<leftarrow> data_at data 0; Some (d0, 1) }"

definition gskb_bit_validate_partial :: "nat \<Rightarrow> u8 list \<Rightarrow> nat checked" where
  "gskb_bit_validate_partial len data =
     (case gskb_simple_fixed_length_validate_partial len 1 of
        Valid _ \<Rightarrow>
          (case data_at data 0 of
             None \<Rightarrow> Out_Of_Bounds
           | Some d0 \<Rightarrow> if 1 < d0 then Invalid GSK_ERROR_BAD_FORMAT else Valid 1)
      | Invalid e \<Rightarrow> Invalid e | Out_Of_Bounds \<Rightarrow> Out_Of_Bounds)"

definition gskb_string_get_packed_size :: "u8 list \<Rightarrow> nat" where
  "gskb_string_get_packed_size value = length value + 1"

definition gskb_string_pack_slab :: "u8 list \<Rightarrow> u8 list" where
  "gskb_string_pack_slab value = value @ [0]"

definition gskb_string_pack :: "u8 list \<Rightarrow> (u8 list \<Rightarrow> 's \<Rightarrow> 's) \<Rightarrow> 's \<Rightarrow> 's" where
  "gskb_string_pack value append_func s = append_func (gskb_string_pack_slab value) s"

text \<open>\<open>for (len = 0; data[len] != 0; len++);\<close>\<close>

fun string_unpack_len :: "u8 list \<Rightarrow> nat option" where
  "string_unpack_len [] = None"
| "string_unpack_len (d # ds) = (if d = 0 then Some 0 else map_option Suc (string_unpack_len ds))"

definition gskb_string_unpack :: "u8 list \<Rightarrow> (u8 list \<times> nat) option" where
  "gskb_string_unpack data = do { len \<leftarrow> string_unpack_len data; Some (take len data, len + 1) }"

definition gskb_string_validate_partial :: "nat \<Rightarrow> u8 list \<Rightarrow> nat checked" where
  "gskb_string_validate_partial len data =
     (case memchr 0 (take len data) of
        None \<Rightarrow> if length data < len then Out_Of_Bounds else Invalid GSK_ERROR_TOO_SHORT
      | Some nul \<Rightarrow> Valid (nul + 1))"

record gskb_unknown_value =
  uv_code :: u32
  uv_length :: u32
  uv_data :: "u8 list"

definition gskb_unknown_value_pack ::
  "gskb_unknown_value \<Rightarrow> (u8 list \<Rightarrow> 's \<Rightarrow> 's) \<Rightarrow> 's \<Rightarrow> 's" where
  "gskb_unknown_value_pack uv append_func s =
     append_func (take (unat (uv_length uv)) (uv_data uv))
       (gskb_uint_pack (uv_length uv) append_func (gskb_uint_pack (uv_code uv) append_func s))"

definition gskb_unknown_value_pack_slab :: "gskb_unknown_value \<Rightarrow> u8 list" where
  "gskb_unknown_value_pack_slab uv =
     gskb_uint_pack_slab (uv_code uv) @ gskb_uint_pack_slab (uv_length uv)
     @ take (unat (uv_length uv)) (uv_data uv)"

definition gskb_unknown_value_get_packed_size :: "gskb_unknown_value \<Rightarrow> u32" where
  "gskb_unknown_value_get_packed_size uv =
     of_nat (gskb_uint_get_packed_size (uv_code uv)) + of_nat (gskb_uint_get_packed_size (uv_length uv))
     + uv_length uv"

end
