(* ===== verification/Gskb_Roundtrip.thy ===== *)
theory Gskb_Roundtrip
  imports Gskb_Fundamental Gsk_Buffer
begin

text \<open>
  The encoders and decoders of \<^verbatim>\<open>src/src/batch/gskb-fundamental-formats.h\<close> against each
  other: every decoder gives back the value its encoder packed, whatever follows in the
  data, together with the size \<open>get_packed_size\<close> announces.  The bit-level facts are
  about the septets (seven-bit groups, least significant first) of a word: the encoder's
  bytes are the septets of the value with the continuation bit on all but the last, and a
  word is the join of its septets.
\<close>

section \<open>Septets\<close>

named_theorems septet_simps \<open>the bytes of variable-length integers\<close>

lemma bit_0x80_int [simp]: "bit (0x80 :: int) n \<longleftrightarrow> n = 7"
proof -
  have "(0x80 :: int) = push_bit 7 1" by (simp add: push_bit_eq_mult)
  then have "bit (0x80 :: int) n = bit (push_bit 7 1 :: int) n" by (rule arg_cong)
  also have "\<dots> \<longleftrightarrow> n = 7" by (auto simp only: bit_push_bit_iff bit_1_iff possible_bit_int)
  finally show ?thesis .
qed

lemma bit_0x7f_int [simp]: "bit (0x7f :: int) n \<longleftrightarrow> n < 7"
proof -
  have "(0x7f :: int) = mask 7" by (simp add: mask_eq_exp_minus_1)
  then have "bit (0x7f :: int) n = bit (mask 7 :: int) n" by (rule arg_cong)
  also have "\<dots> \<longleftrightarrow> n < 7" by (auto simp only: bit_mask_iff possible_bit_int)
  finally show ?thesis .
qed

lemma word_less_bit:
  assumes "(v :: 'a::len word) < 2 ^ k" "bit v n"
  shows "n < k"
proof (rule ccontr)
  assume "\<not> n < k"
  then have k: "k < LENGTH('a)" using assms(2) bit_imp_le_length by fastforce
  then have "unat v < 2 ^ k" using assms(1) by (simp add: word_less_nat_alt unat_exp)
  then have "take_bit k (unat v) = unat v" by (rule take_bit_nat_eq_self)
  then have "bit (unat v) n \<Longrightarrow> n < k" by (metis bit_take_bit_iff)
  moreover have "bit (unat v) n" using assms(2) by (simp add: bit_unsigned_iff)
  ultimately show False using \<open>\<not> n < k\<close> by simp
qed

text \<open>The bits of a small signed value from the sign bit of its range on.\<close>

lemma sint_bits:
  fixes v :: "'a::len word"
  assumes "- (2 ^ k) \<le> sint v" "sint v < 2 ^ k" "k \<le> n" "n < LENGTH('a)"
  shows "bit v n = bit v k"
proof -
  have eq: "signed_take_bit k (sint v) = sint v"
    using assms(1,2) by (simp add: signed_take_bit_int_eq_self)
  have "bit (sint v) n = bit (signed_take_bit k (sint v)) n" by (simp only: eq)
  also have "\<dots> = bit (sint v) k" using assms(3) by (simp add: bit_signed_take_bit_iff min_def)
  finally show ?thesis using assms(3,4) by (simp add: bit_sint_iff min_def split: if_splits)
qed

lemma and_0x80 [septet_simps]: "(d :: u8) AND 0x80 = 0 \<longleftrightarrow> \<not> bit d 7"
proof
  assume "d AND 0x80 = 0"
  then have "bit (d AND 0x80) 7 = bit (0 :: u8) 7" by simp
  then show "\<not> bit d 7" by (simp add: bit_and_iff)
next
  assume "\<not> bit d 7"
  then show "d AND 0x80 = 0"
    by (intro bit_word_eqI) (auto simp: bit_and_iff)
qed

lemma bit_push_drop: "bit (push_bit k (drop_bit k v)) n \<longleftrightarrow> k \<le> n \<and> bit (v :: 'a::len word) n"
  by (auto simp: bit_simps dest: bit_imp_le_length)

lemma bit_push_take_drop:
  "bit (push_bit k (take_bit j (drop_bit k v))) n \<longleftrightarrow> k \<le> n \<and> n < k + j \<and> bit (v :: 'a::len word) n"
  by (auto simp: bit_simps dest: bit_imp_le_length)

lemma cont_byte [septet_simps]:
  "bit (ucast ((x :: u32) OR 0x80) :: u8) 7" "bit (ucast ((y :: u64) OR 0x80) :: u8) 7"
  by (simp_all add: bit_simps)

lemma end_byte [septet_simps]:
  "\<not> bit (ucast ((x :: u32) AND 0x7f) :: u8) 7" "\<not> bit (ucast ((y :: u64) AND 0x7f) :: u8) 7"
  by (simp_all add: bit_simps)

lemma septet_u32 [septet_simps]:
  "ucast (ucast (x OR 0x80) AND 0x7f :: u8) = take_bit 7 (x :: u32)"
  "ucast (ucast (x AND 0x7f) :: u8) = take_bit 7 (x :: u32)"
  by (rule bit_word_eqI; auto simp: bit_simps)+

lemma septet_u64 [septet_simps]:
  "ucast (ucast (x OR 0x80) AND 0x7f :: u8) = take_bit 7 (x :: u64)"
  "ucast (ucast (x AND 0x7f) AND 0x7f :: u8) = take_bit 7 (x :: u64)"
  by (rule bit_word_eqI; auto simp: bit_simps)+

lemma last_septet_u32:
  assumes "v < 2 ^ n" "n \<le> k + 7"
  shows "\<not> bit (ucast (drop_bit k (v :: u32)) :: u8) 7" "ucast (ucast (drop_bit k v) :: u8) = drop_bit k v"
  using assms(2) by (auto intro!: bit_word_eqI simp: bit_simps dest!: word_less_bit [OF assms(1)])

text \<open>A word is the join of its septets.\<close>

lemmas join_bits = bit_or_iff bit_push_drop bit_push_take_drop bit_take_bit_iff

lemma join_septets:
  fixes v :: "'a::len word"
  shows "take_bit 7 v OR push_bit 7 (drop_bit 7 v) = v"
    "take_bit 7 v OR push_bit 7 (take_bit 7 (drop_bit 7 v)) OR push_bit 14 (drop_bit 14 v) = v"
    "take_bit 7 v OR push_bit 7 (take_bit 7 (drop_bit 7 v)) OR push_bit 14 (take_bit 7 (drop_bit 14 v))
       OR push_bit 21 (drop_bit 21 v) = v"
    "take_bit 7 v OR push_bit 7 (take_bit 7 (drop_bit 7 v)) OR push_bit 14 (take_bit 7 (drop_bit 14 v))
       OR push_bit 21 (take_bit 7 (drop_bit 21 v)) OR push_bit 28 (drop_bit 28 v) = v"
  by (rule bit_word_eqI; auto simp: join_bits)+

section \<open>Round trips: unsigned\<close>

lemma uint_size_cases:
  obtains "v < 2 ^ 7" "gskb_uint_get_packed_size v = 1"
  | "\<not> v < 2 ^ 7" "v < 2 ^ 14" "gskb_uint_get_packed_size v = 2"
  | "\<not> v < 2 ^ 7" "\<not> v < 2 ^ 14" "v < 2 ^ 21" "gskb_uint_get_packed_size v = 3"
  | "\<not> v < 2 ^ 7" "\<not> v < 2 ^ 14" "\<not> v < 2 ^ 21" "v < 2 ^ 28" "gskb_uint_get_packed_size v = 4"
  | "\<not> v < 2 ^ 7" "\<not> v < 2 ^ 14" "\<not> v < 2 ^ 21" "\<not> v < 2 ^ 28" "gskb_uint_get_packed_size v = 5"
  by (auto simp: gskb_uint_get_packed_size_def)

lemma length_gskb_uint_pack_slab: "length (gskb_uint_pack_slab v) = gskb_uint_get_packed_size v"
  by (simp add: gskb_uint_pack_slab_def gskb_uint_get_packed_size_def)

lemma last_septet_28_u32: "ucast (ucast (drop_bit 28 v) :: u8) = drop_bit 28 (v :: u32)"
  by (rule bit_word_eqI) (auto simp: bit_simps dest: bit_imp_le_length)

lemma gskb_uint_unpack_pack_slab:
  "gskb_uint_unpack (gskb_uint_pack_slab v @ rest) = Some (v, gskb_uint_get_packed_size v)"
proof (cases v rule: uint_size_cases)
  case 1
  then show ?thesis
    using last_septet_u32 [OF 1(1), of 0]
    by (simp add: gskb_uint_unpack_def gskb_uint_pack_slab_def data_at_def septet_simps)
next
  case 2
  then show ?thesis
    using last_septet_u32 [OF 2(2), of 7]
    by (simp add: gskb_uint_unpack_def gskb_uint_pack_slab_def data_at_def septet_simps join_septets)
next
  case 3
  then show ?thesis
    using last_septet_u32 [OF 3(3), of 14]
    by (simp add: gskb_uint_unpack_def gskb_uint_pack_slab_def data_at_def septet_simps join_septets)
next
  case 4
  then show ?thesis
    using last_septet_u32 [OF 4(4), of 21]
    by (simp add: gskb_uint_unpack_def gskb_uint_pack_slab_def data_at_def septet_simps join_septets)
next
  case 5
  then show ?thesis
    by (simp add: gskb_uint_unpack_def gskb_uint_pack_slab_def data_at_def septet_simps join_septets
        last_septet_28_u32)
qed

section \<open>Round trips: signed\<close>

lemma bit_push_take_sdrop:
  fixes v :: "'a::len word"
  assumes "b \<le> a"
  shows "bit (push_bit a (take_bit j (signed_drop_bit b v))) n
           \<longleftrightarrow> a \<le> n \<and> n < a + j \<and> n < LENGTH('a) \<and> bit v (n - (a - b))"
proof (cases "a \<le> n \<and> n < LENGTH('a)")
  case True
  then have "n - (a - b) \<le> LENGTH('a) - Suc 0" "b + (n - a) = n - (a - b)" using assms by linarith+
  then show ?thesis using True by (auto simp: bit_simps min_absorb2)
qed (auto simp: bit_simps)

lemma bit_push_take:
  "bit (push_bit a (take_bit j (v :: 'a::len word))) n
     \<longleftrightarrow> a \<le> n \<and> n < a + j \<and> n < LENGTH('a) \<and> bit v (n - a)"
  by (auto simp: bit_simps)

lemma signed_drop_scast_push:
  fixes v :: "'a::len word"
  assumes "- (2 ^ k) \<le> sint v" "sint v < 2 ^ k" "k + s + 1 = LENGTH('b)" "LENGTH('b) \<le> LENGTH('a)"
  shows "signed_drop_bit s (scast (push_bit s (ucast v :: 'b::len word)) :: 'a word) = v"
proof (rule bit_word_eqI)
  fix n assume n: "n < LENGTH('a)"
  have k: "LENGTH('b) - Suc s = k" "LENGTH('b) - Suc 0 - s = k" using assms(3) by linarith+
  show "bit (signed_drop_bit s (scast (push_bit s (ucast v :: 'b::len word)) :: 'a word)) n = bit v n"
    using sint_bits [OF assms(1,2), of n] assms(3,4) n k
    by (cases "n < k") (auto simp: bit_simps min_def)
qed

lemma push_bit_take_cong:
  assumes "take_bit (LENGTH('a) - s) x = take_bit (LENGTH('a) - s) (y :: 'a::len word)"
  shows "push_bit s x = push_bit s y"
proof (rule bit_word_eqI)
  fix n assume "n < LENGTH('a)"
  moreover have "bit (take_bit (LENGTH('a) - s) x) (n - s) = bit (take_bit (LENGTH('a) - s) y) (n - s)"
    using assms by simp
  ultimately show "bit (push_bit s x) n = bit (push_bit s y) n" by (auto simp: bit_simps)
qed

lemma signed_drop_push:
  fixes v :: "'a::len word"
  assumes "- (2 ^ k) \<le> sint v" "sint v < 2 ^ k" "k + s + 1 = LENGTH('a)"
  shows "signed_drop_bit s (push_bit s (take_bit (Suc k) v)) = v"
proof (rule bit_word_eqI)
  fix n assume n: "n < LENGTH('a)"
  have k: "LENGTH('a) - Suc s = k" using assms(3) by linarith
  show "bit (signed_drop_bit s (push_bit s (take_bit (Suc k) v))) n = bit v n"
    using sint_bits [OF assms(1,2), of n] assms(3) n k
    by (cases "n \<le> k") (auto simp: bit_simps min_def)
qed

lemma int_join_1:
  fixes v :: u32
  assumes "- (2 ^ 6) \<le> sint v" "sint v < 2 ^ 6"
  shows "signed_drop_bit 1 (scast (push_bit 1 (ucast (v AND 0x7f) :: u8))) = v"
proof -
  have "push_bit 1 (ucast (v AND 0x7f) :: u8) = push_bit 1 (ucast v)"
    by (rule push_bit_take_cong) (auto intro!: bit_word_eqI simp: bit_simps)
  then show ?thesis using signed_drop_scast_push [OF assms, where s = 1 and 'b = 8] by simp
qed

lemma int_join_2:
  fixes v :: u32
  assumes "- (2 ^ 13) \<le> sint v" "sint v < 2 ^ 13"
  shows "signed_drop_bit 2 (scast (ucast (push_bit 2 (take_bit 7 v)
           OR push_bit 9 (take_bit 7 (signed_drop_bit 7 v))) :: u16)) = v"
proof -
  have "(ucast (push_bit 2 (take_bit 7 v) OR push_bit 9 (take_bit 7 (signed_drop_bit 7 v))) :: u16)
          = push_bit 2 (ucast v)"
    by (rule bit_word_eqI)
      (auto simp: bit_unsigned_iff bit_or_iff bit_push_take [of _ _ v] bit_push_take_sdrop
        bit_push_bit_iff [of 2 "ucast v :: u16"])
  then show ?thesis using signed_drop_scast_push [OF assms, where s = 2 and 'b = 16] by simp
qed

lemma int_join_3:
  fixes v :: u32
  assumes "- (2 ^ 20) \<le> sint v" "sint v < 2 ^ 20"
  shows "signed_drop_bit 11 (push_bit 11 (take_bit 7 v) OR push_bit 18 (take_bit 7 (signed_drop_bit 7 v))
           OR push_bit 25 (take_bit 7 (signed_drop_bit 14 v))) = v"
proof -
  have "push_bit 11 (take_bit 7 v) OR push_bit 18 (take_bit 7 (signed_drop_bit 7 v))
          OR push_bit 25 (take_bit 7 (signed_drop_bit 14 v)) = push_bit 11 (take_bit 21 v)"
    by (rule bit_word_eqI) (auto simp: bit_or_iff bit_push_take [of _ _ v] bit_push_take_sdrop)
  then show ?thesis using signed_drop_push [OF assms, of 11] by simp
qed

lemma int_join_4:
  fixes v :: u32
  assumes "- (2 ^ 27) \<le> sint v" "sint v < 2 ^ 27"
  shows "signed_drop_bit 4 (push_bit 4 (take_bit 7 v) OR push_bit 11 (take_bit 7 (signed_drop_bit 7 v))
           OR push_bit 18 (take_bit 7 (signed_drop_bit 14 v))
           OR push_bit 25 (take_bit 7 (signed_drop_bit 21 v))) = v"
proof -
  have "push_bit 4 (take_bit 7 v) OR push_bit 11 (take_bit 7 (signed_drop_bit 7 v))
           OR push_bit 18 (take_bit 7 (signed_drop_bit 14 v))
           OR push_bit 25 (take_bit 7 (signed_drop_bit 21 v)) = push_bit 4 (take_bit 28 v)"
    by (rule bit_word_eqI) (auto simp: bit_or_iff bit_push_take [of _ _ v] bit_push_take_sdrop)
  then show ?thesis using signed_drop_push [OF assms, of 4] by simp
qed

lemma int_join_5:
  fixes v :: u32
  shows "take_bit 7 v OR push_bit 7 (take_bit 7 (signed_drop_bit 7 v))
           OR push_bit 14 (take_bit 7 (signed_drop_bit 14 v))
           OR push_bit 21 (take_bit 7 (signed_drop_bit 21 v))
           OR push_bit 28 (take_bit 7 (signed_drop_bit 28 v)) = v"
  by (rule bit_word_eqI) (auto simp: bit_or_iff bit_take_bit_iff bit_push_take_sdrop)

lemmas int_slab_cases = gskb_int_pack_slab_def gskb_int_get_packed_size_def if_True if_False

lemmas int_unpack_simps = gskb_int_unpack_def data_at_def septet_simps

lemma gskb_int_unpack_pack_slab:
  "gskb_int_unpack (gskb_int_pack_slab v @ rest) = Some (v, gskb_int_get_packed_size v)"
proof -
  let ?in = "\<lambda>k. - (2 ^ k) \<le> sint v \<and> sint v < 2 ^ k"
  consider "?in 6" | "\<not> ?in 6" "?in 13" | "\<not> ?in 6" "\<not> ?in 13" "?in 20"
    | "\<not> ?in 6" "\<not> ?in 13" "\<not> ?in 20" "?in 27"
    | "\<not> ?in 6" "\<not> ?in 13" "\<not> ?in 20" "\<not> ?in 27"
    by blast
  then show ?thesis
  proof cases
    case 1
    then show ?thesis using int_join_1 [of v]
      by (simp only: int_slab_cases) (simp add: int_unpack_simps)
  next
    case 2
    then show ?thesis using int_join_2 [of v]
      by (simp only: int_slab_cases) (simp add: int_unpack_simps)
  next
    case 3
    then show ?thesis using int_join_3 [of v]
      by (simp only: int_slab_cases) (simp add: int_unpack_simps)
  next
    case 4
    then show ?thesis using int_join_4 [of v]
      by (simp only: int_slab_cases) (simp add: int_unpack_simps)
  next
    case 5
    then show ?thesis using int_join_5 [of v]
      by (simp only: int_slab_cases) (simp add: int_unpack_simps)
  qed
qed

lemma length_gskb_int_pack_slab: "length (gskb_int_pack_slab v) = gskb_int_get_packed_size v"
  by (simp add: gskb_int_pack_slab_def gskb_int_get_packed_size_def)

section \<open>Round trips: 64-bit unsigned\<close>

lemma ucast_drop_35_less:
  fixes v :: u64
  assumes "k \<le> 28"
  shows "(ucast (drop_bit 35 v) :: u32) < 2 ^ k \<longleftrightarrow> v < 2 ^ (k + 35)"
proof -
  have b: "unat v < 2 ^ 64" using unsigned_less [of v] by simp
  then have "unat v div 2 ^ 35 < 2 ^ 32" by simp
  then have u: "unat (ucast (drop_bit 35 v) :: u32) = unat v div 2 ^ 35"
    by (simp only: unsigned_ucast_eq unat_drop_bit_eq)
      (simp add: drop_bit_eq_div take_bit_nat_eq_self)
  have p: "unat (2 ^ k :: u32) = 2 ^ k" "unat (2 ^ (k + 35) :: u64) = 2 ^ (k + 35)"
    using assms by (simp_all add: unat_exp)
  show ?thesis
    unfolding word_less_nat_alt u p by (simp add: div_less_iff_less_mult power_add)
qed

lemma ulong_cont_5: "ulong_cont v 5 = [ucast (v OR 0x80), ucast (drop_bit 7 v OR 0x80),
    ucast (drop_bit 14 v OR 0x80), ucast (drop_bit 21 v OR 0x80), ucast (drop_bit 28 v OR 0x80)]"
  by (simp add: ulong_cont_def upt_rec)

lemma ulong_byte:
  "(ucast (drop_bit k (ucast (drop_bit 35 v) :: u32) OR 0x80) :: u8) = ucast (drop_bit (k + 35) (v :: u64) OR 0x80)"
  if "k \<le> 21"
  using that by (auto intro!: bit_word_eqI simp: bit_simps add_ac)

lemma ulong_last_byte:
  fixes v :: u64
  assumes "v < 2 ^ (k + 42)" "k \<le> 28"
  shows "(ucast (drop_bit k (ucast (drop_bit 35 v) :: u32)) :: u8) = ucast (drop_bit (k + 35) v AND 0x7f)"
proof (rule bit_word_eqI)
  fix n assume "n < LENGTH(8)"
  moreover have "n < 7" if "bit v (n + k + 35)" using word_less_bit [OF assms(1) that] by simp
  ultimately show "bit (ucast (drop_bit k (ucast (drop_bit 35 v) :: u32)) :: u8) n
      = bit (ucast (drop_bit (k + 35) v AND 0x7f) :: u8) n"
    using assms(2) bit_imp_le_length [of v "n + k + 35"] by (auto simp: bit_simps add_ac)
qed


lemmas ulong_less_simps = ucast_drop_35_less [of 7, simplified] ucast_drop_35_less [of 14, simplified] ucast_drop_35_less [of 21, simplified]
  ucast_drop_35_less [of 28, simplified]

lemmas ulong_byte_simps = ulong_byte [of 0] ulong_byte [of 7] ulong_byte [of 14] ulong_byte [of 21]
  ulong_last_byte [of _ 0] ulong_last_byte [of _ 7] ulong_last_byte [of _ 14] ulong_last_byte [of _ 21]

lemma ulong_byte_63: "(ucast (drop_bit 28 (ucast (drop_bit 35 v) :: u32)) :: u8) = ucast (drop_bit 63 (v :: u64) AND 0x7f)"
  by (rule bit_word_eqI) (auto simp: bit_simps dest: bit_imp_le_length)

text \<open>From 36 bits on, the encoding is five continuation bytes and the encoding of the high part.\<close>

lemma gskb_ulong_pack_slab_high:
  assumes "\<not> v < 2 ^ 35"
  shows "gskb_ulong_pack_slab v = ulong_cont v 5 @ gskb_uint_pack_slab (ucast (drop_bit 35 v))"
proof -
  have "\<not> v \<le> 0xffffffff" using assms by (simp add: word_le_nat_alt word_less_nat_alt)
  then show ?thesis
    using assms ulong_byte_simps [of v] ulong_byte_63 [of v] 
    by (simp add: gskb_ulong_pack_slab_def gskb_uint_pack_slab_def ulong_less_simps ulong_cont_def upt_rec)
qed


lemma ulong_low_byte:
  "(ucast (drop_bit k (ucast v :: u32) OR 0x80) :: u8) = ucast (drop_bit k (v :: u64) OR 0x80)" if "k \<le> 21"
  using that by (auto intro!: bit_word_eqI simp: bit_simps add_ac)

lemma ulong_low_last_byte:
  fixes v :: u64
  assumes "v \<le> 0xffffffff"
  shows "(ucast (drop_bit 28 (ucast v :: u32)) :: u8) = ucast (drop_bit 28 v)"
proof -
  have "v < 2 ^ 32" using assms by (simp add: word_le_nat_alt word_less_nat_alt)
  then have "n < 4" if "bit v (28 + n)" for n using word_less_bit [OF _ that] by fastforce
  then show ?thesis by (auto intro!: bit_word_eqI simp: bit_simps)
qed

lemma gskb_ulong_pack_slab_5:
  assumes "v < 2 ^ 35" "\<not> v < 2 ^ 28"
  shows "gskb_ulong_pack_slab v = ulong_cont v 4 @ [ucast (drop_bit 28 v)]"
proof (cases "v \<le> 0xffffffff")
  case True
  then have "unat v < 2 ^ 32" by (simp add: word_le_nat_alt)
  then have "unat (ucast v :: u32) = unat v"
    by (simp only: unsigned_ucast_eq) (simp add: take_bit_nat_eq_self)
  then have "(ucast v :: u32) < 2 ^ k \<longleftrightarrow> v < 2 ^ k" if "k \<le> 28" for k
    using that by (simp add: word_less_nat_alt unat_exp)
  note this [of 7] this [of 14] this [of 21] this [of 28]
  moreover have "\<not> v < 2 ^ 7" "\<not> v < 2 ^ 14" "\<not> v < 2 ^ 21"
    using assms(2) by (simp_all add: word_less_nat_alt)
  ultimately have "\<not> (ucast v :: u32) < 2 ^ 7" "\<not> (ucast v :: u32) < 2 ^ 14"
      "\<not> (ucast v :: u32) < 2 ^ 21" "\<not> (ucast v :: u32) < 2 ^ 28"
    using assms(2) by simp_all
  then have "gskb_ulong_pack_slab v = map (\<lambda>k. ucast (drop_bit k (ucast v :: u32) OR 0x80)) [0, 7, 14, 21]
      @ [ucast (drop_bit 28 (ucast v :: u32))]"
    using True by (simp only: gskb_ulong_pack_slab_def gskb_uint_pack_slab_def if_True if_False) simp
  then show ?thesis
    using ulong_low_last_byte [OF True] by (simp add: ulong_low_byte ulong_cont_def upt_rec del: drop_bit_0)
next
  case False
  then show ?thesis using assms by (simp add: gskb_ulong_pack_slab_def)
qed

lemma ends_in_four_cont: "ends_in_four (ulong_cont v 4 @ xs) = Some False"
  by (simp add: ends_in_four_def ulong_cont_def upt_rec data_at_def septet_simps)

lemma septet_u64_u32:
  "ucast (ucast (x OR 0x80) AND 0x7f :: u8) = take_bit 7 (ucast (x :: u64) :: u32)"
  by (rule bit_word_eqI) (auto simp: bit_simps)

lemma four_septets_cont: "ucast (four_septets (ulong_cont v 4 @ xs)) = take_bit 28 v"
proof -
  have "four_septets (ulong_cont v 4 @ xs) = take_bit 28 (ucast v)"
    by (rule bit_word_eqI)
      (auto simp: four_septets_def ulong_cont_def upt_rec septet_u64_u32 bit_or_iff bit_push_take bit_take_bit_iff
        bit_unsigned_iff bit_drop_bit_eq)
  then show ?thesis by (auto intro!: bit_word_eqI simp: bit_simps)
qed

lemma ulong_cont_Suc: "ulong_cont v (Suc n) = ulong_cont v n @ [ucast (drop_bit (7 * n) v OR 0x80)]"
  by (simp add: ulong_cont_def)

lemma length_ulong_cont [simp]: "length (ulong_cont v n) = n"
  by (simp add: ulong_cont_def)


lemma ulong_join:
  fixes v :: u64
  shows "v < 2 ^ 35 \<Longrightarrow> take_bit 28 v OR push_bit 28 (ucast (ucast (drop_bit 28 v) AND 0x7f :: u8)) = v"
    "push_bit 35 (ucast (ucast (drop_bit 35 v) :: u32)) OR
       (take_bit 28 v OR push_bit 28 (take_bit 7 (drop_bit 28 v))) = v"
proof -
  show "take_bit 28 v OR push_bit 28 (ucast (ucast (drop_bit 28 v) AND 0x7f :: u8)) = v" if "v < 2 ^ 35"
  proof (rule bit_word_eqI)
    fix n assume "n < LENGTH(64)"
    then show "bit (take_bit 28 v OR push_bit 28 (ucast (ucast (drop_bit 28 v) AND 0x7f :: u8))) n = bit v n"
      using word_less_bit [OF that, of n] by (auto simp: bit_simps)
  qed
  show "push_bit 35 (ucast (ucast (drop_bit 35 v) :: u32)) OR
       (take_bit 28 v OR push_bit 28 (take_bit 7 (drop_bit 28 v))) = v"
  proof (rule bit_word_eqI)
    fix n assume "n < LENGTH(64)"
    then show "bit (push_bit 35 (ucast (ucast (drop_bit 35 v) :: u32)) OR
       (take_bit 28 v OR push_bit 28 (take_bit 7 (drop_bit 28 v)))) n = bit v n"
      by (cases "n < 35") (auto simp: bit_simps)
  qed
qed

lemma ends_in_four_uint: "ends_in_four (gskb_uint_pack_slab w @ rest) = Some True" if "w < 2 ^ 28"
  using that last_septet_u32 [of w 7 0] last_septet_u32 [of w 14 7] last_septet_u32 [of w 21 14]
    last_septet_u32 [of w 28 21]
  by (simp add: gskb_uint_pack_slab_def ends_in_four_def data_at_def septet_simps)

lemma length_gskb_ulong_pack_slab: "length (gskb_ulong_pack_slab v) = gskb_ulong_get_packed_size v"
proof (cases "v < 2 ^ 35")
  case True
  then show ?thesis
    by (simp add: gskb_ulong_pack_slab_def gskb_ulong_get_packed_size_def length_gskb_uint_pack_slab)
next
  case False
  then have "\<not> v \<le> 0xffffffff" by (simp add: word_le_nat_alt word_less_nat_alt)
  then show ?thesis
    using False by (simp add: gskb_ulong_pack_slab_high gskb_ulong_get_packed_size_def length_gskb_uint_pack_slab)
qed

lemma gskb_ulong_unpack_pack_slab:
  "gskb_ulong_unpack (gskb_ulong_pack_slab v @ rest) = Some (v, gskb_ulong_get_packed_size v)"
proof -
  consider "v < 2 ^ 28" | "\<not> v < 2 ^ 28" "v < 2 ^ 35" | "\<not> v < 2 ^ 35" by blast
  then show ?thesis
  proof cases
    case 1
    then have u: "unat v < 2 ^ 28" by (simp add: word_less_nat_alt)
    then have v: "v \<le> 0xffffffff" by (simp add: word_le_nat_alt)
    have w: "unat (ucast v :: u32) = unat v"
      using u by (simp only: unsigned_ucast_eq) (simp add: take_bit_nat_eq_self)
    then have "(ucast v :: u32) < 2 ^ 28" using u by (simp add: word_less_nat_alt)
    moreover have "ucast (ucast v :: u32) = v"
      using w by (metis unat_ucast_u32_u64 unsigned_word_eqI)
    ultimately show ?thesis using v
      by (simp add: gskb_ulong_pack_slab_def gskb_ulong_unpack_def gskb_ulong_get_packed_size_def
          ends_in_four_uint gskb_uint_unpack_pack_slab)
  next
    case 2
    have "\<not> bit (ucast (drop_bit 28 v) :: u8) 7"
      using word_less_bit [OF 2(2), of 35] by (auto simp: bit_simps)
    moreover have "gskb_ulong_get_packed_size v = 5"
      using 2 length_gskb_ulong_pack_slab [of v] by (simp add: gskb_ulong_pack_slab_5)
    ultimately show ?thesis using 2
      by (simp add: gskb_ulong_pack_slab_5 gskb_ulong_unpack_def ends_in_four_cont data_at_def nth_append four_septets_cont Let_def
        septet_simps ulong_join)
  next
    case 3
    have c: "ulong_cont v 5 = ulong_cont v 4 @ [ucast (drop_bit 28 v OR 0x80)]"
      using ulong_cont_Suc [of v 4] by simp
    have "gskb_ulong_get_packed_size v = 5 + gskb_uint_get_packed_size (ucast (drop_bit 35 v))"
      using 3 length_gskb_ulong_pack_slab [of v] by (simp add: gskb_ulong_pack_slab_high length_gskb_uint_pack_slab)
    with 3 show ?thesis
      using gskb_uint_unpack_pack_slab [of "ucast (drop_bit 35 v)" rest]
      by (simp add: gskb_ulong_pack_slab_high c gskb_ulong_unpack_def ends_in_four_cont data_at_def nth_append four_septets_cont Let_def
        septet_simps ulong_join)
  qed
qed

section \<open>Round trips: 64-bit signed\<close>

lemma sint_ucast_sdrop_35:
  "sint (ucast (signed_drop_bit 35 (v :: u64)) :: u32) = sint v div 2 ^ 35"
proof -
  have "sint (ucast (signed_drop_bit 35 v) :: u32) = drop_bit 35 (sint v)"
  proof (rule bit_eqI)
    fix n
    show "bit (sint (ucast (signed_drop_bit 35 v) :: u32)) n = bit (drop_bit 35 (sint v)) n"
      by (cases "n = 28") (auto simp: bit_simps min_def)
  qed
  then show ?thesis by (simp add: drop_bit_eq_div)
qed

lemma sint_ucast_self:
  assumes "- (2 ^ 31) \<le> sint (v :: u64)" "sint v < 2 ^ 31"
  shows "sint (ucast v :: u32) = sint v"
proof (rule bit_eqI)
  fix n
  show "bit (sint (ucast v :: u32)) n = bit (sint v) n"
    using sint_bits [OF assms, of "min 63 n"] by (auto simp: bit_simps min_def)
qed

lemma long_ranges:
  fixes v :: u64
  defines "w \<equiv> ucast (signed_drop_bit 35 v) :: u32"
  shows "- (2 ^ 6) \<le> sint w \<longleftrightarrow> - (2 ^ 41) \<le> sint v" "sint w < 2 ^ 6 \<longleftrightarrow> sint v < 2 ^ 41"
    "- (2 ^ 13) \<le> sint w \<longleftrightarrow> - (2 ^ 48) \<le> sint v" "sint w < 2 ^ 13 \<longleftrightarrow> sint v < 2 ^ 48"
    "- (2 ^ 20) \<le> sint w \<longleftrightarrow> - (2 ^ 55) \<le> sint v" "sint w < 2 ^ 20 \<longleftrightarrow> sint v < 2 ^ 55"
    "- (2 ^ 27) \<le> sint w \<longleftrightarrow> - (2 ^ 62) \<le> sint v" "sint w < 2 ^ 27 \<longleftrightarrow> sint v < 2 ^ 62"
  unfolding w_def sint_ucast_sdrop_35 by simp_all linarith+

lemma long_byte:
  "(ucast (signed_drop_bit k (ucast (signed_drop_bit 35 v) :: u32) OR 0x80) :: u8)
     = ucast (signed_drop_bit (k + 35) (v :: u64) OR 0x80)"
  "(ucast (signed_drop_bit k (ucast (signed_drop_bit 35 v) :: u32) AND 0x7f) :: u8)
     = ucast (signed_drop_bit (k + 35) (v :: u64) AND 0x7f)"
  by (rule bit_word_eqI; auto simp: bit_simps min_def add_ac)+

lemma long_low_byte:
  assumes "- (2 ^ 31) \<le> sint (v :: u64)" "sint v < 2 ^ 31"
  shows "(ucast (signed_drop_bit k (ucast v :: u32) OR 0x80) :: u8) = ucast (signed_drop_bit k v OR 0x80)"
    "(ucast (signed_drop_bit k (ucast v :: u32) AND 0x7f) :: u8) = ucast (signed_drop_bit k v AND 0x7f)"
proof -
  have *: "bit (signed_drop_bit k (ucast v :: u32)) n = bit (signed_drop_bit k v) n" if "n < 8" for n
    using that sint_bits [OF assms, of 63] sint_bits [OF assms, of "k + n"]
    by (cases "k + n < 31"; cases "k + n < 64") (auto simp: bit_simps min_def)
  show "(ucast (signed_drop_bit k (ucast v :: u32) OR 0x80) :: u8) = ucast (signed_drop_bit k v OR 0x80)"
    by (rule bit_word_eqI) (simp add: bit_unsigned_iff bit_or_iff *)
  show "(ucast (signed_drop_bit k (ucast v :: u32) AND 0x7f) :: u8) = ucast (signed_drop_bit k v AND 0x7f)"
    by (rule bit_word_eqI) (simp add: bit_unsigned_iff bit_and_iff *)
qed

lemma length_long_cont [simp]: "length (long_cont v n) = n"
  by (simp add: long_cont_def)

lemma long_cont_Suc: "long_cont v (Suc n) = long_cont v n @ [ucast (signed_drop_bit (7 * n) v OR 0x80)]"
  by (simp add: long_cont_def)

lemmas long_byte_simps = long_byte [of 0] long_byte [of 7] long_byte [of 14] long_byte [of 21] long_byte [of 28]

text \<open>Beyond 35 bits, the encoding is five continuation bytes and the encoding of the high part.\<close>

lemma gskb_long_pack_slab_high:
  assumes "\<not> (- (2 ^ 34) \<le> sint v \<and> sint v < 2 ^ 34)"
  shows "gskb_long_pack_slab v = long_cont v 5 @ gskb_int_pack_slab (ucast (signed_drop_bit 35 v))"
proof -
  have "\<not> (- (2 ^ 31) \<le> sint v \<and> sint v \<le> 2 ^ 31 - 1)" using assms by auto
  then show ?thesis
    using assms
    by (simp only: gskb_long_pack_slab_def gskb_int_pack_slab_def if_False long_ranges)
      (simp add: long_cont_def upt_rec long_byte_simps [of v, simplified])
qed

lemma gskb_long_pack_slab_5:
  assumes "- (2 ^ 34) \<le> sint v" "sint v < 2 ^ 34" "\<not> (- (2 ^ 27) \<le> sint v \<and> sint v < 2 ^ 27)"
  shows "gskb_long_pack_slab v = long_cont v 4 @ [ucast (signed_drop_bit 28 v AND 0x7f)]"
proof (cases "- (2 ^ 31) \<le> sint v \<and> sint v \<le> 2 ^ 31 - 1")
  case True
  then have r: "- (2 ^ 31) \<le> sint v" "sint v < 2 ^ 31" by simp_all
  have "\<not> (- (2 ^ 6) \<le> sint v \<and> sint v < 2 ^ 6)" "\<not> (- (2 ^ 13) \<le> sint v \<and> sint v < 2 ^ 13)"
     "\<not> (- (2 ^ 20) \<le> sint v \<and> sint v < 2 ^ 20)" using assms(3) by auto
  then show ?thesis
    using True assms(3) 
    by (simp only: gskb_long_pack_slab_def gskb_int_pack_slab_def if_True if_False sint_ucast_self [OF r])
      (simp add: long_cont_def upt_rec long_low_byte [OF r] long_low_byte [OF r, of 0, simplified])
next
  case False
  then show ?thesis using assms by (simp only: gskb_long_pack_slab_def if_False if_True simp_thms)
qed

lemma ends_in_four_long_cont: "ends_in_four (long_cont v 4 @ xs) = Some False"
  by (simp add: ends_in_four_def long_cont_def upt_rec data_at_def septet_simps)

lemma four_septets_long_cont: "scast (four_septets (long_cont v 4 @ xs)) = take_bit 28 v"
proof -
  have "four_septets (long_cont v 4 @ xs) = take_bit 28 (ucast v)"
    by (rule bit_word_eqI)
      (auto simp: four_septets_def long_cont_def upt_rec septet_u64_u32 bit_or_iff bit_push_take bit_take_bit_iff
        bit_unsigned_iff bit_signed_drop_bit_iff)
  then show ?thesis by (auto intro!: bit_word_eqI simp: bit_simps min_def split: if_splits)
qed

lemma ends_in_four_int:
  assumes "- (2 ^ 27) \<le> sint w" "sint w < 2 ^ 27"
  shows "ends_in_four (gskb_int_pack_slab w @ rest) = Some True"
  using assms by (simp add: gskb_int_pack_slab_def ends_in_four_def data_at_def septet_simps)

lemma bit_sign_mask: "bit (0xfffffff800000000 :: u64) n \<longleftrightarrow> 35 \<le> n \<and> n < 64"
proof -
  have "(0xfffffff800000000 :: u64) = NOT (mask 35)" by (simp add: mask_eq_exp_minus_1)
  then have "bit (0xfffffff800000000 :: u64) n = bit (NOT (mask 35) :: u64) n" by (rule arg_cong)
  also have "\<dots> \<longleftrightarrow> 35 \<le> n \<and> n < 64" by (auto simp only: bit_not_iff bit_mask_iff) auto
  finally show ?thesis .
qed

lemma and_0x40: "(d :: u8) AND 0x40 = 0 \<longleftrightarrow> \<not> bit d 6"
  using and_exp_eq_0_iff_not_bit [of d 6] by simp

text \<open>The five septets of a 35-bit value; the decoder extends the sign from bit 34.\<close>

lemma long_join_5:
  fixes v :: u64
  assumes "- (2 ^ 34) \<le> sint v" "sint v < 2 ^ 34"
  shows "(if bit v 34 then (take_bit 28 v OR push_bit 28 (take_bit 7 (signed_drop_bit 28 v))) OR 0xfffffff800000000
          else take_bit 28 v OR push_bit 28 (take_bit 7 (signed_drop_bit 28 v))) = v" (is "?l = v")
proof (rule bit_word_eqI)
  fix n assume "n < LENGTH(64)"
  then show "bit ?l n = bit v n"
    using sint_bits [OF assms, of n] bit_imp_le_length [of v n] bit_sign_mask [of n]
    by (cases "n < 35") (auto simp: bit_or_iff bit_take_bit_iff bit_push_take_sdrop)
qed

lemma long_join_high:
  fixes v :: u64
  shows "push_bit 35 (scast (ucast (signed_drop_bit 35 v) :: u32)) OR
     (take_bit 28 v OR push_bit 28 (take_bit 7 (signed_drop_bit 28 v))) = v" (is "?l = v")
proof (rule bit_word_eqI)
  fix n assume "n < LENGTH(64)"
  then show "bit ?l n = bit v n"
    by (cases "n < 35") (auto simp: bit_simps min_def)
qed

lemma length_gskb_long_pack_slab: "length (gskb_long_pack_slab v) = gskb_long_get_packed_size v"
proof (cases "- (2 ^ 34) \<le> sint v \<and> sint v < 2 ^ 34")
  case True
  then show ?thesis
    by (simp add: gskb_long_pack_slab_def gskb_long_get_packed_size_def length_gskb_int_pack_slab)
next
  case False
  then have "\<not> (- (2 ^ 31) \<le> sint v \<and> sint v \<le> 2 ^ 31 - 1)" by auto
  then have "gskb_long_get_packed_size v = gskb_int_get_packed_size (ucast (signed_drop_bit 35 v)) + 5"
    using False by (simp only: gskb_long_get_packed_size_def if_False)
  then show ?thesis
    using gskb_long_pack_slab_high [OF False] by (simp add: length_gskb_int_pack_slab)
qed

lemmas long_unpack_simps = gskb_long_unpack_def ends_in_four_long_cont data_at_def nth_append
  four_septets_long_cont Let_def septet_simps

lemma gskb_long_unpack_pack_slab:
  "gskb_long_unpack (gskb_long_pack_slab v @ rest) = Some (v, gskb_long_get_packed_size v)"
proof -
  let ?in = "\<lambda>k. - (2 ^ k) \<le> sint v \<and> sint v < 2 ^ k"
  consider "?in 27" | "\<not> ?in 27" "?in 34" | "\<not> ?in 34" by blast
  then show ?thesis
  proof cases
    case 1
    then have r: "- (2 ^ 31) \<le> sint v" "sint v < 2 ^ 31" "sint v \<le> 2 ^ 31 - 1" by simp_all
    have "- (2 ^ 27) \<le> sint (ucast v :: u32)" "sint (ucast v :: u32) < 2 ^ 27"
      using 1 by (simp_all only: sint_ucast_self [OF r(1,2)])
    moreover have "scast (ucast v :: u32) = v"
      using sint_ucast_self [OF r(1,2)] by (simp add: scast_eq)
    ultimately show ?thesis using r
      by (simp add: gskb_long_pack_slab_def gskb_long_unpack_def gskb_long_get_packed_size_def
          ends_in_four_int gskb_int_unpack_pack_slab)
  next
    case 2
    have s: "gskb_long_pack_slab v = long_cont v 4 @ [ucast (signed_drop_bit 28 v AND 0x7f)]"
      using 2 by (intro gskb_long_pack_slab_5) auto
    have "gskb_long_get_packed_size v = 5" using length_gskb_long_pack_slab [of v] by (simp add: s)
    moreover have "bit (ucast (signed_drop_bit 28 v AND 0x7f) :: u8) 6 = bit v 34"
      by (simp add: bit_simps)
    ultimately show ?thesis using long_join_5 [of v] 2
      by (auto simp: s long_unpack_simps and_0x40 split: if_splits)
  next
    case 3
    have c: "long_cont v 5 = long_cont v 4 @ [ucast (signed_drop_bit 28 v OR 0x80)]"
      using long_cont_Suc [of v 4] by simp
    have "gskb_long_get_packed_size v = 5 + gskb_int_get_packed_size (ucast (signed_drop_bit 35 v))"
      using length_gskb_long_pack_slab [of v] gskb_long_pack_slab_high [OF 3]
      by (simp add: length_gskb_int_pack_slab)
    then show ?thesis
      using gskb_int_unpack_pack_slab [of "ucast (signed_drop_bit 35 v)" rest]
      by (simp add: gskb_long_pack_slab_high [OF 3] c long_unpack_simps long_join_high)
  qed
qed


section \<open>Round trips: fixed-width integers and strings\<close>

lemma byte_take:
  "ucast (ucast v :: u8) = take_bit 8 (v :: u16)" "ucast (ucast w :: u8) = take_bit 8 (w :: u32)"
  "ucast (ucast x :: u32) = take_bit 32 (x :: u64)"
  by (rule bit_word_eqI; auto simp: bit_simps)+

lemma byte_join:
  "take_bit 8 v OR push_bit 8 (take_bit 8 (drop_bit 8 v)) = (v :: u16)"
  "take_bit 8 w OR push_bit 8 (take_bit 8 (drop_bit 8 w)) OR push_bit 16 (take_bit 8 (drop_bit 16 w))
     OR push_bit 24 (take_bit 8 (drop_bit 24 w)) = (w :: u32)"
  "push_bit 32 (take_bit 32 (drop_bit 32 x)) OR take_bit 32 x = (x :: u64)"
  by (rule bit_word_eqI; auto simp: join_bits dest: bit_imp_le_length)+

lemma gskb_fixed_unpack_pack_slab:
  "gskb_uint16_unpack (gskb_uint16_pack_slab v @ rest) = Some (v, 2)"
  "gskb_uint32_unpack (gskb_uint32_pack_slab w @ rest) = Some (w, 4)"
  by (simp_all add: gskb_uint16_unpack_def gskb_uint16_pack_slab_def gskb_uint32_unpack_def
      gskb_uint32_pack_slab_def data_at_def byte_take byte_join)

lemma gskb_uint64_unpack_pack_slab:
  "gskb_uint64_unpack (gskb_uint64_pack_slab x @ rest) = Some (x, 8)"
proof -
  have "length (gskb_uint32_pack_slab w) = 4" for w by (simp add: gskb_uint32_pack_slab_def)
  then show ?thesis
    by (simp add: gskb_uint64_unpack_def gskb_uint64_pack_slab_def gskb_fixed_unpack_pack_slab
        byte_take byte_join)
qed

lemma gskb_signed_pack_slab:
  "gskb_int16_pack_slab v = gskb_uint16_pack_slab v"
  "gskb_int32_pack_slab w = gskb_uint32_pack_slab w"
  "gskb_int64_pack_slab x = gskb_uint64_pack_slab x"
  unfolding gskb_int16_pack_slab_def gskb_uint16_pack_slab_def gskb_int32_pack_slab_def
    gskb_uint32_pack_slab_def gskb_int64_pack_slab_def gskb_uint64_pack_slab_def
  by (auto intro!: bit_word_eqI simp: bit_simps min_def)

lemma string_unpack_len_memchr: "string_unpack_len data = memchr 0 data"
  by (induction data) auto

lemma string_unpack_len_eq:
  "0 \<notin> set s \<Longrightarrow> string_unpack_len (s @ 0 # rest) = Some (length s)"
  by (induction s) auto

lemma gskb_string_unpack_pack_slab:
  "0 \<notin> set s \<Longrightarrow>
     gskb_string_unpack (gskb_string_pack_slab s @ rest) = Some (s, gskb_string_get_packed_size s)"
  by (simp add: gskb_string_unpack_def gskb_string_pack_slab_def gskb_string_get_packed_size_def
      string_unpack_len_eq)

section \<open>Validation\<close>

text \<open>The common meaning of the validators: the bytes up to and including the first one
  without the continuation bit, at most \<open>k\<close> of them.\<close>

fun varint_size :: "nat \<Rightarrow> u8 list \<Rightarrow> nat checked" where
  "varint_size 0 data = Invalid GSK_ERROR_BAD_FORMAT"
| "varint_size (Suc k) [] = Out_Of_Bounds"
| "varint_size (Suc k) (d # ds) =
     (if d AND 0x80 = 0 then Valid 1
      else (case varint_size k ds of Valid n \<Rightarrow> Valid (Suc n) | Invalid e \<Rightarrow> Invalid e
            | Out_Of_Bounds \<Rightarrow> Out_Of_Bounds))"

lemma varint_size_data_at:
  "varint_size (Suc k) (drop i data) =
     (case data_at data i of None \<Rightarrow> Out_Of_Bounds
      | Some d \<Rightarrow> if d AND 0x80 = 0 then Valid 1
                  else (case varint_size k (drop (Suc i) data) of Valid n \<Rightarrow> Valid (Suc n)
                        | Invalid e \<Rightarrow> Invalid e | Out_Of_Bounds \<Rightarrow> Out_Of_Bounds))"
  by (cases "i < length data") (simp_all add: data_at_def Cons_nth_drop_Suc [symmetric])

lemma gskb_validate_varint_size:
  "gskb_uint_validate_partial len data = varint_size 5 data"
  "gskb_int_validate_partial len data = varint_size 5 data"
proof -
  have "varint_size 5 data = varint_size (Suc (Suc (Suc (Suc (Suc 0))))) (drop 0 data)"
    by (simp add: numeral_eq_Suc)
  then show "gskb_uint_validate_partial len data = varint_size 5 data"
    by (simp only: varint_size_data_at gskb_uint_validate_partial_def)
      (simp add: numeral_eq_Suc split: option.split)
  then show "gskb_int_validate_partial len data = varint_size 5 data"
    by (simp only: gskb_int_validate_partial_def gskb_uint_validate_partial_def)
qed

lemma long_validate_loop_varint_size:
  "i \<le> 10 \<Longrightarrow> long_validate_loop data i =
     (case varint_size (10 - i) (drop i data) of Valid n \<Rightarrow> Valid (i + n) | Invalid e \<Rightarrow> Invalid e
      | Out_Of_Bounds \<Rightarrow> Out_Of_Bounds)"
proof (induction data i rule: long_validate_loop.induct)
  case (1 data i)
  show ?case
  proof (cases "i < 10")
    case True
    then have "10 - i = Suc (10 - Suc i)" by linarith
    then show ?thesis
      using 1 True
      by (auto simp: long_validate_loop.simps [of data i] varint_size_data_at
          split: checked.splits option.splits)
  qed (use 1(2) in \<open>simp add: long_validate_loop.simps\<close>)
qed

lemma gskb_long_validate_varint_size:
  "gskb_long_validate_partial len data = varint_size 10 data"
  "gskb_ulong_validate_partial len data = varint_size 10 data"
  by (simp_all add: gskb_long_validate_partial_def gskb_ulong_validate_partial_def
      long_validate_loop_varint_size split: checked.splits)

lemma varint_size_le: "varint_size k data = Valid n \<Longrightarrow> n \<le> length data \<and> n \<le> k \<and> 0 < n"
  by (induction k data arbitrary: n rule: varint_size.induct) (auto split: if_splits checked.splits)


lemma gskb_uint_unpack_if_valid:
  "varint_size 5 data = Valid n \<Longrightarrow> \<exists>v. gskb_uint_unpack data = Some (v, n)"
  unfolding gskb_validate_varint_size(1) [of 0, symmetric] gskb_uint_validate_partial_def gskb_uint_unpack_def
  by (auto split: option.splits if_splits)

lemma gskb_int_unpack_if_valid:
  "varint_size 5 data = Valid n \<Longrightarrow> \<exists>v. gskb_int_unpack data = Some (v, n)"
  unfolding gskb_validate_varint_size(2) [of 0, symmetric] gskb_int_validate_partial_def gskb_int_unpack_def
  by (auto simp: Let_def split: option.splits if_splits)

lemma varint_size_add:
  "varint_size (j + k) data =
     (case varint_size j data of
        Valid n \<Rightarrow> Valid n
      | Out_Of_Bounds \<Rightarrow> Out_Of_Bounds
      | Invalid _ \<Rightarrow> (case varint_size k (drop j data) of Valid n \<Rightarrow> Valid (j + n)
                       | Invalid e \<Rightarrow> Invalid e | Out_Of_Bounds \<Rightarrow> Out_Of_Bounds))"
  by (induction j data rule: varint_size.induct) (auto split: checked.split)

lemma ends_in_four_varint_size:
  "ends_in_four data = (case varint_size 4 data of Valid _ \<Rightarrow> Some True | Invalid _ \<Rightarrow> Some False
                        | Out_Of_Bounds \<Rightarrow> None)"
proof -
  have "varint_size 4 data = varint_size (Suc (Suc (Suc (Suc 0)))) (drop 0 data)"
    by (simp add: numeral_eq_Suc)
  then show ?thesis
    by (simp only: varint_size_data_at ends_in_four_def)
      (simp add: numeral_eq_Suc bind_eq_None_conv split: option.split)
qed

text \<open>A valid \<open>long\<close> either ends within the first four bytes, or at the fifth, or its
  high part is a valid \<open>int\<close>.\<close>

lemma valid_long_cases:
  assumes "varint_size 10 data = Valid n"
  obtains "ends_in_four data = Some True" "varint_size 5 data = Valid n"
  | d4 where "ends_in_four data = Some False" "data_at data 4 = Some d4" "d4 AND 0x80 = 0" "n = 5"
  | d4 m where "ends_in_four data = Some False" "data_at data 4 = Some d4" "d4 AND 0x80 \<noteq> 0"
      "varint_size 5 (drop 5 data) = Valid m" "n = 5 + m"
  using assms varint_size_add [of 4 6 data] varint_size_add [of 4 1 data] varint_size_data_at [of 5 4 data]
  by (auto simp: ends_in_four_varint_size split: checked.splits option.splits if_splits)

lemma gskb_long_unpack_if_valid:
  assumes "varint_size 10 data = Valid n"
  shows "\<exists>v. gskb_long_unpack data = Some (v, n)"
  using assms
proof (cases rule: valid_long_cases)
  case 1
  then show ?thesis using gskb_int_unpack_if_valid [of data n] by (auto simp: gskb_long_unpack_def)
next
  case 2
  then show ?thesis by (auto simp: gskb_long_unpack_def Let_def)
next
  case (3 d4 m)
  then show ?thesis using gskb_int_unpack_if_valid [of "drop 5 data" m]
    by (auto simp: gskb_long_unpack_def Let_def)
qed

lemma gskb_ulong_unpack_if_valid:
  assumes "varint_size 10 data = Valid n"
  shows "\<exists>v. gskb_ulong_unpack data = Some (v, n)"
  using assms
proof (cases rule: valid_long_cases)
  case 1
  then show ?thesis using gskb_uint_unpack_if_valid [of data n] by (auto simp: gskb_ulong_unpack_def)
next
  case 2
  then show ?thesis by (auto simp: gskb_ulong_unpack_def Let_def)
next
  case (3 d4 m)
  then show ?thesis using gskb_uint_unpack_if_valid [of "drop 5 data" m]
    by (auto simp: gskb_ulong_unpack_def Let_def)
qed

text \<open>The decoders depend on no bytes behind the ones they count.\<close>

lemma data_at_append: "data_at xs i = Some d \<Longrightarrow> data_at (xs @ ys) i = Some d"
  by (simp add: data_at_def nth_append split: if_splits)

lemma bind_data_at_append:
  assumes "Option.bind (data_at xs i) f = Some r" "\<And>d. f d = Some r \<Longrightarrow> g d = Some r"
  shows "Option.bind (data_at (xs @ ys) i) g = Some r"
  using assms by (auto simp: bind_eq_Some_conv intro: data_at_append)

lemma if_Some_mono:
  assumes "(if P then a else b) = Some r" "a = Some r \<Longrightarrow> a' = Some r" "b = Some r \<Longrightarrow> b' = Some r"
  shows "(if P then a' else b') = Some r"
  using assms by (simp split: if_splits)

lemma ends_in_four_append: "ends_in_four xs = Some t \<Longrightarrow> ends_in_four (xs @ ys) = Some t"
  unfolding ends_in_four_def by (assumption | erule bind_data_at_append | erule if_Some_mono)+

lemma ends_in_four_length: "ends_in_four xs = Some False \<Longrightarrow> 4 \<le> length xs"
  by (auto simp: ends_in_four_def bind_eq_Some_conv data_at_def split: if_splits)

lemma four_septets_append:
  assumes "4 \<le> length xs"
  shows "four_septets (xs @ ys) = four_septets xs"
proof -
  have "k < 4 \<Longrightarrow> (xs @ ys) ! k = xs ! k" for k using assms by (simp add: nth_append)
  then show ?thesis by (simp only: four_septets_def)
qed

lemma gskb_uint_unpack_append:
  "gskb_uint_unpack xs = Some r \<Longrightarrow> gskb_uint_unpack (xs @ ys) = Some r"
  unfolding gskb_uint_unpack_def by (assumption | erule bind_data_at_append | erule if_Some_mono)+

lemma gskb_int_unpack_append:
  "gskb_int_unpack xs = Some r \<Longrightarrow> gskb_int_unpack (xs @ ys) = Some r"
  unfolding gskb_int_unpack_def by (assumption | erule bind_data_at_append | erule if_Some_mono)+

lemma data_at_4_drop: "data_at xs 4 = Some d \<Longrightarrow> drop 5 (xs @ ys) = drop 5 xs @ ys"
  by (simp add: data_at_def split: if_splits)

lemma gskb_long_unpack_append:
  assumes "gskb_long_unpack xs = Some r"
  shows "gskb_long_unpack (xs @ ys) = Some r"
proof (cases "ends_in_four xs")
  case (Some short)
  note four = ends_in_four_append [OF Some, of ys] Some
  show ?thesis
  proof (cases short)
    case True
    then obtain v rv where "gskb_int_unpack xs = Some (v, rv)"
      using assms Some by (auto simp: gskb_long_unpack_def bind_eq_Some_conv)
    then show ?thesis using assms four True by (simp add: gskb_long_unpack_def gskb_int_unpack_append)
  next
    case False
    then obtain d4 where d4: "data_at xs 4 = Some d4"
      using assms Some by (auto simp: gskb_long_unpack_def bind_eq_Some_conv)
    have "4 \<le> length xs" using ends_in_four_length Some False by simp
    note app = four_septets_append [OF this] data_at_append [OF d4] data_at_4_drop [OF d4]
    show ?thesis
    proof (cases "d4 AND 0x80 = 0")
      case True
      then show ?thesis using assms four False d4 by (simp add: gskb_long_unpack_def app)
    next
      case high: False
      then obtain hi rv where "gskb_int_unpack (drop 5 xs) = Some (hi, rv)"
        using assms Some False d4 by (auto simp: gskb_long_unpack_def bind_eq_Some_conv Let_def)
      then show ?thesis
        using assms four False d4 high by (simp add: gskb_long_unpack_def app gskb_int_unpack_append)
    qed
  qed
qed (use assms in \<open>simp add: gskb_long_unpack_def\<close>)

lemma gskb_ulong_unpack_append:
  assumes "gskb_ulong_unpack xs = Some r"
  shows "gskb_ulong_unpack (xs @ ys) = Some r"
proof (cases "ends_in_four xs")
  case (Some short)
  note four = ends_in_four_append [OF Some, of ys] Some
  show ?thesis
  proof (cases short)
    case True
    then obtain v rv where "gskb_uint_unpack xs = Some (v, rv)"
      using assms Some by (auto simp: gskb_ulong_unpack_def bind_eq_Some_conv)
    then show ?thesis using assms four True by (simp add: gskb_ulong_unpack_def gskb_uint_unpack_append)
  next
    case False
    then obtain d4 where d4: "data_at xs 4 = Some d4"
      using assms Some by (auto simp: gskb_ulong_unpack_def bind_eq_Some_conv)
    have "4 \<le> length xs" using ends_in_four_length Some False by simp
    note app = four_septets_append [OF this] data_at_append [OF d4] data_at_4_drop [OF d4]
    show ?thesis
    proof (cases "d4 AND 0x80 = 0")
      case True
      then show ?thesis using assms four False d4 by (simp add: gskb_ulong_unpack_def app)
    next
      case high: False
      then obtain hi rv where "gskb_uint_unpack (drop 5 xs) = Some (hi, rv)"
        using assms Some False d4 by (auto simp: gskb_ulong_unpack_def bind_eq_Some_conv Let_def)
      then show ?thesis
        using assms four False d4 high by (simp add: gskb_ulong_unpack_def app gskb_uint_unpack_append)
    qed
  qed
qed (use assms in \<open>simp add: gskb_ulong_unpack_def\<close>)

lemma varint_size_take: "varint_size k data = Valid n \<Longrightarrow> n \<le> len \<Longrightarrow> varint_size k (take len data) = Valid n"
proof (induction k data arbitrary: n len rule: varint_size.induct)
  case (3 k d ds)
  have "0 < n" using varint_size_le [OF 3(2)] by simp
  then obtain l where l: "len = Suc l" using 3(3) by (cases len) simp_all
  show ?case
  proof (cases "d AND 0x80 = 0")
    case True
    then show ?thesis using 3(2) by (simp add: l)
  next
    case False
    then obtain m where "varint_size k ds = Valid m" "n = Suc m" using 3(2) by (auto split: checked.splits)
    then show ?thesis using 3(1) [OF False, of m l] 3(3) False by (simp add: l)
  qed
qed simp_all

subsection \<open>A validator and its decoder\<close>

text \<open>What a validator that ignores its length still promises to a caller: the count is the one
  the decoder uses, and the decoder looks at no other bytes.  The length is left to the
  caller.\<close>

locale validated_decoder =
  fixes validate :: "nat \<Rightarrow> u8 list \<Rightarrow> nat checked"
    and unpack :: "u8 list \<Rightarrow> ('a \<times> nat) option"
    and max_size :: nat
  assumes validate_size: "validate len data = varint_size max_size data"
    and unpack_valid: "varint_size max_size data = Valid n \<Longrightarrow> \<exists>v. unpack data = Some (v, n)"
    and unpack_append: "unpack xs = Some r \<Longrightarrow> unpack (xs @ ys) = Some r"
begin

lemma checked_unpack:
  assumes "validate len data = Valid n" "n \<le> len"
  shows "\<exists>v. unpack (take len data) = Some (v, n) \<and> unpack data = Some (v, n)"
proof -
  have "varint_size max_size (take len data) = Valid n"
    using assms by (auto simp: validate_size intro: varint_size_take)
  then obtain v where v: "unpack (take len data) = Some (v, n)" using unpack_valid by blast
  then show ?thesis using unpack_append [OF v, of "drop len data"] by simp
qed

lemma validate_beyond_length:
  assumes "\<forall>d \<in> set data. bit d 7" "\<not> bit d 7" "length data < max_size"
  shows "validate len (data @ d # rest) = Valid (Suc (length data))"
proof -
  have "length data < k \<Longrightarrow> varint_size k (data @ d # rest) = Valid (Suc (length data))" for k
    using assms(1)
  proof (induction data arbitrary: k)
    case Nil
    then show ?case using assms(2) by (cases k) (simp_all add: and_0x80)
  next
    case (Cons c cs)
    then show ?case by (cases k) (simp_all add: and_0x80)
  qed
  then show ?thesis using assms(3) by (simp add: validate_size)
qed

lemma validate_truncated:
  assumes "\<forall>d \<in> set data. bit d 7" "length data < max_size"
  shows "validate len data = Out_Of_Bounds"
proof -
  have "length data < k \<Longrightarrow> varint_size k data = Out_Of_Bounds" for k
    using assms(1)
  proof (induction data arbitrary: k)
    case Nil
    then show ?case by (cases k) simp_all
  next
    case (Cons d ds)
    then show ?case by (cases k) (simp_all add: and_0x80)
  qed
  then show ?thesis using assms(2) by (simp add: validate_size)
qed

end

interpretation uint_code: validated_decoder gskb_uint_validate_partial gskb_uint_unpack 5
  by unfold_locales (simp_all add: gskb_validate_varint_size gskb_uint_unpack_if_valid gskb_uint_unpack_append)

interpretation int_code: validated_decoder gskb_int_validate_partial gskb_int_unpack 5
  by unfold_locales (simp_all add: gskb_validate_varint_size gskb_int_unpack_if_valid gskb_int_unpack_append)

interpretation ulong_code: validated_decoder gskb_ulong_validate_partial gskb_ulong_unpack 10
  by unfold_locales (simp_all add: gskb_long_validate_varint_size gskb_ulong_unpack_if_valid gskb_ulong_unpack_append)

interpretation long_code: validated_decoder gskb_long_validate_partial gskb_long_unpack 10
  by unfold_locales (simp_all add: gskb_long_validate_varint_size gskb_long_unpack_if_valid gskb_long_unpack_append)

text \<open>What the encoders write: bytes with the continuation bit, then one without.\<close>

definition varint_form :: "u8 list \<Rightarrow> bool" where
  "varint_form bs \<longleftrightarrow> bs \<noteq> [] \<and> (\<forall>b \<in> set (butlast bs). bit b 7) \<and> \<not> bit (last bs) 7"

lemma varint_size_form:
  "varint_form bs \<Longrightarrow> length bs \<le> k \<Longrightarrow> varint_size k (bs @ rest) = Valid (length bs)"
proof (induction bs arbitrary: k)
  case (Cons b bs)
  then show ?case
    by (cases k; cases "bs = []") (auto simp: varint_form_def septet_simps)
qed (simp add: varint_form_def)

lemma varint_form_cont:
  "varint_form (ulong_cont v n @ bs)" "varint_form (long_cont v n @ bs)" if "varint_form bs"
  using that by (auto simp: varint_form_def ulong_cont_def long_cont_def butlast_append septet_simps)

lemma varint_form_uint: "varint_form (gskb_uint_pack_slab v)"
proof (cases v rule: uint_size_cases)
  case 1
  then show ?thesis using last_septet_u32 [OF 1(1), of 0]
    by (simp add: varint_form_def gskb_uint_pack_slab_def)
next
  case 2
  then show ?thesis using last_septet_u32 [OF 2(2), of 7]
    by (simp add: varint_form_def gskb_uint_pack_slab_def septet_simps)
next
  case 3
  then show ?thesis using last_septet_u32 [OF 3(3), of 14]
    by (simp add: varint_form_def gskb_uint_pack_slab_def septet_simps)
next
  case 4
  then show ?thesis using last_septet_u32 [OF 4(4), of 21]
    by (simp add: varint_form_def gskb_uint_pack_slab_def septet_simps)
next
  case 5
  then show ?thesis
    by (simp add: varint_form_def gskb_uint_pack_slab_def septet_simps) (auto simp: bit_simps dest: bit_imp_le_length)
qed

lemma varint_form_int: "varint_form (gskb_int_pack_slab v)"
  by (simp add: varint_form_def gskb_int_pack_slab_def septet_simps)

lemma varint_form_ulong: "varint_form (gskb_ulong_pack_slab v)"
proof (cases "v < 2 ^ 35")
  case True
  have "varint_form [ucast (drop_bit 28 v) :: u8]"
    using word_less_bit [OF True, of 35] by (auto simp: varint_form_def bit_simps)
  with True show ?thesis
    by (auto simp: gskb_ulong_pack_slab_def varint_form_uint varint_form_cont)
qed (simp add: gskb_ulong_pack_slab_high varint_form_uint varint_form_cont)

lemma varint_form_long: "varint_form (gskb_long_pack_slab v)"
proof -
  have "varint_form [ucast (x AND 0x7f) :: u8]" for x :: u64
    by (simp add: varint_form_def septet_simps)
  then show ?thesis
    by (simp add: gskb_long_pack_slab_def varint_form_int varint_form_cont)
qed

lemma packed_size_bounds:
  "gskb_uint_get_packed_size v \<le> 5" "gskb_int_get_packed_size v \<le> 5"
  "gskb_ulong_get_packed_size x \<le> 10" "gskb_long_get_packed_size x \<le> 10"
proof -
  show *: "gskb_uint_get_packed_size v \<le> 5" "gskb_int_get_packed_size v \<le> 5" for v
    by (simp_all add: gskb_uint_get_packed_size_def gskb_int_get_packed_size_def)
  show "gskb_ulong_get_packed_size x \<le> 10" "gskb_long_get_packed_size x \<le> 10"
    using *(1) [of "ucast x"] *(1) [of "ucast (drop_bit 35 x)"] *(2) [of "ucast x"] *(2) [of "ucast (signed_drop_bit 35 x)"]
    by (simp_all add: gskb_ulong_get_packed_size_def gskb_long_get_packed_size_def)
qed

text \<open>No shorter sequence of bytes decodes to the same value.\<close>

lemma word_less_if_bits:
  assumes "\<And>m. bit (v :: 'a::len word) m \<Longrightarrow> m < k" "k < LENGTH('a)"
  shows "v < 2 ^ k"
proof -
  have "take_bit k v = v" using assms(1) by (auto intro!: bit_word_eqI simp: bit_take_bit_iff)
  then have "unat v = take_bit k (unat v)" by (metis unsigned_take_bit_eq)
  then have "unat v < 2 ^ k" by (metis take_bit_nat_less_exp)
  then show ?thesis using assms(2) by (simp add: word_less_nat_alt unat_exp)
qed

lemma bit_septetD:
  "bit (push_bit a (ucast (d AND 0x7f)) :: u32) m \<Longrightarrow> m < a + 7"
  "bit (ucast ((d :: u8) AND 0x7f) :: u32) m \<Longrightarrow> m < 7"
  "bit (push_bit a (ucast d) :: u32) m \<Longrightarrow> \<not> bit d 7 \<Longrightarrow> m < a + 7"
  "bit (ucast d :: u32) m \<Longrightarrow> \<not> bit d 7 \<Longrightarrow> m < 7"
proof -
  have b: "m < 7" if "bit d m" "\<not> bit d 7" for d :: u8 and m
    using that bit_imp_le_length [OF that(1)] by (cases "m = 7") auto
  show "bit (push_bit a (ucast (d AND 0x7f)) :: u32) m \<Longrightarrow> m < a + 7"
    "bit (ucast ((d :: u8) AND 0x7f) :: u32) m \<Longrightarrow> m < 7" by (auto simp: bit_simps)
  assume "\<not> bit d 7"
  then show "bit (push_bit a (ucast d) :: u32) m \<Longrightarrow> m < a + 7" "bit (ucast d :: u32) m \<Longrightarrow> m < 7"
    by (auto simp: bit_simps dest!: b)
qed

lemma gskb_uint_unpack_less:
  assumes "gskb_uint_unpack data = Some (v, n)"
  shows "n \<in> {1, 2, 3, 4, 5} \<and> (n < 5 \<longrightarrow> v < 2 ^ (7 * n))"
proof -
  have "n \<in> {1, 2, 3, 4, 5} \<and> (n < 5 \<longrightarrow> (\<forall>m. bit v m \<longrightarrow> m < 7 * n))"
    using assms unfolding gskb_uint_unpack_def and_0x80
    by (auto simp: bind_eq_Some_conv bit_or_iff dest!: bit_septetD split: if_splits)
  then show ?thesis by (auto intro!: word_less_if_bits)
qed

lemma gskb_uint_pack_minimal:
  assumes "gskb_uint_unpack data = Some (v, n)"
  shows "gskb_uint_get_packed_size v \<le> n"
  using gskb_uint_unpack_less [OF assms] by (auto simp: gskb_uint_get_packed_size_def)

text \<open>\<open>gskb_uint_validate_unpack\<close> stores the right value; the number it returns is the
  accumulated low part of the value plus one, not the number of bytes.\<close>

lemma join_take_septets:
  fixes v :: "'a::len word"
  shows "take_bit 7 v OR push_bit 7 (take_bit 7 (drop_bit 7 v)) = take_bit 14 v"
    "take_bit 14 v OR push_bit 14 (take_bit 7 (drop_bit 14 v)) = take_bit 21 v"
    "take_bit 21 v OR push_bit 21 (take_bit 7 (drop_bit 21 v)) = take_bit 28 v"
    "take_bit 7 v OR push_bit 7 (drop_bit 7 v) = v"
    "take_bit 14 v OR push_bit 14 (drop_bit 14 v) = v"
    "take_bit 21 v OR push_bit 21 (drop_bit 21 v) = v"
    "take_bit 28 v OR push_bit 28 (drop_bit 28 v) = v"
  by (rule bit_word_eqI; auto simp: join_bits)+

lemma uint_validate_loop_step:
  "i < 5 \<Longrightarrow> i < len \<Longrightarrow> i < length data \<Longrightarrow> bit (data ! i) 7 \<Longrightarrow>
     uint_validate_loop len data i acc shift
       = uint_validate_loop len data (Suc i) (acc OR push_bit shift (ucast (data ! i AND 0x7f))) (shift + 7)"
  "i < 5 \<Longrightarrow> i < len \<Longrightarrow> i < length data \<Longrightarrow> \<not> bit (data ! i) 7 \<Longrightarrow>
     uint_validate_loop len data i acc shift = Valid (acc OR push_bit shift (ucast (data ! i)), acc + 1)"
  by (simp_all add: uint_validate_loop.simps [of len data i] data_at_def septet_simps)

lemmas uint_vu = gskb_uint_validate_unpack_def gskb_uint_pack_slab_def

lemma gskb_uint_validate_unpack_pack_slab:
  assumes "gskb_uint_get_packed_size v \<le> len"
  shows "gskb_uint_validate_unpack len (gskb_uint_pack_slab v @ rest)
     = Valid (v, take_bit (7 * (gskb_uint_get_packed_size v - 1)) v + 1)"
proof (cases v rule: uint_size_cases)
  case 1
  then show ?thesis using assms last_septet_u32 [OF 1(1), of 0]
    by (simp add: uint_vu uint_validate_loop_step septet_simps)
next
  case 2
  then show ?thesis using assms last_septet_u32 [OF 2(2), of 7]
    by (simp add: uint_vu uint_validate_loop_step septet_simps join_take_septets)
next
  case 3
  then show ?thesis using assms last_septet_u32 [OF 3(3), of 14]
    by (simp add: uint_vu uint_validate_loop_step septet_simps join_take_septets)
next
  case 4
  then show ?thesis using assms last_septet_u32 [OF 4(4), of 21]
    by (simp add: uint_vu uint_validate_loop_step septet_simps join_take_septets)
next
  case 5
  have "\<not> bit (ucast (drop_bit 28 v) :: u8) 7" by (auto simp: bit_simps dest: bit_imp_le_length)
  then show ?thesis using assms 5
    by (simp add: uint_vu uint_validate_loop_step septet_simps
      join_take_septets last_septet_28_u32)
qed

lemma gskb_int8_unpack_pack_slab:
  "gskb_int8_unpack (gskb_int8_pack_slab u @ rest) = Some (u, 1)"
  "gskb_uint8_unpack (gskb_uint8_pack_slab u @ rest) = Some (u, 1)"
  "gskb_bit_unpack (gskb_bit_pack_slab u @ rest) = Some (u, 1)"
  by (simp_all add: gskb_int8_unpack_def gskb_int8_pack_slab_def gskb_uint8_unpack_def
      gskb_uint8_pack_slab_def gskb_bit_unpack_def gskb_bit_pack_slab_def data_at_def)

lemma gskb_signed_unpack:
  "gskb_int16_unpack data = gskb_uint16_unpack data"
  "gskb_int32_unpack data = gskb_uint32_unpack data"
  "gskb_int64_unpack data = gskb_uint64_unpack data"
proof -
  have hi: "push_bit 32 (scast w) = (push_bit 32 (ucast w) :: u64)" for w :: u32
  proof (rule bit_word_eqI)
    fix n assume "n < LENGTH(64)"
    then show "bit (push_bit 32 (scast w) :: u64) n = bit (push_bit 32 (ucast w) :: u64) n"
      by (cases "n = 63") (auto simp: bit_simps min_def)
  qed
  show "gskb_int16_unpack data = gskb_uint16_unpack data"
    by (simp add: gskb_int16_unpack_def gskb_uint16_unpack_def)
  show *: "gskb_int32_unpack data = gskb_uint32_unpack data" for data
    by (simp add: gskb_int32_unpack_def gskb_uint32_unpack_def)
  show "gskb_int64_unpack data = gskb_uint64_unpack data"
    by (simp add: gskb_int64_unpack_def gskb_uint64_unpack_def * hi)
qed

section \<open>Packing through an append function\<close>

text \<open>Whatever keeps the contract of an append function ends up with the bytes of the
  slab behind what it had.\<close>

lemmas pack_defs = gskb_uint_pack_def gskb_int_pack_def gskb_ulong_pack_def gskb_long_pack_def
  gskb_string_pack_def

context append_sink
begin

lemma pack_small:
  "inv s \<Longrightarrow> length d \<le> 10 \<Longrightarrow> inv (put d s) \<and> bytes (put d s) = bytes s @ d"
  using put_inv [of s d] put_bytes [of s d] by simp

lemma uint_pack_ok:
  "inv s \<Longrightarrow> inv (gskb_uint_pack v put s) \<and> bytes (gskb_uint_pack v put s) = bytes s @ gskb_uint_pack_slab v"
  using packed_size_bounds(1) [of v] by (simp add: pack_defs pack_small length_gskb_uint_pack_slab)

lemma int_pack_ok:
  "inv s \<Longrightarrow> inv (gskb_int_pack v put s) \<and> bytes (gskb_int_pack v put s) = bytes s @ gskb_int_pack_slab v"
  using packed_size_bounds(2) [of v] by (simp add: pack_defs pack_small length_gskb_int_pack_slab)

lemma ulong_pack_ok:
  "inv s \<Longrightarrow> inv (gskb_ulong_pack x put s) \<and> bytes (gskb_ulong_pack x put s) = bytes s @ gskb_ulong_pack_slab x"
  using packed_size_bounds(3) [of x] by (simp add: pack_defs pack_small length_gskb_ulong_pack_slab)

lemma long_pack_ok:
  "inv s \<Longrightarrow> inv (gskb_long_pack x put s) \<and> bytes (gskb_long_pack x put s) = bytes s @ gskb_long_pack_slab x"
  using packed_size_bounds(4) [of x] by (simp add: pack_defs pack_small length_gskb_long_pack_slab)

lemma string_pack_ok:
  "inv s \<Longrightarrow> length str + 1 < 2 ^ 32 \<Longrightarrow>
     inv (gskb_string_pack str put s) \<and> bytes (gskb_string_pack str put s) = bytes s @ gskb_string_pack_slab str"
  using put_inv [of s "str @ [0]"] put_bytes [of s "str @ [0]"]
  by (simp add: pack_defs gskb_string_pack_slab_def)

lemma unknown_value_pack_ok:
  assumes "inv s"
  shows "inv (gskb_unknown_value_pack uv put s) \<and>
    bytes (gskb_unknown_value_pack uv put s) = bytes s @ gskb_unknown_value_pack_slab uv"
proof -
  let ?d = "take (unat (uv_length uv)) (uv_data uv)"
  have "length ?d < 2 ^ 32" using unat_u32_bound [of "uv_length uv"] by (simp add: min_def del: unat_u32_bound)
  with assms uint_pack_ok [of s "uv_code uv"] uint_pack_ok [of "gskb_uint_pack (uv_code uv) put s" "uv_length uv"]
  show ?thesis
    using put_inv [of _ ?d] put_bytes [of _ ?d]
    by (simp add: gskb_unknown_value_pack_def gskb_unknown_value_pack_slab_def)
qed

end

end
