(* ===== verification/Gskb_Properties.thy ===== *)
theory Gskb_Properties
  imports Gskb_Roundtrip Gsk_Buffer_Properties
begin

text \<open>
  What the fundamental formats of \<^verbatim>\<open>src/src/batch/gskb-fundamental-formats.h\<close> promise, and
  how they work together with \<^verbatim>\<open>GskBuffer\<close> as the receiver of the packed bytes.
\<close>

section \<open>Round trips\<close>

text \<open>C3: Whatever 64-bit value is packed as a \<open>long\<close> or \<open>ulong\<close>, and whatever follows it
  in the data, unpacking gives the value back and consumes exactly the bytes that
  \<open>get_packed_size\<close> announced and \<open>pack_slab\<close> wrote.\<close>

theorem long_roundtrip:
  "gskb_long_unpack (gskb_long_pack_slab v @ rest) = Some (v, gskb_long_get_packed_size v) \<and>
   length (gskb_long_pack_slab v) = gskb_long_get_packed_size v \<and>
   gskb_ulong_unpack (gskb_ulong_pack_slab v @ rest) = Some (v, gskb_ulong_get_packed_size v) \<and>
   length (gskb_ulong_pack_slab v) = gskb_ulong_get_packed_size v"
  by (simp add: gskb_long_unpack_pack_slab gskb_ulong_unpack_pack_slab length_gskb_long_pack_slab
      length_gskb_ulong_pack_slab)

text \<open>The same for the 32-bit \<open>int\<close> and \<open>uint\<close>.\<close>

theorem int_roundtrip:
  "gskb_int_unpack (gskb_int_pack_slab v @ rest) = Some (v, gskb_int_get_packed_size v) \<and>
   length (gskb_int_pack_slab v) = gskb_int_get_packed_size v \<and>
   gskb_uint_unpack (gskb_uint_pack_slab v @ rest) = Some (v, gskb_uint_get_packed_size v) \<and>
   length (gskb_uint_pack_slab v) = gskb_uint_get_packed_size v"
  by (simp add: gskb_int_unpack_pack_slab gskb_uint_unpack_pack_slab length_gskb_int_pack_slab
      length_gskb_uint_pack_slab)

text \<open>The fixed-width integers round-trip in little-endian order, and the signed variants
  write and read the same bytes as the unsigned ones.\<close>

theorem fixed_width_roundtrip:
  "gskb_uint16_unpack (gskb_uint16_pack_slab v @ rest) = Some (v, 2) \<and>
   gskb_uint32_unpack (gskb_uint32_pack_slab w @ rest) = Some (w, 4) \<and>
   gskb_uint64_unpack (gskb_uint64_pack_slab x @ rest) = Some (x, 8) \<and>
   gskb_int16_unpack (gskb_int16_pack_slab v @ rest) = Some (v, 2) \<and>
   gskb_int32_unpack (gskb_int32_pack_slab w @ rest) = Some (w, 4) \<and>
   gskb_int64_unpack (gskb_int64_pack_slab x @ rest) = Some (x, 8)"
  by (simp add: gskb_fixed_unpack_pack_slab gskb_uint64_unpack_pack_slab gskb_signed_pack_slab
      gskb_signed_unpack)

text \<open>A string without NUL round-trips, and is validated when the length covers it.\<close>

theorem string_roundtrip:
  assumes "0 \<notin> set s" "gskb_string_get_packed_size s \<le> len"
  shows "gskb_string_unpack (gskb_string_pack_slab s @ rest) = Some (s, gskb_string_get_packed_size s) \<and>
    gskb_string_validate_partial len (gskb_string_pack_slab s @ rest) = Valid (gskb_string_get_packed_size s)"
proof -
  have "take len (s @ 0 # rest) = s @ 0 # take (len - Suc (length s)) rest"
    using assms(2) by (auto simp: gskb_string_get_packed_size_def take_Cons')
  then show ?thesis
    using gskb_string_unpack_pack_slab [OF assms(1)] string_unpack_len_eq [OF assms(1)]
    by (simp add: gskb_string_validate_partial_def gskb_string_pack_slab_def gskb_string_get_packed_size_def
        string_unpack_len_memchr)
qed

theorem string_roundtrip_witness:
  "gskb_string_unpack (gskb_string_pack_slab [104, 105] @ [1, 2]) = Some ([104, 105], 3)"
  using string_roundtrip [of "[104, 105]" 5 "[1, 2]"] by (simp add: gskb_string_get_packed_size_def)

section \<open>Validation\<close>

text \<open>C7: The number of bytes that a validator of a variable-length integer accepts is the number
  that the decoder uses: if a caller finds that this number is within its length, the decoder
  succeeds on the bytes within the length alone, with that number of bytes, and bytes behind
  them do not change the value.  The comparison is left to the caller: the validators
  themselves ignore the length.\<close>

theorem validated_data_unpacks:
  assumes "n \<le> len"
  shows "(gskb_uint_validate_partial len data = Valid n \<longrightarrow>
      (\<exists>v. gskb_uint_unpack (take len data) = Some (v, n) \<and> gskb_uint_unpack data = Some (v, n))) \<and>
    (gskb_int_validate_partial len data = Valid n \<longrightarrow>
      (\<exists>v. gskb_int_unpack (take len data) = Some (v, n) \<and> gskb_int_unpack data = Some (v, n))) \<and>
    (gskb_ulong_validate_partial len data = Valid n \<longrightarrow>
      (\<exists>v. gskb_ulong_unpack (take len data) = Some (v, n) \<and> gskb_ulong_unpack data = Some (v, n))) \<and>
    (gskb_long_validate_partial len data = Valid n \<longrightarrow>
      (\<exists>v. gskb_long_unpack (take len data) = Some (v, n) \<and> gskb_long_unpack data = Some (v, n)))"
  using assms uint_code.checked_unpack int_code.checked_unpack ulong_code.checked_unpack long_code.checked_unpack
  by simp

theorem validated_data_unpacks_witness:
  "\<exists>v. gskb_long_unpack [0x80, 0x80, 0x80, 0x80, 0x80, 1] = Some (v, 6) \<and>
     gskb_long_unpack [0x80, 0x80, 0x80, 0x80, 0x80, 1, 7] = Some (v, 6)"
proof -
  have "gskb_long_validate_partial 6 [0x80, 0x80, 0x80, 0x80, 0x80, 1, 7] = Valid 6" by code_simp
  then show ?thesis
    using validated_data_unpacks [of 6 6 "[0x80, 0x80, 0x80, 0x80, 0x80, 1, 7]"] by simp
qed

text \<open>What the encoders write is accepted by the validators, with the packed size.\<close>

theorem packed_data_validates:
  "gskb_uint_validate_partial len (gskb_uint_pack_slab v @ rest) = Valid (gskb_uint_get_packed_size v) \<and>
   gskb_int_validate_partial len (gskb_int_pack_slab v @ rest) = Valid (gskb_int_get_packed_size v) \<and>
   gskb_ulong_validate_partial len (gskb_ulong_pack_slab x @ rest) = Valid (gskb_ulong_get_packed_size x) \<and>
   gskb_long_validate_partial len (gskb_long_pack_slab x @ rest) = Valid (gskb_long_get_packed_size x)"
  using varint_size_form [OF varint_form_uint, of v 5] varint_size_form [OF varint_form_int, of v 5]
    varint_size_form [OF varint_form_ulong, of x 10] varint_size_form [OF varint_form_long, of x 10]
    packed_size_bounds
  by (simp add: gskb_validate_varint_size gskb_long_validate_varint_size length_gskb_uint_pack_slab
      length_gskb_int_pack_slab length_gskb_ulong_pack_slab length_gskb_long_pack_slab)

text \<open>The encoding of a \<open>uint\<close> is the shortest one: no sequence of bytes that decodes to
  the same value is shorter.\<close>

theorem uint_encoding_minimal:
  assumes "gskb_uint_unpack data = Some (v, n)"
  shows "length (gskb_uint_pack_slab v) \<le> n"
  using gskb_uint_pack_minimal [OF assms] by (simp add: length_gskb_uint_pack_slab)

theorem uint_encoding_minimal_witness:
  "gskb_uint_unpack [0x85, 0x80, 0] = Some (5, 3) \<and> length (gskb_uint_pack_slab 5) \<le> 3"
proof -
  have "gskb_uint_unpack [0x85, 0x80, 0] = Some (5, 3)" by code_simp
  then show ?thesis using uint_encoding_minimal by blast
qed

text \<open>C26: The validators of the variable-length integers do not look at the length they are
  given: on data that ends within the encoding they read behind it instead of reporting
  \<open>GSK_ERROR_TOO_SHORT\<close>, whatever the length, and if there happens to be a final byte behind the
  data they accept more bytes than the length.\<close>

theorem truncated_varint_reads_behind:
  assumes "\<forall>d \<in> set data. bit d 7" "length data < 5"
  shows "gskb_uint_validate_partial len data = Out_Of_Bounds \<and> gskb_int_validate_partial len data = Out_Of_Bounds \<and>
    gskb_ulong_validate_partial len data = Out_Of_Bounds \<and> gskb_long_validate_partial len data = Out_Of_Bounds \<and>
    (\<not> bit e 7 \<longrightarrow>
      gskb_uint_validate_partial (length data) (data @ e # rest) = Valid (Suc (length data)) \<and>
      gskb_int_validate_partial (length data) (data @ e # rest) = Valid (Suc (length data)) \<and>
      gskb_ulong_validate_partial (length data) (data @ e # rest) = Valid (Suc (length data)) \<and>
      gskb_long_validate_partial (length data) (data @ e # rest) = Valid (Suc (length data)))"
  using assms uint_code.validate_truncated int_code.validate_truncated ulong_code.validate_truncated
    long_code.validate_truncated uint_code.validate_beyond_length int_code.validate_beyond_length
    ulong_code.validate_beyond_length long_code.validate_beyond_length
  by simp

theorem truncated_varint_reads_behind_witness:
  "gskb_uint_validate_partial 1 [0x80] = Out_Of_Bounds \<and> gskb_long_validate_partial 1 [0x80] = Out_Of_Bounds \<and>
   gskb_uint_validate_partial 1 [0x80, 0] = Valid 2"
proof -
  have "\<forall>d \<in> set [0x80 :: u8]. bit d 7" "\<not> bit (0 :: u8) 7" by simp_all
  then show ?thesis using truncated_varint_reads_behind [of "[0x80]" 1 0 "[]"] by simp
qed

text \<open>\<open>gskb_uint_validate_unpack\<close> stores the packed value, but what it returns as the
  number of bytes is the accumulated low part of the value plus one.\<close>

theorem uint_validate_unpack_result:
  assumes "gskb_uint_get_packed_size v \<le> len"
  shows "gskb_uint_validate_unpack len (gskb_uint_pack_slab v @ rest)
     = Valid (v, take_bit (7 * (gskb_uint_get_packed_size v - 1)) v + 1)"
  using assms by (rule gskb_uint_validate_unpack_pack_slab)

section \<open>Packing into a buffer\<close>

text \<open>C6: A \<open>long\<close>, a \<open>uint\<close> and a string packed one after the other through
  \<open>gsk_buffer_append\<close> arrive behind what the buffer held, and decode, in that order, from
  the bytes read out of the buffer.\<close>

theorem pack_into_buffer:
  assumes "queue_inv s" "0 \<notin> set str" "length str + 1 < 2 ^ 32"
  shows "\<exists>data. contents (fst (gskb_string_pack str buffer_put (gskb_uint_pack w buffer_put
        (gskb_long_pack v buffer_put s)))) = contents (fst s) @ data \<and>
      gskb_long_unpack data = Some (v, gskb_long_get_packed_size v) \<and>
      gskb_uint_unpack (drop (gskb_long_get_packed_size v) data) = Some (w, gskb_uint_get_packed_size w) \<and>
      gskb_string_unpack (drop (gskb_long_get_packed_size v + gskb_uint_get_packed_size w) data)
        = Some (str, length str + 1)"
proof -
  let ?s1 = "gskb_long_pack v buffer_put s"
  let ?s2 = "gskb_uint_pack w buffer_put ?s1"
  have s1: "queue_inv ?s1" "contents (fst ?s1) = contents (fst s) @ gskb_long_pack_slab v"
    using buffer_queue.long_pack_ok [OF assms(1)] by blast+
  have s2: "queue_inv ?s2" "contents (fst ?s2) = contents (fst ?s1) @ gskb_uint_pack_slab w"
    using buffer_queue.uint_pack_ok [OF s1(1)] by blast+
  have s3: "contents (fst (gskb_string_pack str buffer_put ?s2)) = contents (fst ?s2) @ gskb_string_pack_slab str"
    using buffer_queue.string_pack_ok [OF s2(1) assms(3)] by blast
  show ?thesis
    by (rule exI [of _ "gskb_long_pack_slab v @ gskb_uint_pack_slab w @ gskb_string_pack_slab str"])
      (use gskb_string_unpack_pack_slab [OF assms(2), of "[]"] in
        \<open>simp add: s1 s2 s3 gskb_long_unpack_pack_slab gskb_uint_unpack_pack_slab length_gskb_long_pack_slab
          length_gskb_uint_pack_slab gskb_string_get_packed_size_def\<close>)
qed

theorem pack_into_buffer_witness:
  "\<exists>data. contents (fst (gskb_string_pack [104, 105] buffer_put (gskb_uint_pack 300 buffer_put
        (gskb_long_pack 5 buffer_put (gsk_buffer_construct, blank_allocator))))) = data \<and>
      gskb_long_unpack data = Some (5, gskb_long_get_packed_size 5)"
  using pack_into_buffer [of "(gsk_buffer_construct, blank_allocator)" "[104, 105]" 300 5]
  by (auto simp: queue_inv_def)

end
