(* ===== verification/Gsk_Base64.thy ===== *)
theory Gsk_Base64
  imports Gsk_Prelude
begin

text \<open>
  Base64, \<^verbatim>\<open>src/src/common/gskbase64.c\<close>: the alphabet and its inverse table, the decoder with
  its partial byte, the encoder with its carry, and the two allocating wrappers.  The
  source is a list of the bytes that may be read, the NUL of a C string included; None
  means that the code reads behind them.  The lemmas show that the decoder inverts the
  encoder, that the output fits the buffer sizes computed by the macros, and where the
  decoding loop reads one byte too many.
\<close>

section \<open>Tables\<close>

definition to_base64 :: "u8 list" where
  "to_base64 = map of_char ''ABCDEFGHIJKLMNOPQRSTUVWXYZabcdefghijklmnopqrstuvwxyz0123456789+/''"

definition end_marker :: u8 where
  "end_marker = of_char (CHR ''='')"

text \<open>The loop stores \<open>val++\<close> at each character of the alphabet.\<close>

fun init_table_loop :: "u8 list \<Rightarrow> u8 \<Rightarrow> (u8 \<Rightarrow> u8) \<Rightarrow> u8 \<Rightarrow> u8" where
  "init_table_loop [] val table = table"
| "init_table_loop (at # rest) val table = init_table_loop rest (val + 1) (table(at := val))"

definition from_base64_table :: "u8 \<Rightarrow> u8" where
  "from_base64_table = init_table_loop to_base64 0 (\<lambda>_. 255)"

section \<open>Decoding\<close>

text \<open>The loop, with \<open>src\<close> as an index into the readable bytes.  \<open>dst_len_max\<close> is a C
  \<open>int\<close>, \<open>num_bits\<close> is 0, 2, 4 or 6.  The character is tested against \<open>'='\<close> before
  the end of the source is.\<close>

function decode_loop :: "u8 list \<Rightarrow> nat \<Rightarrow> nat \<Rightarrow> int \<Rightarrow> nat \<Rightarrow> u8 \<Rightarrow> u8 list option" where
  "decode_loop src i end_src dst_len_max num_bits part =
     (if dst_len_max \<le> 0 then Some []
      else if length src \<le> i then None
      else if src ! i = end_marker then Some []
      else if end_src \<le> i then Some []
      else
        (let src_6bits = from_base64_table (src ! i)
         in if src_6bits = 255 then decode_loop src (Suc i) end_src dst_len_max num_bits part
            else if num_bits = 0 then
              decode_loop src (Suc i) end_src dst_len_max 6 (push_bit 2 src_6bits)
            else
              (let out = part OR drop_bit (num_bits - 2) src_6bits;
                   num_bits' = num_bits - 2
               in map_option ((#) out)
                    (decode_loop src (Suc i) end_src (dst_len_max - 1) num_bits'
                       (if num_bits' = 0 then 0 else push_bit (8 - num_bits') src_6bits)))))"
  by pat_completeness auto
termination
  by (relation "measure (\<lambda>(src, i, end_src, dst_len_max, num_bits, part). length src - i)") auto

declare decode_loop.simps [simp del]

definition gsk_base64_decode_internal :: "int \<Rightarrow> u8 list \<Rightarrow> nat \<Rightarrow> u8 list option" where
  "gsk_base64_decode_internal dst_len_max src src_len = decode_loop src 0 src_len dst_len_max 0 0"

text \<open>A negative \<open>src_len\<close> means a NUL-terminated source.  The \<open>guint\<close> length of the
  destination becomes an \<open>int\<close>.\<close>

definition gsk_base64_decode :: "u32 \<Rightarrow> u8 list \<Rightarrow> int \<Rightarrow> u8 list option" where
  "gsk_base64_decode dst_len src src_len =
     (if src_len < 0 then
        (case memchr 0 src of
           None \<Rightarrow> None
         | Some len \<Rightarrow> gsk_base64_decode_internal (sint dst_len) src len)
      else gsk_base64_decode_internal (sint dst_len) src (nat src_len))"

text \<open>\<open>src\<close> is the C string without its NUL; the array returned has the decoded
  length.  The lengths are C \<open>int\<close>s: None when their product overflows, and when the
  assertion \<open>rv->len > rv_size\<close> fails.\<close>

definition gsk_base64_decode_alloc :: "u8 list \<Rightarrow> u8 list option" where
  "gsk_base64_decode_alloc src =
     (let len = (case memchr end_marker src of None \<Rightarrow> length src | Some e \<Rightarrow> e)
      in if 2 ^ 31 \<le> len * 6 + 7 then None
         else
           (let decoded_len = (len * 6 + 7) div 8
            in case gsk_base64_decode_internal (int decoded_len) (src @ [0]) len of
                 None \<Rightarrow> None
               | Some out \<Rightarrow> if length out \<le> decoded_len then Some out else None))"

section \<open>Encoding\<close>

text \<open>\<open>num_bits\<close> is 0, 2 or 4.\<close>

fun encode_loop :: "nat \<Rightarrow> u8 \<Rightarrow> u8 list \<Rightarrow> u8 list" where
  "encode_loop num_bits carry [] = (if num_bits \<noteq> 0 then [to_base64 ! unat carry] else [])"
| "encode_loop num_bits carry (cur # src) =
     (let use = 6 - num_bits;
          carry' = carry OR ucast (drop_bit (8 - use) (ucast cur :: u32))
      in to_base64 ! unat carry' #
           (if use = 2 then to_base64 ! unat (ucast cur AND 63 :: u32) # encode_loop 0 0 src
            else
              (let num_bits' = 8 - use
               in encode_loop num_bits' (ucast (push_bit (6 - num_bits') (ucast cur :: u32) AND 63)) src)))"

definition gsk_base64_encode :: "u8 list \<Rightarrow> u8 list" where
  "gsk_base64_encode src = encode_loop 0 0 src @ [end_marker]"

text \<open>The macros, at the \<open>unsigned\<close> width that \<open>gsk_base64_encode_alloc\<close> and the HTTP header parser
  use them with.\<close>

definition GSK_BASE64_GET_ENCODED_LEN :: "u32 \<Rightarrow> u32" where
  "GSK_BASE64_GET_ENCODED_LEN len = (len * 8 + 5) div 6 + 1"

definition GSK_BASE64_GET_MAX_DECODED_LEN :: "u32 \<Rightarrow> u32" where
  "GSK_BASE64_GET_MAX_DECODED_LEN len = (len * 6 + 7) div 8"

text \<open>The result is the allocated block.  None when the source is read behind its end, or
  when the encoding does not fit the block of \<open>enc_len + 1\<close> bytes.\<close>

definition gsk_base64_encode_alloc :: "u8 list \<Rightarrow> int \<Rightarrow> u8 list option" where
  "gsk_base64_encode_alloc src src_len =
     (case (if 0 \<le> src_len then (if nat src_len \<le> length src then Some (nat src_len) else None)
            else memchr 0 src) of
        None \<Rightarrow> None
      | Some len \<Rightarrow>
          (let raw_len = of_nat len :: u32;
               enc_len = unat (GSK_BASE64_GET_ENCODED_LEN raw_len);
               buf_size = unat (GSK_BASE64_GET_ENCODED_LEN raw_len + 1);
               buf = gsk_base64_encode (take (unat raw_len) src)
           in if length buf \<le> buf_size then Some (take enc_len buf @ [0]) else None))"

section \<open>The tables are inverse\<close>

lemma table_inverse_all:
  "list_all (\<lambda>i. from_base64_table (to_base64 ! i) = of_nat i) [0..<64]"
  by code_simp

lemma length_to_base64: "length to_base64 = 64"
  by (simp add: to_base64_def)

lemma from_to_base64: "unat v < 64 \<Longrightarrow> from_base64_table (to_base64 ! unat v) = v"
  using table_inverse_all by (simp add: list_all_iff)

lemma end_marker_not_in_alphabet: "list_all (\<lambda>c. c \<noteq> end_marker) to_base64"
  by code_simp

lemma to_base64_not_end: "unat v < 64 \<Longrightarrow> to_base64 ! unat v \<noteq> end_marker"
  using end_marker_not_in_alphabet by (simp add: list_all_length length_to_base64)

lemma six_bits_not_255: "unat (v :: u8) < 64 \<Longrightarrow> v \<noteq> 255"
  by auto

section \<open>The decoder inverts the encoder\<close>

lemma and_masks: "x AND 63 = take_bit 6 x" for x :: "'a::len word"
  by (simp add: take_bit_eq_mask mask_eq_exp_minus_1)

lemma unat_ucast_u8_u32: "unat (ucast (a :: u8) :: u32) = unat a"
proof -
  have "unat a < 2 ^ 32" using unat_u8_bound [of a] by (simp add: less_trans [of _ 256])
  then show ?thesis by (simp add: unsigned_ucast_eq take_bit_nat_eq_self)
qed

lemma carry_bits:
  fixes b c :: u8
  shows "(ucast (push_bit 4 (ucast b :: u32) AND 63) :: u8) = push_bit 4 (take_bit 2 b)"
    and "(ucast (push_bit 2 (ucast b :: u32) AND 63) :: u8) = push_bit 2 (take_bit 4 b)"
    and "(ucast (drop_bit k (ucast c :: u32)) :: u8) = drop_bit k c"
    and "unat (ucast b AND 63 :: u32) = unat (take_bit 6 b)"
  unfolding and_masks
proof -
  show "(ucast (take_bit 6 (push_bit 4 (ucast b :: u32))) :: u8) = push_bit 4 (take_bit 2 b)"
    by (rule bit_word_eqI) (auto simp: bit_simps)
  show "(ucast (take_bit 6 (push_bit 2 (ucast b :: u32))) :: u8) = push_bit 2 (take_bit 4 b)"
    by (rule bit_word_eqI) (auto simp: bit_simps)
  show "(ucast (drop_bit k (ucast c :: u32)) :: u8) = drop_bit k c"
    by (rule bit_word_eqI) (auto simp: bit_simps dest: bit_imp_le_length)
  have "(take_bit 6 (ucast b) :: u32) = ucast (take_bit 6 b)"
    by (rule bit_word_eqI) (auto simp: bit_simps)
  then show "unat (take_bit 6 (ucast b) :: u32) = unat (take_bit 6 b)"
    by (simp only: unat_ucast_u8_u32)
qed

text \<open>The six bits the encoder puts into a character, and what the decoder makes of them.\<close>

lemma six_bits:
  fixes b c :: u8
  shows "unat (drop_bit 2 b) < 64"
    and "unat (push_bit 4 (take_bit 2 b) OR drop_bit 4 c) < 64"
    and "unat (push_bit 2 (take_bit 4 b) OR drop_bit 6 c) < 64"
    and "unat (take_bit 6 b) < 64"
proof -
  have six: "take_bit 6 v = v \<Longrightarrow> unat v < 64" for v :: u8
    using take_bit_nat_less_exp [of 6 "unat v"] by (simp flip: unsigned_take_bit_eq)
  show "unat (drop_bit 2 b) < 64"
    by (rule six, rule bit_word_eqI) (auto simp: bit_simps dest: bit_imp_le_length)
  show "unat (push_bit 4 (take_bit 2 b) OR drop_bit 4 c) < 64"
    by (rule six, rule bit_word_eqI) (auto simp: bit_simps dest: bit_imp_le_length)
  show "unat (push_bit 2 (take_bit 4 b) OR drop_bit 6 c) < 64"
    by (rule six, rule bit_word_eqI) (auto simp: bit_simps dest: bit_imp_le_length)
  show "unat (take_bit 6 b) < 64"
    by (rule six) simp
qed

lemma six_bits_last:
  fixes b :: u8
  shows "unat (push_bit 4 (take_bit 2 b)) < 64" and "unat (push_bit 2 (take_bit 4 b)) < 64"
  using six_bits(2,3) [of b 0] by simp_all

lemma Suc_Suc_minus_two: "Suc (Suc (n - 2)) = (if n < 2 then 2 else n)"
  by auto

lemma plus_minus_split: "k + (n - k) = (if n < k then k else n)" for k n :: nat
  by auto

lemma joined_bits:
  fixes b c :: u8
  shows "push_bit 2 (drop_bit 2 b) OR drop_bit 4 (push_bit 4 (take_bit 2 b) OR drop_bit 4 c) = b"
    and "push_bit 4 (push_bit 4 (take_bit 2 b) OR drop_bit 4 c) = push_bit 4 (drop_bit 4 c)"
    and "push_bit 4 (drop_bit 4 b) OR drop_bit 2 (push_bit 2 (take_bit 4 b) OR drop_bit 6 c) = b"
    and "push_bit 6 (push_bit 2 (take_bit 4 b) OR drop_bit 6 c) OR take_bit 6 c = c"
  by (rule bit_word_eqI; auto simp: bit_simps Suc_Suc_minus_two plus_minus_split not_less
        dest: bit_imp_le_length)+


text \<open>One turn of the loop on a character of the alphabet.\<close>

lemma drop_ConsD: "drop i xs = y # ys \<Longrightarrow> i < length xs \<and> xs ! i = y \<and> drop (Suc i) xs = ys"
  by (metis drop_Suc drop_eq_Nil list.distinct(1) list.sel(1) list.sel(3) not_le_imp_less
      nth_via_drop tl_drop)

lemma decode_first:
  assumes "drop i src = to_base64 ! unat v # rest" "unat v < 64" "0 < d" "i < e"
  shows "decode_loop src i e d 0 part = decode_loop src (Suc i) e d 6 (push_bit 2 v)"
  using assms drop_ConsD [OF assms(1)]
  by (subst decode_loop.simps)
    (auto simp: Let_def from_to_base64 to_base64_not_end dest: six_bits_not_255)

lemma decode_next:
  assumes "drop i src = to_base64 ! unat v # rest" "unat v < 64" "0 < d" "i < e" "2 \<le> k"
  shows "decode_loop src i e d k part =
           map_option ((#) (part OR drop_bit (k - 2) v))
             (decode_loop src (Suc i) e (d - 1) (k - 2)
                (if k = 2 then 0 else push_bit (8 - (k - 2)) v))"
  using assms drop_ConsD [OF assms(1)]
  by (subst decode_loop.simps)
    (auto simp: Let_def from_to_base64 to_base64_not_end dest: six_bits_not_255)

lemma decode_stop:
  assumes "drop i src = end_marker # rest"
  shows "decode_loop src i e d k part = Some []"
  using drop_ConsD [OF assms] by (subst decode_loop.simps) auto

lemma decode_encode_loop:
  "drop i src = encode_loop 0 0 xs @ end_marker # rest \<Longrightarrow>
     i + length (encode_loop 0 0 xs) \<le> e \<Longrightarrow> int (length xs) \<le> d \<Longrightarrow>
     decode_loop src i e d 0 part = Some xs"
  "drop i src = encode_loop 2 (push_bit 4 (take_bit 2 b)) xs @ end_marker # rest \<Longrightarrow>
     i + length (encode_loop 2 (push_bit 4 (take_bit 2 b)) xs) \<le> e \<Longrightarrow> int (length xs) < d \<Longrightarrow>
     decode_loop src i e d 6 (push_bit 2 (drop_bit 2 b)) = Some (b # xs)"
  "drop i src = encode_loop 4 (push_bit 2 (take_bit 4 b)) xs @ end_marker # rest \<Longrightarrow>
     i + length (encode_loop 4 (push_bit 2 (take_bit 4 b)) xs) \<le> e \<Longrightarrow> int (length xs) < d \<Longrightarrow>
     decode_loop src i e d 4 (push_bit 4 (drop_bit 4 b)) = Some (b # xs)"
proof (induction xs arbitrary: i d b part)
  case Nil
  case 1 then show ?case by (auto dest: decode_stop)
next
  case Nil
  case 2
  then have at: "drop i src = to_base64 ! unat (push_bit 4 (take_bit 2 b)) # end_marker # rest" by simp
  show ?case
    using 2 six_bits_last joined_bits(1) [of b 0] decode_stop [of "Suc i"] drop_ConsD [OF at]
    by (simp add: decode_next [OF at])
next
  case Nil
  case 3
  then have at: "drop i src = to_base64 ! unat (push_bit 2 (take_bit 4 b)) # end_marker # rest" by simp
  show ?case
    using 3 six_bits_last joined_bits(3) [of b 0] decode_stop [of "Suc i"] drop_ConsD [OF at]
    by (simp add: decode_next [OF at])
next
  case (Cons c xs)
  case 1
  then have at: "drop i src = to_base64 ! unat (drop_bit 2 c) #
      encode_loop 2 (push_bit 4 (take_bit 2 c)) xs @ end_marker # rest"
    by (simp add: Let_def carry_bits)
  show ?case
    using 1 six_bits drop_ConsD [OF at] Cons.IH(2) [of "Suc i" c d]
    by (simp add: decode_first [OF at] Let_def carry_bits)
next
  case (Cons c xs)
  case 2
  then have at: "drop i src = to_base64 ! unat (push_bit 4 (take_bit 2 b) OR drop_bit 4 c) #
      encode_loop 4 (push_bit 2 (take_bit 4 c)) xs @ end_marker # rest"
    by (simp add: Let_def carry_bits)
  show ?case
    using 2 six_bits drop_ConsD [OF at] Cons.IH(3) [of "Suc i" c "d - 1"] joined_bits [of b c]
    by (simp add: decode_next [OF at] Let_def carry_bits)
next
  case (Cons c xs)
  case 3
  then have at: "drop i src = to_base64 ! unat (push_bit 2 (take_bit 4 b) OR drop_bit 6 c) #
      to_base64 ! unat (take_bit 6 c) # encode_loop 0 0 xs @ end_marker # rest"
    by (simp add: Let_def carry_bits)
  have at': "drop (Suc i) src =
      to_base64 ! unat (take_bit 6 c) # encode_loop 0 0 xs @ end_marker # rest"
    using drop_ConsD [OF at] by simp
  show ?case
    using 3 six_bits drop_ConsD [OF at'] Cons.IH(1) [of "Suc (Suc i)" "d - 2" 0] joined_bits [of b c]
    by (simp add: decode_next [OF at] decode_next [OF at'] Let_def carry_bits)
qed

lemma length_encode_loop:
  "length (encode_loop 0 0 xs) = (length xs * 8 + 5) div 6"
  "length (encode_loop 2 b xs) = (length xs * 8 + 7) div 6"
  "length (encode_loop 4 b xs) = (length xs * 8 + 9) div 6"
  by (induction xs arbitrary: b) (auto simp: Let_def)

section \<open>Lengths and bounds\<close>

lemma unat_encoded_len:
  assumes "n * 8 + 5 < 2 ^ 32"
  shows "unat (GSK_BASE64_GET_ENCODED_LEN (of_nat n)) = (n * 8 + 5) div 6 + 1"
    and "unat (GSK_BASE64_GET_ENCODED_LEN (of_nat n) + 1) = (n * 8 + 5) div 6 + 2"
proof -
  have n: "unat (of_nat n * 8 + 5 :: u32) = n * 8 + 5"
    using unat_of_nat_u32 [of "n * 8 + 5"] assms by simp
  have d: "unat ((of_nat n * 8 + 5 :: u32) div 6) = (n * 8 + 5) div 6"
    by (simp only: unat_div n) simp
  show e: "unat (GSK_BASE64_GET_ENCODED_LEN (of_nat n)) = (n * 8 + 5) div 6 + 1"
    using assms d unfolding GSK_BASE64_GET_ENCODED_LEN_def
    by (subst unat_add_no_wrap) auto
  show "unat (GSK_BASE64_GET_ENCODED_LEN (of_nat n) + 1) = (n * 8 + 5) div 6 + 2"
    using assms e by (subst unat_add_no_wrap) auto
qed

lemma encode_loop_symbols:
  "set (encode_loop 0 0 xs) \<subseteq> set to_base64"
  "set (encode_loop 2 (push_bit 4 (take_bit 2 b)) xs) \<subseteq> set to_base64"
  "set (encode_loop 4 (push_bit 2 (take_bit 4 b)) xs) \<subseteq> set to_base64"
proof (induction xs arbitrary: b)
  case Nil
  case 2 show ?case using six_bits_last by (simp add: length_to_base64)
next
  case Nil
  case 3 show ?case using six_bits_last by (simp add: length_to_base64)
next
  case (Cons c xs)
  case 1 show ?case
    using Cons.IH(2) [of c] six_bits by (simp add: Let_def carry_bits length_to_base64)
next
  case (Cons c xs)
  case 2 show ?case
    using Cons.IH(3) [of c] six_bits by (simp add: Let_def carry_bits length_to_base64)
next
  case (Cons c xs)
  case 3 show ?case
    using Cons.IH(1) six_bits by (simp add: Let_def carry_bits length_to_base64)
qed simp

lemma alphabet_bytes: "end_marker \<notin> set to_base64" "0 \<notin> set to_base64"
  by code_simp+

lemma encode_no_marker: "end_marker \<notin> set (encode_loop 0 0 xs)" "0 \<notin> set (encode_loop 0 0 xs)"
  using encode_loop_symbols(1) alphabet_bytes by blast+

lemma decode_loop_bounds:
  assumes "decode_loop src i e d k part = Some out" "k \<le> 6" "even k" "0 \<le> d"
  shows "int (length out) \<le> d \<and> 8 * length out \<le> 6 * (e - i) + k"
  using assms
proof (induction src i e d k part arbitrary: out rule: decode_loop.induct)
  case (1 src i e d k part)
  show ?case
  proof (cases "d \<le> 0 \<or> src ! i = end_marker \<or> e \<le> i")
    case True
    then show ?thesis using "1.prems" by (auto simp: decode_loop.simps [of src i] split: if_splits)
  next
    case False
    let ?v = "from_base64_table (src ! i)"
    have i: "i < length src"
      using False "1.prems"(1) by (subst (asm) decode_loop.simps) (auto split: if_splits)
    consider "?v = 255" | "?v \<noteq> 255" "k = 0" | "?v \<noteq> 255" "2 \<le> k"
      using "1.prems"(3) by (cases "k = 0"; cases "k = 1") auto
    then show ?thesis
    proof cases
      case 1
      then have "decode_loop src (Suc i) e d k part = Some out"
        using False i "1.prems"(1) by (subst (asm) decode_loop.simps) simp
      then show ?thesis using "1.IH"(1) [OF _ _ _ _ refl 1] False i "1.prems" by fastforce
    next
      case 2
      then have "decode_loop src (Suc i) e d 6 (push_bit 2 ?v) = Some out"
        using False i "1.prems"(1) by (subst (asm) decode_loop.simps) simp
      then show ?thesis using "1.IH"(2) [OF _ _ _ _ refl 2] False i "1.prems" 2 by fastforce
    next
      case 3
      then obtain out' where out': "out = (part OR drop_bit (k - 2) ?v) # out'"
        "decode_loop src (Suc i) e (d - 1) (k - 2)
           (if k - 2 = 0 then 0 else push_bit (8 - (k - 2)) ?v) = Some out'"
        using False i "1.prems"(1) by (subst (asm) decode_loop.simps) (auto simp: Let_def)
      then have "int (length out') \<le> d - 1 \<and> 8 * length out' \<le> 6 * (e - Suc i) + (k - 2)"
        using "1.IH"(3) [OF _ _ _ _ refl 3(1) _ refl refl, of out'] False i "1.prems" 3 by simp
      then show ?thesis using out' False 3 by auto
    qed
  qed
qed

lemma decode_loop_total: "e < length src \<Longrightarrow> decode_loop src i e d k part \<noteq> None \<or> e < i"
proof (induction src i e d k part rule: decode_loop.induct)
  case (1 src i e d k part)
  then show ?case by (subst decode_loop.simps) (auto simp: Let_def)
qed

lemma decode_reads_on:
  assumes "i \<le> length src" "set (drop i src) \<subseteq> set to_base64" "int (length src - i) < d"
  shows "decode_loop src i (length src) d k part = None"
  using assms
proof (induction src i "length src" d k part rule: decode_loop.induct)
  case (1 src i d k part)
  show ?case
  proof (cases "i = length src")
    case True
    then show ?thesis using "1.prems" by (subst decode_loop.simps) simp
  next
    case False
    then have i: "i < length src" using "1.prems" by simp
    then have d: "drop i src = src ! i # drop (Suc i) src" by (simp add: Cons_nth_drop_Suc)
    then have "src ! i \<noteq> end_marker" using "1.prems" alphabet_bytes(1) by auto
    then show ?thesis
      using 1 i d by (subst decode_loop.simps) (auto simp: Let_def)
  qed
qed

section \<open>Properties\<close>

lemma encode_alloc_result:
  assumes "8 * length src + 5 < 2 ^ 32"
  shows "gsk_base64_encode_alloc src (int (length src)) = Some (gsk_base64_encode src @ [0])"
proof -
  have "length src < 2 ^ 32" using assms by simp
  then have "unat (of_nat (length src) :: u32) = length src" by (simp add: unat_of_nat_u32)
  then show ?thesis
    using assms unat_encoded_len [of "length src"]
    by (simp add: gsk_base64_encode_alloc_def Let_def gsk_base64_encode_def length_encode_loop)
qed

lemma decode_alloc_encode:
  assumes "8 * length src + 12 < 2 ^ 31"
  shows "gsk_base64_decode_alloc (gsk_base64_encode src) = Some src"
proof -
  let ?n = "length (encode_loop 0 0 src)"
  have n: "?n = (length src * 8 + 5) div 6" by (simp add: length_encode_loop)
  have "memchr end_marker (gsk_base64_encode src) = Some ?n"
    using encode_no_marker by (simp add: memchr_Some_iff gsk_base64_encode_def)
  moreover have "?n * 6 + 7 < 2 ^ 31" "length src \<le> (?n * 6 + 7) div 8"
    using assms n by presburger+
  moreover have "decode_loop (gsk_base64_encode src @ [0]) 0 ?n (int ((?n * 6 + 7) div 8)) 0 0 = Some src"
    using calculation by (intro decode_encode_loop(1) [where rest = "[0]"]) (simp_all add: gsk_base64_encode_def)
  ultimately show ?thesis
    by (simp add: gsk_base64_decode_alloc_def gsk_base64_decode_internal_def Let_def del: of_nat_add)
qed

lemma encode_alloc_wraps:
  assumes "length src = n" "GSK_BASE64_GET_ENCODED_LEN (of_nat n) = 1"
    and "unat (of_nat n :: u32) = n" "2 \<le> n"
  shows "gsk_base64_encode_alloc src (int n) = None"
proof -
  have "unat (GSK_BASE64_GET_ENCODED_LEN (of_nat n) + 1) = 2" by (simp add: assms(2))
  moreover have "\<not> length (gsk_base64_encode src) \<le> 2"
    using assms(1,4) by (simp add: gsk_base64_encode_def length_encode_loop)
  ultimately show ?thesis
    using assms(1,3) by (simp add: gsk_base64_encode_alloc_def Let_def)
qed

text \<open>C34: Encoding and decoding are inverse: the block \<open>gsk_base64_encode_alloc\<close>
  returns is a NUL-terminated string of the length \<open>GSK_BASE64_GET_ENCODED_LEN\<close>
  computes, and \<open>gsk_base64_decode_alloc\<close> takes it back to the binary data.\<close>

theorem base64_roundtrip:
  assumes "8 * length src + 12 < 2 ^ 31"
  shows "\<exists>enc. gsk_base64_encode_alloc src (int (length src)) = Some (enc @ [0]) \<and> 0 \<notin> set enc \<and>
           length enc = unat (GSK_BASE64_GET_ENCODED_LEN (of_nat (length src))) \<and>
           gsk_base64_decode_alloc enc = Some src"
proof (intro exI [of _ "gsk_base64_encode src"] conjI)
  show "gsk_base64_encode_alloc src (int (length src)) = Some (gsk_base64_encode src @ [0])"
    using assms by (intro encode_alloc_result) simp
  show "0 \<notin> set (gsk_base64_encode src)"
    using encode_no_marker(2) [of src] by (simp add: gsk_base64_encode_def end_marker_def of_char_def)
  show "length (gsk_base64_encode src) = unat (GSK_BASE64_GET_ENCODED_LEN (of_nat (length src)))"
    using assms unat_encoded_len(1) [of "length src"]
    by (simp add: gsk_base64_encode_def length_encode_loop)
  show "gsk_base64_decode_alloc (gsk_base64_encode src) = Some src"
    using assms by (rule decode_alloc_encode)
qed

theorem base64_roundtrip_witness:
  "\<exists>enc. gsk_base64_encode_alloc [77, 97, 110, 255] (int (length [77, 97, 110, 255 :: u8])) = Some (enc @ [0]) \<and>
     0 \<notin> set enc \<and>
     length enc = unat (GSK_BASE64_GET_ENCODED_LEN (of_nat (length [77, 97, 110, 255 :: u8]))) \<and>
     gsk_base64_decode_alloc enc = Some [77, 97, 110, 255]"
  by (rule base64_roundtrip [of "[77, 97, 110, 255]"]) simp

lemma max_decoded_len:
  assumes "len \<le> 715827881"
  shows "unat (GSK_BASE64_GET_MAX_DECODED_LEN (of_nat len)) = (len * 6 + 7) div 8"
proof -
  have "unat (of_nat (len * 6 + 7) :: u32) = len * 6 + 7" using assms by (intro unat_of_nat_u32) simp
  then show ?thesis by (simp add: GSK_BASE64_GET_MAX_DECODED_LEN_def unat_div mult.commute)
qed

text \<open>C36: Decoding any text of \<open>src_len\<close> characters that has one more readable byte
  behind it returns and writes at most \<open>dst_len\<close> bytes; texts of up to 715827881 characters
  give at most \<open>GSK_BASE64_GET_MAX_DECODED_LEN\<close> bytes.  With one character more the macro,
  computed in 32 bits, announces 0 bytes.\<close>

theorem base64_decode_bounds:
  assumes "src_len < length src" "0 \<le> sint dst_len"
  shows "(\<exists>out. gsk_base64_decode dst_len src (int src_len) = Some out \<and> int (length out) \<le> sint dst_len \<and>
      (src_len \<le> 715827881 \<longrightarrow> length out \<le> unat (GSK_BASE64_GET_MAX_DECODED_LEN (of_nat src_len)))) \<and>
    GSK_BASE64_GET_MAX_DECODED_LEN (of_nat 715827882) = 0"
proof -
  obtain out where out: "decode_loop src 0 src_len (sint dst_len) 0 0 = Some out"
    using decode_loop_total [OF assms(1), of 0 "sint dst_len" 0 0] by auto
  then have "int (length out) \<le> sint dst_len \<and> 8 * length out \<le> 6 * src_len"
    using decode_loop_bounds [OF out] assms(2) by simp
  moreover have "GSK_BASE64_GET_MAX_DECODED_LEN (of_nat 715827882) = 0"
    by (simp add: GSK_BASE64_GET_MAX_DECODED_LEN_def)
  ultimately show ?thesis
    using out by (auto simp: gsk_base64_decode_def gsk_base64_decode_internal_def max_decoded_len)
qed

theorem base64_decode_bounds_witness:
  "\<exists>out. gsk_base64_decode 10 [84, 87, 33, 70, 0] 4 = Some out \<and>
     int (length out) \<le> sint (10 :: u32) \<and> length out \<le> unat (GSK_BASE64_GET_MAX_DECODED_LEN 4)"
  using base64_decode_bounds [of 4 "[84, 87, 33, 70, 0]" 10] by auto

text \<open>With an explicit \<open>src_len\<close> the decoding loop looks at \<open>*src\<close> before it
  compares \<open>src\<close> with the end: a source of exactly \<open>src_len\<close> bytes that has no
  \<open>=\<close> is read one byte too far whenever the destination is not full before.\<close>

theorem base64_decode_reads_behind:
  assumes "set src \<subseteq> set to_base64" "int (length src) < sint dst_len"
  shows "gsk_base64_decode dst_len src (int (length src)) = None"
  using decode_reads_on [of 0 src "sint dst_len" 0 0] assms
  by (simp add: gsk_base64_decode_def gsk_base64_decode_internal_def)

theorem base64_decode_reads_behind_witness:
  "gsk_base64_decode 10 [84, 87, 70, 117] (int (length [84, 87, 70, 117 :: u8])) = None"
  by (rule base64_decode_reads_behind) (simp_all, code_simp)

text \<open>The lengths of \<open>gsk_base64_encode_alloc\<close> are 32 bits wide: for half a
  gigabyte of data the block has two bytes, and the encoding is written behind it.\<close>

theorem base64_encode_alloc_overflow:
  "gsk_base64_encode_alloc (replicate (2 ^ 29) b) (int (2 ^ 29)) = None"
proof (rule encode_alloc_wraps)
  show "GSK_BASE64_GET_ENCODED_LEN (of_nat (2 ^ 29)) = 1"
    by (simp add: GSK_BASE64_GET_ENCODED_LEN_def)
  show "unat (of_nat (2 ^ 29) :: u32) = 2 ^ 29"
    by (simp add: unat_of_nat_u32)
qed (simp_all only: length_replicate, simp)

end
