(* ===== verification/Gsk_Timegm.thy ===== *)
theory Gsk_Timegm
  imports Gsk_Prelude
begin

text \<open>
  Calendar arithmetic, \<^verbatim>\<open>src/src/common/gsktimegm.c\<close>: \<open>gsk_timegm\<close> on \<open>struct tm\<close>
  with its unsigned 32-bit arithmetic, next to a Gregorian calendar that counts days year by
  year and month by month, and the C library's \<open>gmtime\<close> defined over that calendar.  The
  lemmas show that \<open>gsk_timegm\<close> agrees with the calendar and inverts \<open>gmtime\<close>.
\<close>

section \<open>The code\<close>

text \<open>\<open>struct tm\<close> of the C library; the fields are C \<open>int\<close>s.\<close>

record tm =
  tm_sec :: int
  tm_min :: int
  tm_hour :: int
  tm_mday :: int
  tm_mon :: int
  tm_year :: int
  tm_wday :: int
  tm_yday :: int
  tm_isdst :: int

definition EPOCH_YEAR :: u32 where
  "EPOCH_YEAR = 1970"

definition month_starts_in_days :: "u32 list" where
  "month_starts_in_days = [0, 31, 59, 90, 120, 151, 181, 212, 243, 273, 304, 334]"

definition gsk_timegm :: "tm \<Rightarrow> int" where
  "gsk_timegm t =
     (let year = word_of_int (1900 + tm_year t) :: u32;
          before_leap = (tm_mon t \<le> 1);
          ly_year = year - (if before_leap then 1 else 0);
          n_leaps = ((ly_year div 4) - (EPOCH_YEAR div 4))
                    - ((ly_year div 100) - (EPOCH_YEAR div 100))
                    + ((ly_year div 400) - (EPOCH_YEAR div 400))
      in if 12 \<le> (word_of_int (tm_mon t) :: u32)
            \<or> tm_mday t < 1 \<or> tm_mday t > 31
            \<or> 24 \<le> (word_of_int (tm_hour t) :: u32)
            \<or> 60 \<le> (word_of_int (tm_min t) :: u32)
            \<or> 61 \<le> (word_of_int (tm_sec t) :: u32)
         then - 1
         else
           (let days_since_epoch = (year - EPOCH_YEAR) * 365 + n_leaps
                  + month_starts_in_days ! nat (tm_mon t) + word_of_int (tm_mday t - 1);
                secs_since_midnight = word_of_int (tm_hour t * 3600 + tm_min t * 60 + tm_sec t) :: u32
            in sint (ucast days_since_epoch * 86400 + ucast secs_since_midnight :: u64)))"

section \<open>The calendar\<close>

definition is_leap :: "int \<Rightarrow> bool" where
  "is_leap y \<longleftrightarrow> 4 dvd y \<and> \<not> 100 dvd y \<or> 400 dvd y"

definition days_in_year :: "int \<Rightarrow> nat" where
  "days_in_year y = (if is_leap y then 366 else 365)"

definition days_in_month :: "int \<Rightarrow> nat \<Rightarrow> nat" where
  "days_in_month y m =
     (if m = 1 then (if is_leap y then 29 else 28)
      else if m \<in> {3, 5, 8, 10} then 30 else 31)"

text \<open>Days from the first of January 1970 to the first of January of the year
  \<open>1970 + k\<close>, and from there to the first of a month.\<close>

primrec year_start :: "nat \<Rightarrow> nat" where
  "year_start 0 = 0"
| "year_start (Suc k) = year_start k + days_in_year (1970 + int k)"

primrec month_start :: "int \<Rightarrow> nat \<Rightarrow> nat" where
  "month_start y 0 = 0"
| "month_start y (Suc m) = month_start y m + days_in_month y m"

text \<open>\<open>gmtime\<close>: find the year, then the month.  The calendar repeats after 400 years of
  146097 days, which also serves the times before 1970.  None is the NULL it returns when
  the year does not fit an \<open>int\<close>.\<close>

function find_year :: "int \<Rightarrow> nat \<Rightarrow> int \<times> nat" where
  "find_year y d = (if d < days_in_year y then (y, d) else find_year (y + 1) (d - days_in_year y))"
  by pat_completeness auto
termination
  by (relation "measure snd") (auto simp: days_in_year_def)

function find_month :: "int \<Rightarrow> nat \<Rightarrow> nat \<Rightarrow> nat \<times> nat" where
  "find_month y m d =
     (if d < days_in_month y m then (m, d) else find_month y (Suc m) (d - days_in_month y m))"
  by pat_completeness auto
termination
  by (relation "measure (\<lambda>(y, m, d). d)") (auto simp: days_in_month_def)

declare find_year.simps [simp del] find_month.simps [simp del]

definition gmtime :: "int \<Rightarrow> tm option" where
  "gmtime t =
     (let days = t div 86400;
          secs = t mod 86400;
          (y, yday) = find_year 1970 (nat (days mod 146097));
          year = y + 400 * (days div 146097);
          (m, d) = find_month year 0 yday
      in if year - 1900 < - (2 ^ 31) \<or> 2 ^ 31 \<le> year - 1900 then None
         else Some \<lparr>tm_sec = secs mod 60, tm_min = secs div 60 mod 60, tm_hour = secs div 3600,
                    tm_mday = int d + 1, tm_mon = int m, tm_year = year - 1900,
                    tm_wday = (days + 4) mod 7, tm_yday = int yday, tm_isdst = 0\<rparr>)"

section \<open>Counting leap years\<close>

definition leaps :: "int \<Rightarrow> int" where
  "leaps y = y div 4 - y div 100 + y div 400"

lemma div_succ: "0 < n \<Longrightarrow> (y + 1) div n = y div n + (if n dvd (y + 1) then 1 else 0)" for y n :: int
proof -
  assume n: "0 < n"
  show ?thesis
  proof (cases "n dvd (y + 1)")
    case True
    then obtain k where k: "y + 1 = n * k" ..
    then have "y div n = k - 1"
      using n by (intro int_div_pos_eq [of _ _ _ "n - 1"]) (auto simp: algebra_simps)
    then show ?thesis using k n by simp
  next
    case False
    define q r where "q = (y + 1) div n" and "r = (y + 1) mod n"
    have "y + 1 = n * q + r" by (simp add: q_def r_def)
    moreover have "r \<noteq> 0" using False by (simp add: r_def dvd_eq_mod_eq_0)
    moreover have "0 \<le> r" "r < n" using n by (simp_all add: r_def)
    ultimately have "y div n = q"
      by (intro int_div_pos_eq [of _ _ _ "r - 1"]) auto
    then have "y div n = (y + 1) div n" by (simp add: q_def)
    then show ?thesis using False by simp
  qed
qed

lemma leaps_succ: "leaps (y + 1) = leaps y + (if is_leap (y + 1) then 1 else 0)"
proof -
  have "400 dvd (y + 1) \<Longrightarrow> 100 dvd (y + 1)" "100 dvd (y + 1) \<Longrightarrow> 4 dvd (y + 1)"
    by (auto elim!: dvd_trans [rotated])
  then show ?thesis
    by (auto simp: leaps_def is_leap_def div_succ)
qed

lemma year_start_closed: "int (year_start k) = 365 * int k + leaps (1969 + int k) - leaps 1969"
proof (induction k)
  case (Suc k)
  have "leaps (1969 + int (Suc k)) = leaps (1969 + int k) + (if is_leap (1970 + int k) then 1 else 0)"
    using leaps_succ [of "1969 + int k"] by (simp add: algebra_simps)
  then show ?case using Suc by (simp add: days_in_year_def)
qed simp

lemma month_start_numeral [simp]:
  "month_start y (numeral v) =
     month_start y (pred_numeral v) + days_in_month y (pred_numeral v)"
  by (simp add: numeral_eq_Suc)

lemma month_cases:
  assumes "m < (12 :: nat)"
  obtains "m = 0" | "m = 1" | "m = 2" | "m = 3" | "m = 4" | "m = 5" | "m = 6" | "m = 7" | "m = 8"
    | "m = 9" | "m = 10" | "m = 11"
proof -
  have "m = 0 \<or> m = 1 \<or> m = 2 \<or> m = 3 \<or> m = 4 \<or> m = 5 \<or> m = 6 \<or> m = 7 \<or> m = 8 \<or> m = 9 \<or> m = 10 \<or> m = 11"
    using assms by arith
  then show thesis by (elim disjE) (fact that)+
qed

text \<open>The first days of the months, from the table for common years.\<close>

lemma month_start_table:
  assumes "m < 12"
  shows "int (month_start y m) = uint (month_starts_in_days ! m) + (if is_leap y \<and> 1 < m then 1 else 0)"
  using assms by (cases m rule: month_cases) (simp_all add: month_starts_in_days_def days_in_month_def)

section \<open>What gsk\_timegm computes\<close>

definition tm_in_range :: "tm \<Rightarrow> bool" where
  "tm_in_range t \<longleftrightarrow> 0 \<le> tm_mon t \<and> tm_mon t < 12 \<and> 1 \<le> tm_mday t \<and> tm_mday t \<le> 31 \<and>
     0 \<le> tm_hour t \<and> tm_hour t < 24 \<and> 0 \<le> tm_min t \<and> tm_min t < 60 \<and>
     0 \<le> tm_sec t \<and> tm_sec t < 61"

definition secs_of_day :: "tm \<Rightarrow> int" where
  "secs_of_day t = tm_hour t * 3600 + tm_min t * 60 + tm_sec t"

definition timegm_days :: "tm \<Rightarrow> int" where
  "timegm_days t =
     (let y = 1900 + tm_year t; ly = y - (if tm_mon t \<le> 1 then 1 else 0)
      in (y - 1970) * 365 + (leaps ly - leaps 1970)
         + uint (month_starts_in_days ! nat (tm_mon t)) + (tm_mday t - 1))"

lemma word_of_int_div: "0 \<le> a \<Longrightarrow> a < 2 ^ 32 \<Longrightarrow> (word_of_int a :: u32) div numeral k = word_of_int (a div uint (numeral k :: u32))"
  by (simp add: word_div_def uint_word_of_int_eq take_bit_int_eq_self)

lemma word_of_int_ge: "0 \<le> a \<Longrightarrow> a < 2 ^ 32 \<Longrightarrow> numeral k \<le> (word_of_int a :: u32) \<longleftrightarrow> uint (numeral k :: u32) \<le> a"
  by (simp add: word_le_def uint_word_of_int_eq take_bit_int_eq_self)

lemma sint_u64_id: "0 \<le> v \<Longrightarrow> v < 2 ^ 63 \<Longrightarrow> sint (word_of_int v :: u64) = v"
  by (simp add: signed_of_int signed_take_bit_int_eq_self)

lemma ucast_word_of_int_u64: "(ucast (w :: u32) :: u64) = word_of_int (uint w)"
  by (simp add: unsigned_ucast_eq)

lemma epoch_words: "EPOCH_YEAR div 4 = 492" "EPOCH_YEAR div 100 = 19" "EPOCH_YEAR div 400 = 4"
  "EPOCH_YEAR = 1970"
  by (simp_all add: EPOCH_YEAR_def)

lemma days_word:
  "((word_of_int y :: u32) - 1970) * 365 +
     ((word_of_int a - 492) - (word_of_int b - 19) + (word_of_int c - 4)) + w + word_of_int d =
   word_of_int ((y - 1970) * 365 + ((a - b + c) - (1970 div 4 - 1970 div 100 + 1970 div 400)) + uint w + d)"
  by simp

lemma seconds_word:
  assumes "0 \<le> s" "s < 86401"
  shows "sint (ucast (w :: u32) * 86400 + ucast (word_of_int s :: u32) :: u64) = uint w * 86400 + s"
proof -
  have w: "0 \<le> uint w" "uint w < 2 ^ 32" using uint_lt2p [of w] by simp_all
  have "uint (word_of_int s :: u32) = s"
    using assms by (simp add: uint_word_of_int_eq take_bit_int_eq_self)
  then have "(ucast w * 86400 + ucast (word_of_int s :: u32) :: u64) = word_of_int (uint w * 86400 + s)"
    unfolding ucast_word_of_int_u64 [of w] ucast_word_of_int_u64 [of "word_of_int s"]
    by (simp only: of_int_add of_int_mult of_int_numeral)
  moreover have "sint (word_of_int (uint w * 86400 + s) :: u64) = uint w * 86400 + s"
    using w assms by (intro sint_u64_id) simp_all
  ultimately show ?thesis by simp
qed

lemma timegm_words:
  assumes "tm_in_range t" "1 \<le> 1900 + tm_year t" "1900 + tm_year t < 2 ^ 32"
  shows "gsk_timegm t = (timegm_days t mod 2 ^ 32) * 86400 + secs_of_day t"
proof -
  let ?y = "1900 + tm_year t" and ?ly = "1900 + tm_year t - (if tm_mon t \<le> 1 then 1 else 0)"
  let ?days = "((word_of_int ?y :: u32) - EPOCH_YEAR) * 365
     + (((word_of_int ?ly div 4) - (EPOCH_YEAR div 4)) - ((word_of_int ?ly div 100) - (EPOCH_YEAR div 100))
        + ((word_of_int ?ly div 400) - (EPOCH_YEAR div 400)))
     + month_starts_in_days ! nat (tm_mon t) + word_of_int (tm_mday t - 1)"
  have ly: "0 \<le> ?ly" "?ly < 2 ^ 32" using assms by auto
  have div: "word_of_int ?ly div 4 = (word_of_int (?ly div 4) :: u32)"
    "word_of_int ?ly div 100 = (word_of_int (?ly div 100) :: u32)"
    "word_of_int ?ly div 400 = (word_of_int (?ly div 400) :: u32)"
    using word_of_int_div [OF ly] by simp_all
  have days: "?days = word_of_int (timegm_days t)"
    unfolding div epoch_words(1-3) unfolding epoch_words(4) timegm_days_def Let_def leaps_def
    by (rule days_word)
  have lyw: "word_of_int ?y - (if tm_mon t \<le> 1 then 1 else 0) = (word_of_int ?ly :: u32)" by simp
  have s: "0 \<le> secs_of_day t" "secs_of_day t < 86401"
    using assms(1) by (auto simp: tm_in_range_def secs_of_day_def)
  have d: "uint ?days = timegm_days t mod 2 ^ 32"
    by (simp only: days uint_word_of_int_eq take_bit_eq_mod) simp
  have "gsk_timegm t = sint (ucast ?days * 86400 + ucast (word_of_int (secs_of_day t) :: u32) :: u64)"
    using assms(1) unfolding gsk_timegm_def Let_def lyw secs_of_day_def
    by (simp add: tm_in_range_def word_of_int_ge)
  then show ?thesis using seconds_word [OF s] d by simp
qed

lemma timegm_calendar_days:
  assumes "tm_in_range t" "70 \<le> tm_year t"
  shows "timegm_days t =
    int (year_start (nat (tm_year t - 70))) + int (month_start (1900 + tm_year t) (nat (tm_mon t)))
    + (tm_mday t - 1)"
proof -
  have m: "nat (tm_mon t) < 12" using assms(1) by (auto simp: tm_in_range_def)
  have "leaps (1900 + tm_year t) = leaps (1899 + tm_year t) + (if is_leap (1900 + tm_year t) then 1 else 0)"
    using leaps_succ [of "1899 + tm_year t"] by (simp add: algebra_simps)
  moreover have "1 < nat (tm_mon t) \<longleftrightarrow> \<not> tm_mon t \<le> 1" by auto
  moreover have "leaps 1970 = 477" "leaps 1969 = 477" by (simp_all add: leaps_def)
  ultimately show ?thesis
    using assms(2) year_start_closed [of "nat (tm_year t - 70)"] month_start_table [OF m]
    by (simp add: timegm_days_def Let_def algebra_simps)
qed

section \<open>gmtime finds the date\<close>

lemma find_year_spec:
  assumes "find_year y d = (y', r)" "y = 1970 + int k"
  shows "\<exists>k'. y' = 1970 + int k' \<and> year_start k' + r = year_start k + d \<and> r < days_in_year y'"
  using assms
proof (induction y d arbitrary: k rule: find_year.induct)
  case (1 y d)
  show ?case
  proof (cases "d < days_in_year y")
    case True
    then have "y' = y" "r = d" using "1.prems"(1) by (simp_all add: find_year.simps [of y])
    then show ?thesis using True "1.prems"(2) by auto
  next
    case False
    then have "find_year (y + 1) (d - days_in_year y) = (y', r)"
      using "1.prems"(1) by (simp add: find_year.simps [of y])
    moreover have "y + 1 = 1970 + int (Suc k)" using "1.prems"(2) by simp
    ultimately obtain k' where "y' = 1970 + int k'" "r < days_in_year y'"
      "year_start k' + r = year_start (Suc k) + (d - days_in_year y)"
      using "1.IH" [OF False] by blast
    then show ?thesis using False "1.prems"(2) by (intro exI [of _ k']) simp
  qed
qed

lemma find_month_spec:
  assumes "find_month y m d = (m', r)"
  shows "month_start y m' + r = month_start y m + d \<and> r < days_in_month y m'"
  using assms
proof (induction y m d rule: find_month.induct)
  case (1 y m d)
  show ?case
  proof (cases "d < days_in_month y m")
    case True
    then show ?thesis using "1.prems" by (auto simp: find_month.simps [of y m])
  next
    case False
    then have "find_month y (Suc m) (d - days_in_month y m) = (m', r)"
      using "1.prems" by (simp add: find_month.simps [of y m])
    then show ?thesis using "1.IH" [OF False] False by simp
  qed
qed

lemma month_start_mono: "m \<le> n \<Longrightarrow> month_start y m \<le> month_start y n"
  by (induction n rule: dec_induct) auto

lemma month_start_12: "month_start y 12 = days_in_year y"
  by (simp add: days_in_month_def days_in_year_def)

lemma find_month_less_12:
  assumes "find_month y 0 d = (m, r)" "d < days_in_year y"
  shows "m < 12"
proof (rule ccontr)
  assume "\<not> m < 12"
  then have "days_in_year y \<le> month_start y m" using month_start_mono [of 12 m y] month_start_12 by simp
  then show False using find_month_spec [OF assms(1)] assms(2) by simp
qed

lemma year_start_mono: "j \<le> k \<Longrightarrow> year_start j \<le> year_start k"
  by (induction k rule: dec_induct) auto

lemma is_leap_400: "is_leap (y + 400 * e) = is_leap y"
proof -
  have "n dvd 400 * e \<Longrightarrow> n dvd (y + 400 * e) \<longleftrightarrow> n dvd y" for n :: int
    by (rule dvd_add_left_iff)
  moreover have "4 dvd 400 * e" "100 dvd 400 * e" "400 dvd 400 * e"
    using dvd_mult2 [of 4 "400 :: int" e] dvd_mult2 [of 100 "400 :: int" e] by simp_all
  ultimately show ?thesis by (simp only: is_leap_def)
qed

lemma year_start_400: "year_start (k + 400 * e) = year_start k + 146097 * e"
proof -
  have "leaps (1969 + int k + 400 * int e) = leaps (1969 + int k) + 97 * int e"
  proof -
    have "(1969 + int k + 400 * int e) div 4 = (1969 + int k) div 4 + 100 * int e"
      using div_mult_self2 [of 4 "1969 + int k" "100 * int e"] by (simp add: algebra_simps)
    moreover have "(1969 + int k + 400 * int e) div 100 = (1969 + int k) div 100 + 4 * int e"
      using div_mult_self2 [of 100 "1969 + int k" "4 * int e"] by (simp add: algebra_simps)
    moreover have "(1969 + int k + 400 * int e) div 400 = (1969 + int k) div 400 + int e"
      using div_mult_self2 [of 400 "1969 + int k" "int e"] by (simp add: algebra_simps)
    ultimately show ?thesis by (simp add: leaps_def)
  qed
  then have "int (year_start (k + 400 * e)) = int (year_start k + 146097 * e)"
    by (simp add: year_start_closed algebra_simps)
  then show ?thesis by (simp only: of_nat_eq_iff)
qed

lemma split_seconds:
  fixes s :: int
  shows "s div 3600 * 3600 + s div 60 mod 60 * 60 + s mod 60 = s"
    and "0 \<le> s \<Longrightarrow> s < 86400 \<Longrightarrow> 0 \<le> s div 3600 \<and> s div 3600 < 24"
proof -
  have "s div 3600 = s div 60 div 60" using zdiv_zmult2_eq [of 60 s 60] by simp
  then show "s div 3600 * 3600 + s div 60 mod 60 * 60 + s mod 60 = s"
    using mult_div_mod_eq [of 60 s] mult_div_mod_eq [of 60 "s div 60"] by linarith
  show "0 \<le> s \<Longrightarrow> s < 86400 \<Longrightarrow> 0 \<le> s div 3600 \<and> s div 3600 < 24"
    by linarith
qed

text \<open>The fields of \<open>gmtime t\<close> for a time after 1970.\<close>

lemma gmtime_fields:
  assumes "gmtime t = Some tm" "0 \<le> t"
  obtains k where "tm_year tm = int k + 70"
    "int (year_start k) + int (month_start (1970 + int k) (nat (tm_mon tm))) + (tm_mday tm - 1) = t div 86400"
    "secs_of_day tm = t mod 86400" "tm_in_range tm"
    "0 \<le> tm_wday tm" "tm_wday tm < 7" "tm_isdst tm = 0" "tm_sec tm < 60"
proof -
  let ?days = "t div 86400"
  define e where "e = nat (?days div 146097)"
  obtain y yday where y: "find_year 1970 (nat (?days mod 146097)) = (y, yday)" by fastforce
  obtain k where k: "y = 1970 + int k" "year_start k + yday = nat (?days mod 146097)" "yday < days_in_year y"
    using find_year_spec [OF y, of 0] by auto
  have e: "int e = ?days div 146097" using assms(2) by (simp add: e_def pos_imp_zdiv_nonneg_iff)
  obtain m d where m: "find_month (y + 400 * (?days div 146097)) 0 yday = (m, d)" by fastforce
  have year: "y + 400 * (?days div 146097) = 1970 + int (k + 400 * e)" using k(1) e by simp
  have leap: "is_leap (1970 + int (k + 400 * e)) = is_leap y"
    unfolding k(1) using is_leap_400 [of "1970 + int k" "int e"] by (simp add: add.assoc)
  then have "yday < days_in_year (1970 + int (k + 400 * e))" using k(3) by (simp add: days_in_year_def)
  then have m12: "m < 12" using find_month_less_12 m unfolding year by blast
  have md: "month_start (1970 + int (k + 400 * e)) m + d = yday" "d < days_in_month (1970 + int (k + 400 * e)) m"
    using find_month_spec [OF m] unfolding year by simp_all
  have d31: "d < 31" using md(2) by (auto simp: days_in_month_def split: if_splits)
  have tm: "tm = \<lparr>tm_sec = t mod 86400 mod 60, tm_min = t mod 86400 div 60 mod 60,
      tm_hour = t mod 86400 div 3600, tm_mday = int d + 1, tm_mon = int m,
      tm_year = 1970 + int (k + 400 * e) - 1900, tm_wday = (?days + 4) mod 7,
      tm_yday = int yday, tm_isdst = 0\<rparr>"
    using assms(1) y m unfolding gmtime_def Let_def year by (simp add: year split: if_splits)
  show thesis
  proof (rule that)
    show "tm_year tm = int (k + 400 * e) + 70" by (simp add: tm)
    have "int (year_start k) + int yday = ?days mod 146097"
      using arg_cong [OF k(2), of int] by simp
    moreover have "int (year_start (k + 400 * e)) = int (year_start k) + 146097 * int e"
      by (simp add: year_start_400)
    ultimately have "int (year_start (k + 400 * e)) + int yday = ?days"
      using e mult_div_mod_eq [of 146097 ?days] by linarith
    then show "int (year_start (k + 400 * e))
        + int (month_start (1970 + int (k + 400 * e)) (nat (tm_mon tm))) + (tm_mday tm - 1) = ?days"
      using md(1) by (simp add: tm)
    show "secs_of_day tm = t mod 86400" by (simp add: tm secs_of_day_def split_seconds(1))
    show "tm_in_range tm"
      using m12 d31 split_seconds(2) [of "t mod 86400"] pos_mod_bound [of 60 "t mod 86400"]
      by (simp add: tm tm_in_range_def less_imp_le)
  qed (simp_all add: tm)
qed

lemma word_of_int_ge_iff:
  assumes "- (2 ^ 31) \<le> a" "a < 2 ^ 31" "uint (numeral k :: u32) < 2 ^ 31"
  shows "numeral k \<le> (word_of_int a :: u32) \<longleftrightarrow> a < 0 \<or> uint (numeral k :: u32) \<le> a"
proof (cases "0 \<le> a")
  case True
  then show ?thesis using word_of_int_ge [of a k] assms(2) by simp
next
  case False
  have "uint (word_of_int a :: u32) = (a + 2 ^ 32) mod 2 ^ 32"
    by (simp add: uint_word_of_int_eq take_bit_eq_mod)
  also have "\<dots> = a + 2 ^ 32" using False assms(1) by (intro mod_pos_pos_trivial) simp_all
  finally show ?thesis using False assms by (simp add: word_le_def)
qed

lemma year_start_bounds: "365 * k \<le> year_start k" "year_start k \<le> 366 * k"
  by (induction k) (auto simp: days_in_year_def)

lemma month_start_le: "m < 12 \<Longrightarrow> month_start y m \<le> 335"
proof -
  assume "m < 12"
  then have "month_start y m \<le> month_start y 11" by (intro month_start_mono) simp
  also have "\<dots> \<le> 335" by (simp add: days_in_month_def)
  finally show ?thesis .
qed

lemma gmtime_timegm:
  assumes "gmtime t = Some tm" "0 \<le> t" "t < 86400 * 2 ^ 32"
  shows "gsk_timegm tm = t"
proof -
  obtain k where k: "tm_year tm = int k + 70"
    "int (year_start k) + int (month_start (1970 + int k) (nat (tm_mon tm))) + (tm_mday tm - 1) = t div 86400"
    "secs_of_day tm = t mod 86400" "tm_in_range tm"
    using gmtime_fields [OF assms(1,2)] by blast
  have days: "timegm_days tm = t div 86400"
    using timegm_calendar_days [OF k(4)] k(1,2) by simp
  have "0 \<le> t div 86400" "t div 86400 < 2 ^ 32" using assms(2,3) by linarith+
  moreover have "int (365 * k) \<le> t div 86400"
    using k(2,4) year_start_bounds(1) [of k] by (simp add: tm_in_range_def)
  ultimately have "gsk_timegm tm = t div 86400 * 86400 + t mod 86400"
    using timegm_words [OF k(4)] k(1,3) days by simp
  then show ?thesis by simp
qed

lemma gmtime_defined:
  assumes "0 \<le> t" "t < 86400 * 2 ^ 32"
  shows "\<exists>tm. gmtime t = Some tm"
proof -
  let ?days = "t div 86400"
  obtain y yday where y: "find_year 1970 (nat (?days mod 146097)) = (y, yday)" by fastforce
  obtain k where k: "y = 1970 + int k" "year_start k + yday = nat (?days mod 146097)"
    using find_year_spec [OF y, of 0] by auto
  have "365 * k \<le> nat (?days mod 146097)" using k(2) year_start_bounds(1) [of k] by simp
  then have "365 * int k < 146097" by (simp add: le_nat_iff)
  moreover have "?days < 2 ^ 32" using assms(2) by linarith
  then have "?days div 146097 \<le> 29398" by simp
  moreover have "0 \<le> ?days div 146097" using assms(1) by (simp add: pos_imp_zdiv_nonneg_iff)
  ultimately have "- (2 ^ 31) \<le> y + 400 * (?days div 146097) - 1900"
    "y + 400 * (?days div 146097) - 1900 < 2 ^ 31"
    using k(1) by simp_all
  then show ?thesis
    using y by (simp add: gmtime_def Let_def split: prod.splits)
qed

lemma leaps_mono: "a \<le> b \<Longrightarrow> leaps a \<le> leaps b"
proof (induction "nat (b - a)" arbitrary: b)
  case (Suc n)
  then have "leaps a \<le> leaps (b - 1)" by auto
  also have "\<dots> \<le> leaps b" using leaps_succ [of "b - 1"] by simp
  finally show ?case .
qed simp

section \<open>Properties\<close>

text \<open>C35: \<open>gsk_timegm\<close> agrees with the Gregorian calendar: for a date of the years
  1970 to 10001900 the result is the number of days the calendar counts from the epoch,
  times 86400, plus the seconds of the day; with a field out of range it is -1.  (A leap
  second is accepted, and the day of the month is only compared with 31.)\<close>

theorem timegm_calendar:
  assumes "70 \<le> tm_year t" "tm_year t \<le> 10 ^ 7"
    and "\<forall>f \<in> {tm_mon t, tm_hour t, tm_min t, tm_sec t}. - (2 ^ 31) \<le> f \<and> f < 2 ^ 31"
  shows "gsk_timegm t =
    (if tm_in_range t
     then (int (year_start (nat (tm_year t - 70))) + int (month_start (1900 + tm_year t) (nat (tm_mon t)))
            + (tm_mday t - 1)) * 86400 + tm_hour t * 3600 + tm_min t * 60 + tm_sec t
     else - 1)"
proof (cases "tm_in_range t")
  case True
  have "year_start (nat (tm_year t - 70)) \<le> 366 * 10 ^ 7"
    using year_start_bounds(2) [of "nat (tm_year t - 70)"] assms(1,2) by simp
  moreover have "month_start (1900 + tm_year t) (nat (tm_mon t)) \<le> 335"
    using True by (intro month_start_le) (auto simp: tm_in_range_def)
  ultimately have "0 \<le> timegm_days t" "timegm_days t < 2 ^ 32"
    using timegm_calendar_days [OF True assms(1)] True by (simp_all add: tm_in_range_def)
  then show ?thesis
    using timegm_words [OF True] timegm_calendar_days [OF True assms(1)] assms(1,2) True
    by (simp add: secs_of_day_def)
next
  case False
  then show ?thesis using assms(3) by (auto simp: gsk_timegm_def Let_def tm_in_range_def word_of_int_ge_iff)
qed

definition leap_day :: tm where
  "leap_day = \<lparr>tm_sec = 59, tm_min = 59, tm_hour = 23, tm_mday = 29, tm_mon = 1, tm_year = 72,
     tm_wday = 2, tm_yday = 59, tm_isdst = 0\<rparr>"

theorem timegm_calendar_witness:
  "gsk_timegm leap_day = (int (year_start 2) + int (month_start 1972 1) + 28) * 86400 + 23 * 3600 + 59 * 60 + 59"
  using timegm_calendar [of leap_day] by (simp add: leap_day_def tm_in_range_def)

text \<open>\<open>gsk_timegm\<close> inverts \<open>gmtime\<close> on every time of the first \<open>2 ^ 32\<close>
  days after the epoch.\<close>

theorem timegm_inverts_gmtime:
  assumes "0 \<le> t" "t < 86400 * 2 ^ 32"
  shows "\<exists>tm. gmtime t = Some tm \<and> gsk_timegm tm = t"
  using gmtime_defined [OF assms] gmtime_timegm [OF _ assms] by blast

theorem timegm_inverts_gmtime_witness: "\<exists>tm. gmtime 951782400 = Some tm \<and> gsk_timegm tm = 951782400"
  by (rule timegm_inverts_gmtime) simp_all

text \<open>For the years 1900 to 1969 the unsigned day count wraps: the result is not the
  negative time before the epoch but a time more than five million years after it.\<close>

theorem timegm_before_epoch:
  assumes "tm_in_range t" "0 \<le> tm_year t" "tm_year t < 70"
  shows "2 ^ 31 * 86400 < gsk_timegm t"
proof -
  let ?ly = "1900 + tm_year t - (if tm_mon t \<le> 1 then 1 else 0)"
  have m: "nat (tm_mon t) < 12" using assms(1) by (auto simp: tm_in_range_def)
  have "leaps 1899 \<le> leaps ?ly" "leaps ?ly \<le> leaps 1970" using assms(2,3) by (auto intro: leaps_mono)
  moreover have "leaps 1970 = 477" "leaps 1899 = 460" by (simp_all add: leaps_def)
  moreover have "uint (month_starts_in_days ! nat (tm_mon t)) \<le> 334"
    using m by (cases "nat (tm_mon t)" rule: month_cases) (simp_all add: month_starts_in_days_def)
  moreover have "0 \<le> uint (month_starts_in_days ! nat (tm_mon t))" by simp
  ultimately have "- (2 ^ 30) \<le> timegm_days t" "timegm_days t < 0"
    using assms by (simp_all add: timegm_days_def Let_def tm_in_range_def del: uint_ge_0)
  then have "(timegm_days t + 2 ^ 32) mod 2 ^ 32 = timegm_days t + 2 ^ 32"
    by (intro mod_pos_pos_trivial) simp_all
  then have "timegm_days t mod 2 ^ 32 = timegm_days t + 2 ^ 32" by simp
  moreover have "0 \<le> secs_of_day t" using assms(1) by (simp add: tm_in_range_def secs_of_day_def)
  ultimately show ?thesis
    using timegm_words [OF assms(1)] assms(2,3) \<open>- (2 ^ 30) \<le> timegm_days t\<close> by simp
qed

theorem timegm_before_epoch_witness:
  "2 ^ 31 * 86400 < gsk_timegm (leap_day\<lparr>tm_year := 69, tm_mon := 11, tm_mday := 31\<rparr>)"
  by (rule timegm_before_epoch) (simp_all add: leap_day_def tm_in_range_def)

end
