(* ===== verification/Gsk_Cstring.thy ===== *)
theory Gsk_Cstring
  imports Gsk_Prelude "HOL-Library.Monad_Syntax"
begin

text \<open>
  The part of the C library's string handling that the text parsers and printers of the
  sources call: the character classes of \<^verbatim>\<open>ctype.h\<close> in the C locale, \<open>strtol\<close> and
  \<open>strtoul\<close> in base 10 with their end pointers and saturation, and the integer
  conversions of \<open>printf\<close>.  A C string is the list of its bytes without the NUL; reading
  at its length yields the NUL and reading further is undefined (None).  The lemmas relate
  the conversions to the printed digits.
\<close>

section \<open>Characters\<close>

definition cstr :: "string \<Rightarrow> u8 list" where
  "cstr = map of_char"

definition char_at :: "u8 list \<Rightarrow> nat \<Rightarrow> u8 option" where
  "char_at s i = (if i < length s then Some (s ! i) else if i = length s then Some 0 else None)"

definition is_space :: "u8 \<Rightarrow> bool" where
  "is_space c \<longleftrightarrow> c = 32 \<or> (9 \<le> c \<and> c \<le> 13)"

definition is_digit :: "u8 \<Rightarrow> bool" where
  "is_digit c \<longleftrightarrow> 48 \<le> c \<and> c \<le> 57"

definition is_upper :: "u8 \<Rightarrow> bool" where
  "is_upper c \<longleftrightarrow> 65 \<le> c \<and> c \<le> 90"

definition is_lower :: "u8 \<Rightarrow> bool" where
  "is_lower c \<longleftrightarrow> 97 \<le> c \<and> c \<le> 122"

definition is_alpha :: "u8 \<Rightarrow> bool" where
  "is_alpha c \<longleftrightarrow> is_upper c \<or> is_lower c"

definition to_lower :: "u8 \<Rightarrow> u8" where
  "to_lower c = (if is_upper c then c + 32 else c)"

text \<open>The idiom \<open>while (s[i] != '\0' && P (s[i])) i++\<close>.\<close>

definition skip_while :: "(u8 \<Rightarrow> bool) \<Rightarrow> u8 list \<Rightarrow> nat \<Rightarrow> nat option" where
  "skip_while P s i =
     (if length s < i then None else Some (i + length (takeWhile P (drop i s))))"

section \<open>Reading numbers\<close>

definition digits_value :: "u8 list \<Rightarrow> nat" where
  "digits_value = foldl (\<lambda>n d. n * 10 + unat (d - 48)) 0"

text \<open>White space, an optional sign, digits: the sign, the digits and the number of bytes
  before the digits.\<close>

definition strto_scan :: "u8 list \<Rightarrow> bool \<times> u8 list \<times> nat" where
  "strto_scan s =
     (let ws = length (takeWhile is_space s);
          t = drop ws s
      in case t of
           [] \<Rightarrow> (False, [], ws)
         | c # r \<Rightarrow>
             if c = 45 then (True, takeWhile is_digit r, Suc ws)
             else if c = 43 then (False, takeWhile is_digit r, Suc ws)
             else (False, takeWhile is_digit t, ws))"

text \<open>\<open>strtol (s, &endp, 10)\<close>: the value and \<open>endp - s\<close>, which is 0 when there is
  no number.  The value saturates at the ends of a 64-bit \<open>long\<close>.\<close>

definition strtol :: "u8 list \<Rightarrow> int \<times> nat" where
  "strtol s =
     (case strto_scan s of (neg, ds, k) \<Rightarrow>
        if ds = [] then (0, 0)
        else
          (let v = (if neg then - int (digits_value ds) else int (digits_value ds))
           in (max (- (2 ^ 63)) (min (2 ^ 63 - 1) v), k + length ds)))"

text \<open>\<open>strtoul\<close>: saturation at \<open>ULONG_MAX\<close>, and negation modulo \<open>2 ^ 64\<close>.\<close>

definition strtoul :: "u8 list \<Rightarrow> u64 \<times> nat" where
  "strtoul s =
     (case strto_scan s of (neg, ds, k) \<Rightarrow>
        if ds = [] then (0, 0)
        else
          (let v = digits_value ds
           in (if 2 ^ 64 \<le> v then - 1 else if neg then - of_nat v else of_nat v, k + length ds)))"

text \<open>A \<open>long\<close> assigned to an \<open>int\<close>.\<close>

definition int_of_long :: "int \<Rightarrow> int" where
  "int_of_long v = sint (word_of_int v :: u32)"

section \<open>Printing numbers\<close>

fun decimal :: "nat \<Rightarrow> u8 list" where
  "decimal n = (if n < 10 then [48 + of_nat n] else decimal (n div 10) @ [48 + of_nat (n mod 10)])"

declare decimal.simps [simp del]

definition pad_left :: "u8 \<Rightarrow> nat \<Rightarrow> u8 list \<Rightarrow> u8 list" where
  "pad_left c w s = replicate (w - length s) c @ s"

text \<open>\<open>%d\<close>, \<open>%<w>d\<close>, \<open>%0<w>d\<close> and \<open>%0<w>u\<close>.\<close>

definition printf_d :: "int \<Rightarrow> u8 list" where
  "printf_d i = (if i < 0 then 45 # decimal (nat (- i)) else decimal (nat i))"

definition printf_wd :: "nat \<Rightarrow> int \<Rightarrow> u8 list" where
  "printf_wd w i = pad_left 32 w (printf_d i)"

definition printf_0d :: "nat \<Rightarrow> int \<Rightarrow> u8 list" where
  "printf_0d w i =
     (if i < 0 then 45 # pad_left 48 (w - 1) (decimal (nat (- i))) else pad_left 48 w (decimal (nat i)))"

definition printf_0u :: "nat \<Rightarrow> u32 \<Rightarrow> u8 list" where
  "printf_0u w u = pad_left 48 w (decimal (unat u))"

text \<open>\<open>snprintf\<close>: at most \<open>n - 1\<close> bytes of the text are stored before the NUL.\<close>

definition snprintf :: "nat \<Rightarrow> u8 list \<Rightarrow> u8 list" where
  "snprintf n text = take (n - 1) text"

section \<open>Digits\<close>

lemma unat_digit: "n < 10 \<Longrightarrow> unat (48 + of_nat n :: u8) = 48 + n"
  by (subst unat_add_no_wrap) (auto simp: unat_of_nat)

lemma unat_of_nat_u8: "n < 256 \<Longrightarrow> unat (of_nat n :: u8) = n"
  by (simp add: unat_of_nat)

lemma digit_minus: "n < 10 \<Longrightarrow> unat ((48 + of_nat n :: u8) - 48) = n"
  by (simp add: unat_of_nat)

lemma is_digit_digit [simp]: "n < 10 \<Longrightarrow> is_digit (48 + of_nat n)"
  by (simp add: is_digit_def word_le_nat_alt unat_digit)

lemma is_digit_48 [simp]: "is_digit 48"
  by (simp add: is_digit_def)

lemma decimal_digits: "\<forall>d \<in> set (decimal n). is_digit d"
  by (induction n rule: decimal.induct) (subst decimal.simps, auto)

lemma decimal_not_Nil [simp]: "decimal n \<noteq> []"
  by (subst decimal.simps) auto

lemma digits_value_append1: "digits_value (ds @ [d]) = digits_value ds * 10 + unat (d - 48)"
  by (simp add: digits_value_def)

lemma digits_value_decimal: "digits_value (decimal n) = n"
proof (induction n rule: decimal.induct)
  case (1 n)
  show ?case
  proof (cases "n < 10")
    case True
    then show ?thesis by (subst decimal.simps) (simp add: digits_value_def unat_of_nat_u8)
  next
    case False
    then show ?thesis
      using 1 by (subst decimal.simps) (simp add: digits_value_append1 unat_of_nat_u8)
  qed
qed

lemma digits_value_zeros: "digits_value (replicate k 48 @ ds) = digits_value ds"
  by (induction k) (simp_all add: digits_value_def)

lemma length_decimal_le: "n < 10 ^ k \<Longrightarrow> 0 < k \<Longrightarrow> length (decimal n) \<le> k"
proof (induction k arbitrary: n)
  case (Suc k)
  show ?case
  proof (cases "n < 10")
    case True
    then show ?thesis by (subst decimal.simps) simp
  next
    case False
    then have "0 < k" using Suc.prems by (cases k) auto
    moreover have "n div 10 < 10 ^ k" using Suc.prems by (simp add: less_mult_imp_div_less mult.commute)
    ultimately show ?thesis using False Suc.IH [of "n div 10"] by (subst decimal.simps) simp
  qed
qed simp

lemma digit_not_space: "is_digit c \<Longrightarrow> \<not> is_space c"
  by (auto simp: is_digit_def is_space_def word_le_nat_alt)

lemma digit_not_sign: "is_digit c \<Longrightarrow> c \<noteq> 45 \<and> c \<noteq> 43"
  by (auto simp: is_digit_def word_le_nat_alt)

lemma takeWhile_block: "\<forall>c \<in> set xs. P c \<Longrightarrow> (ys = [] \<or> \<not> P (hd ys)) \<Longrightarrow> takeWhile P (xs @ ys) = xs"
  by (cases ys) (auto simp: takeWhile_append2)

text \<open>The scan of a text that starts with digits.\<close>

lemma strto_scan_digits:
  assumes "\<forall>d \<in> set ds. is_digit d" "ds \<noteq> []" "rest = [] \<or> \<not> is_digit (hd rest)"
  shows "strto_scan (ds @ rest) = (False, ds, 0)"
proof -
  obtain d ds' where ds: "ds = d # ds'" using assms(2) by (cases ds) auto
  then have "is_digit d" using assms(1) by simp
  then have "takeWhile is_space (ds @ rest) = []" "d \<noteq> 45" "d \<noteq> 43"
    using ds digit_not_space digit_not_sign by auto
  moreover have "takeWhile is_digit (d # ds' @ rest) = ds"
    using assms takeWhile_block [of ds is_digit rest] ds by simp
  ultimately show ?thesis by (simp add: strto_scan_def ds)
qed

lemma strtol_digits:
  assumes "\<forall>d \<in> set ds. is_digit d" "ds \<noteq> []" "rest = [] \<or> \<not> is_digit (hd rest)"
    and "digits_value ds < 2 ^ 63"
  shows "strtol (ds @ rest) = (int (digits_value ds), length ds)"
  using strto_scan_digits [OF assms(1-3)] assms(2,4) by (simp add: strtol_def)

lemma strtoul_digits:
  assumes "\<forall>d \<in> set ds. is_digit d" "ds \<noteq> []" "rest = [] \<or> \<not> is_digit (hd rest)"
    and "digits_value ds < 2 ^ 64"
  shows "strtoul (ds @ rest) = (of_nat (digits_value ds), length ds)"
  using strto_scan_digits [OF assms(1-3)] assms(2,4) by (simp add: strtoul_def)

lemma int_of_long_id: "- (2 ^ 31) \<le> v \<Longrightarrow> v < 2 ^ 31 \<Longrightarrow> int_of_long v = v"
  by (simp add: int_of_long_def signed_of_int signed_take_bit_int_eq_self)

end
