(* ===== verification/Gsk_Date.thy ===== *)
theory Gsk_Date
  imports Gsk_Timegm Gsk_Cstring
begin

text \<open>
  Dates as text, \<^verbatim>\<open>src/src/common/gskdate.c\<close>: the name tables, the four parsers (RFC 1123,
  RFC 1036, asctime and ISO 8601) with their early returns, the printer, and the two
  functions on \<open>time_t\<close>.  A parser yields None when it reads behind the NUL of its
  argument, \<open>Some None\<close> when it returns FALSE, and otherwise the filled-in
  \<open>struct tm\<close> and the time zone offset in minutes.  Fields that a parser does not set
  keep the value they had.  The debug and warning messages are left out.
\<close>

abbreviation chr_space :: u8 where "chr_space \<equiv> 32"
abbreviation chr_plus :: u8 where "chr_plus \<equiv> 43"
abbreviation chr_comma :: u8 where "chr_comma \<equiv> 44"
abbreviation chr_minus :: u8 where "chr_minus \<equiv> 45"
abbreviation chr_dot :: u8 where "chr_dot \<equiv> 46"
abbreviation chr_colon :: u8 where "chr_colon \<equiv> 58"
abbreviation chr_T :: u8 where "chr_T \<equiv> 84"
abbreviation chr_Z :: u8 where "chr_Z \<equiv> 90"

text \<open>A chain of tests joined by \<open>||\<close>, each on the character at an index: evaluation
  stops at the first test that holds.\<close>

fun any_at :: "u8 list \<Rightarrow> (nat \<times> (u8 \<Rightarrow> bool)) list \<Rightarrow> bool option" where
  "any_at s [] = Some False"
| "any_at s ((i, P) # tests) =
     (case char_at s i of None \<Rightarrow> None | Some c \<Rightarrow> if P c then Some True else any_at s tests)"

definition all_at :: "u8 list \<Rightarrow> (nat \<times> (u8 \<Rightarrow> bool)) list \<Rightarrow> bool option" where
  "all_at s tests = map_option Not (any_at s (map (\<lambda>(i, P). (i, \<lambda>c. \<not> P c)) tests))"

definition strtol_at :: "u8 list \<Rightarrow> nat \<Rightarrow> (int \<times> nat) option" where
  "strtol_at s i = (if length s < i then None else Some (strtol (drop i s)))"

section \<open>Name tables\<close>

definition name3 :: "u8 \<Rightarrow> u8 \<Rightarrow> u8 \<Rightarrow> u32" where
  "name3 a b c = ucast a OR push_bit 8 (ucast b) OR push_bit 16 (ucast c)"

definition add_name3_to_index :: "string \<Rightarrow> int \<Rightarrow> (u32 \<rightharpoonup> int) \<Rightarrow> (u32 \<rightharpoonup> int)" where
  "add_name3_to_index lc_name3 i table =
     (let name = cstr lc_name3 in table(name3 (name ! 0) (name ! 1) (name ! 2) \<mapsto> i))"

definition day_of_week_from_name :: "u32 \<rightharpoonup> int" where
  "day_of_week_from_name = fold (\<lambda>(n, i). add_name3_to_index n i)
     [(''sun'', 1), (''mon'', 2), (''tue'', 3), (''wed'', 4), (''thu'', 5), (''fri'', 6), (''sat'', 7)] Map.empty"

definition month_from_name :: "u32 \<rightharpoonup> int" where
  "month_from_name = fold (\<lambda>(n, i). add_name3_to_index n i)
     [(''jan'', 1), (''feb'', 2), (''mar'', 3), (''apr'', 4), (''may'', 5), (''jun'', 6),
      (''jul'', 7), (''aug'', 8), (''sep'', 9), (''oct'', 10), (''nov'', 11), (''dec'', 12)] Map.empty"

definition time_offset_from_name :: "u32 \<rightharpoonup> int" where
  "time_offset_from_name = fold (\<lambda>(n, i). add_name3_to_index n i)
     [(''gmt'', 0), (''pst'', - 8 * 60), (''pdt'', - 7 * 60), (''mst'', - 7 * 60), (''mdt'', - 6 * 60),
      (''cst'', - 6 * 60), (''cdt'', - 5 * 60), (''est'', - 5 * 60), (''edt'', - 4 * 60)] Map.empty"

text \<open>A missing key of a hash table is the null pointer, 0 as an \<open>int\<close>.\<close>

definition lookup_name :: "(u32 \<rightharpoonup> int) \<Rightarrow> u8 list \<Rightarrow> nat \<Rightarrow> int option" where
  "lookup_name table s i = do {
     a \<leftarrow> char_at s i;
     b \<leftarrow> char_at s (i + 1);
     c \<leftarrow> char_at s (i + 2);
     Some (case table (name3 (to_lower a) (to_lower b) (to_lower c)) of None \<Rightarrow> 0 | Some v \<Rightarrow> v)
   }"

definition get_day_of_week :: "u8 list \<Rightarrow> nat \<Rightarrow> int option" where
  "get_day_of_week = lookup_name day_of_week_from_name"

definition get_month :: "u8 list \<Rightarrow> nat \<Rightarrow> int option" where
  "get_month = lookup_name month_from_name"

section \<open>Time and time zone\<close>

definition parse_military_time :: "u8 list \<Rightarrow> nat \<Rightarrow> (int \<times> int \<times> int) option option" where
  "parse_military_time s i = do {
     bad \<leftarrow> any_at s [(i, \<lambda>c. c = 0), (i + 1, \<lambda>c. c = 0), (i + 2, \<lambda>c. c \<noteq> chr_colon),
                      (i + 3, \<lambda>c. c = 0), (i + 4, \<lambda>c. c = 0), (i + 5, \<lambda>c. c \<noteq> chr_colon),
                      (i + 6, \<lambda>c. c = 0), (i + 7, \<lambda>c. c = 0)];
     if bad then Some None
     else do {
       (hour, _) \<leftarrow> strtol_at s i;
       (minute, _) \<leftarrow> strtol_at s (i + 3);
       (second, _) \<leftarrow> strtol_at s (i + 6);
       Some (Some (int_of_long hour, int_of_long minute, int_of_long second))
     }
   }"

definition parse_timezone_num :: "u8 list \<Rightarrow> nat \<Rightarrow> bool \<Rightarrow> int option" where
  "parse_timezone_num s i positive = do {
     short \<leftarrow> any_at s [(i, \<lambda>c. c = 0), (i + 1, \<lambda>c. c = 0), (i + 2, \<lambda>c. c = 0), (i + 3, \<lambda>c. c = 0)];
     if short then Some 0
     else
       (let hour = [s ! i, s ! (i + 1)];
            min = [s ! (i + 2), s ! (i + 3)];
            rv = int_of_long (fst (strtol hour) * 60 + fst (strtol min))
        in Some (if \<not> positive then - rv else rv))
   }"

definition parse_timezone :: "u8 list \<Rightarrow> nat \<Rightarrow> int option" where
  "parse_timezone s i = do {
     i \<leftarrow> skip_while is_space s i;
     c \<leftarrow> char_at s i;
     if c = chr_minus \<or> c = chr_plus \<or> is_digit c then
       (if c = chr_minus then parse_timezone_num s (i + 1) False
        else if c = chr_plus then parse_timezone_num s (i + 1) True
        else parse_timezone_num s i True)
     else do {
       short \<leftarrow> any_at s [(i, \<lambda>c. c = 0), (i + 1, \<lambda>c. c = 0), (i + 2, \<lambda>c. c = 0)];
       if short then Some 0 else lookup_name time_offset_from_name s i
     }
   }"

section \<open>The parsers\<close>

type_synonym date_result = "(tm \<times> int) option option"

text \<open>The assignments to \<open>out\<close> that the three textual parsers end with.\<close>

definition fill_tm :: "tm \<Rightarrow> int \<Rightarrow> int \<Rightarrow> int \<Rightarrow> int \<Rightarrow> int \<Rightarrow> int \<Rightarrow> int \<Rightarrow> tm" where
  "fill_tm out second minute hour day_of_month month year day_of_week =
     out\<lparr>tm_sec := second, tm_min := minute, tm_hour := hour, tm_mday := day_of_month,
         tm_mon := month - 1, tm_year := year - 1900, tm_wday := day_of_week - 1, tm_isdst := 0\<rparr>"

definition parse_1123 :: "u8 list \<Rightarrow> tm \<Rightarrow> date_result" where
  "parse_1123 date out = do {
     day_of_week \<leftarrow> get_day_of_week date 0;
     if day_of_week = 0 then Some None
     else do {
       c \<leftarrow> char_at date 3;
       if c \<noteq> chr_comma then Some None
       else do {
         index \<leftarrow> skip_while is_space date 4;
         (day_of_month, used) \<leftarrow> strtol_at date index;
         if used = 0 then Some None
         else do {
           index \<leftarrow> skip_while is_space date (index + used);
           month \<leftarrow> get_month date index;
           index \<leftarrow> skip_while is_space date (index + 4);
           (year, used) \<leftarrow> strtol_at date index;
           if used = 0 then Some None
           else do {
             index \<leftarrow> skip_while is_space date (index + used);
             time \<leftarrow> parse_military_time date index;
             (case time of
                None \<Rightarrow> Some None
              | Some (hour, minute, second) \<Rightarrow> do {
                  index \<leftarrow> skip_while is_space date (index + 8);
                  tzoffset \<leftarrow> parse_timezone date index;
                  let year = int_of_long year;
                  let year = (if year < 1900 then year + 1900 else year);
                  Some (Some (fill_tm out second minute hour (int_of_long day_of_month) month year
                                day_of_week, tzoffset))
                })
           }
         }
       }
     }
   }"

definition parse_1036 :: "u8 list \<Rightarrow> tm \<Rightarrow> date_result" where
  "parse_1036 date out = do {
     day_of_week \<leftarrow> get_day_of_week date 0;
     if day_of_week = 0 then Some None
     else do {
       index \<leftarrow> skip_while is_alpha date 0;
       c \<leftarrow> char_at date index;
       if c \<noteq> chr_comma then Some None
       else do {
         index \<leftarrow> skip_while is_space date (index + 1);
         (day_of_month, _) \<leftarrow> strtol_at date index;
         bad \<leftarrow> any_at date [(index + 2, \<lambda>c. c \<noteq> chr_minus), (index + 6, \<lambda>c. c \<noteq> chr_minus)];
         if bad then Some None
         else do {
           month \<leftarrow> get_month date (index + 3);
           if month = 0 then Some None
           else do {
             (year, _) \<leftarrow> strtol_at date (index + 7);
             let year = int_of_long year;
             let year = (if year < 1900 then year + 1900 else year);
             index \<leftarrow> skip_while is_digit date (index + 9);
             index \<leftarrow> skip_while is_space date index;
             time \<leftarrow> parse_military_time date index;
             (case time of
                None \<Rightarrow> Some None
              | Some (hour, minute, second) \<Rightarrow> do {
                  index \<leftarrow> skip_while is_space date (index + 8);
                  tzoffset \<leftarrow> parse_timezone date index;
                  Some (Some (fill_tm out second minute hour (int_of_long day_of_month) month year
                                day_of_week, tzoffset))
                })
           }
         }
       }
     }
   }"

text \<open>Here \<open>year - 1900\<close> can leave the range of an \<open>int\<close>, which is undefined.\<close>

definition parse_ansi_c :: "u8 list \<Rightarrow> tm \<Rightarrow> date_result" where
  "parse_ansi_c date out = do {
     day_of_week \<leftarrow> get_day_of_week date 0;
     if day_of_week = 0 then Some None
     else do {
       index \<leftarrow> skip_while is_space date 3;
       month \<leftarrow> get_month date index;
       if month = 0 then Some None
       else do {
         index \<leftarrow> skip_while is_space date (index + 3);
         (day_of_month, used) \<leftarrow> strtol_at date index;
         if used = 0 then Some None
         else do {
           index \<leftarrow> skip_while is_space date (index + used);
           time \<leftarrow> parse_military_time date index;
           (case time of
              None \<Rightarrow> Some None
            | Some (hour, minute, second) \<Rightarrow> do {
                index \<leftarrow> skip_while is_space date (index + 8);
                (year, _) \<leftarrow> strtol_at date index;
                let year = int_of_long year;
                if year = 0 then Some None
                else if year - 1900 < - (2 ^ 31) then None
                else Some (Some (fill_tm out second minute hour (int_of_long day_of_month) month year
                                   day_of_week, 0))
              })
         }
       }
     }
   }"

section \<open>ISO 8601\<close>

text \<open>The numbers with their digit counts (at most four, the arrays have five entries), and
  the number of characters used.  The digits and the characters are counted in a \<open>guint\<close>; the
  numbers here are those counts for texts shorter than \<open>2 ^ 32\<close> bytes.\<close>

fun parse_nums_loop ::
  "u8 list \<Rightarrow> u8 \<Rightarrow> u32 \<Rightarrow> nat \<Rightarrow> (u32 \<times> nat) list \<Rightarrow> nat \<Rightarrow> bool \<Rightarrow> (u32 \<times> nat) list \<times> nat" where
  "parse_nums_loop [] sep num num_digits nums n_chars last_was_digit =
     (if last_was_digit then nums @ [(num, num_digits)] else nums, n_chars)"
| "parse_nums_loop (c # rest) sep num num_digits nums n_chars last_was_digit =
     (if c = 0 \<or> c = chr_space \<or> \<not> length nums < 4 then
        (if last_was_digit then nums @ [(num, num_digits)] else nums, n_chars)
      else if is_digit c then
        parse_nums_loop rest sep ((if last_was_digit then num * 10 else num) + ucast (c - 48))
          (num_digits + 1) nums (n_chars + 1) True
      else
        (let nums' = (if last_was_digit then nums @ [(num, num_digits)] else nums);
             num' = (if last_was_digit then 0 else num);
             num_digits' = (if last_was_digit then 0 else num_digits)
         in if c \<noteq> sep then (nums', n_chars)
            else parse_nums_loop rest sep num' num_digits' nums' (n_chars + 1) False))"

definition parse_nums :: "u8 list \<Rightarrow> u8 \<Rightarrow> (u32 \<times> nat) list \<times> nat" where
  "parse_nums at sep = parse_nums_loop at sep 0 0 [] 0 False"

text \<open>Year, month, day and day of the year, by the number of digits.\<close>

definition iso8601_date_fields :: "(u32 \<times> nat) list \<Rightarrow> nat \<Rightarrow> (u32 \<times> u32 \<times> u32 \<times> int) option" where
  "iso8601_date_fields numbers n_date_chars =
     (let n_nums = length numbers;
          nums = map fst numbers;
          digits_per_num = map snd numbers;
          n_digits = sum_list digits_per_num
      in if n_digits = 2 then
           (if n_nums = 1 then Some (1900 + nums ! 0, 1, 1, - 1) else None)
         else if n_digits = 4 then
           (if n_nums = 1 then Some (nums ! 0, 1, 1, - 1)
            else if n_nums = 2 then
              (if digits_per_num ! 0 \<noteq> 2 then None else Some (1900 + nums ! 0, nums ! 1, 1, - 1))
            else None)
         else if n_digits = 6 then
           (if n_nums = 2 then
              (if digits_per_num ! 0 \<noteq> 4 then None else Some (nums ! 0, nums ! 1, 1, - 1))
            else if n_nums = 3 then Some (1900 + nums ! 0, nums ! 1, nums ! 2, - 1)
            else None)
         else if n_date_chars = 7 then
           (if n_nums = 1 then Some (nums ! 0 div 1000, 1, 1, sint (nums ! 0 mod 1000))
            else if n_nums = 2 then
              (if digits_per_num ! 0 \<noteq> 4 then None else Some (nums ! 0, 1, 1, sint (nums ! 1)))
            else None)
         else if n_digits = 8 then
           (if n_nums = 1 then
              Some (nums ! 0 div 10000, nums ! 0 div 100 mod 100, nums ! 0 mod 100, - 1)
            else if n_nums = 3 then
              (if digits_per_num ! 0 \<noteq> 4 \<or> digits_per_num ! 1 \<noteq> 2 then None
               else Some (nums ! 0, nums ! 1, nums ! 2, - 1))
            else None)
         else None)"

text \<open>Hours, minutes and seconds.\<close>

definition iso8601_time_fields :: "(u32 \<times> nat) list \<Rightarrow> (u32 \<times> u32 \<times> u32) option" where
  "iso8601_time_fields numbers =
     (let n_nums = length numbers;
          nums = map fst numbers;
          digits_per_num = map snd numbers
      in if n_nums = 3 then Some (nums ! 0, nums ! 1, nums ! 2)
         else if n_nums = 2 then Some (nums ! 0, nums ! 1, 0)
         else if n_nums = 1 then
           (if digits_per_num ! 0 = 2 then Some (nums ! 0, 0, 0)
            else if digits_per_num ! 0 = 4 then Some (nums ! 0 div 100, nums ! 0 mod 100, 0)
            else if digits_per_num ! 0 = 6 then
              Some (nums ! 0 div 100 div 100, nums ! 0 div 100 mod 100, nums ! 0 mod 100)
            else None)
         else None)"

text \<open>The suffix of the time: a fraction of the seconds is skipped, then \<open>Z\<close>, an offset,
  or the end.\<close>

definition two_digits :: "u8 list \<Rightarrow> nat \<Rightarrow> int" where
  "two_digits s i = (uint (s ! i) - 48) * 10 + (uint (s ! (i + 1)) - 48)"

definition iso8601_offset :: "u8 list \<Rightarrow> nat \<Rightarrow> int \<Rightarrow> int option option" where
  "iso8601_offset time n pm = do {
     bad \<leftarrow> any_at time [(n, \<lambda>c. \<not> is_digit c), (n + 1, \<lambda>c. \<not> is_digit c)];
     if bad then Some None
     else do {
       let hoffset = two_digits time n;
       c \<leftarrow> char_at time (n + 2);
       let n = (if c = chr_colon then n + 3 else n + 2);
       minutes \<leftarrow> all_at time [(n, \<lambda>c. c \<noteq> 0), (n, is_digit), (n + 1, is_digit)];
       let moffset = (if minutes then two_digits time n else 0);
       Some (Some (pm * (hoffset * 60 + moffset)))
     }
   }"

definition iso8601_timezone :: "u8 list \<Rightarrow> nat \<Rightarrow> int option option" where
  "iso8601_timezone time n_time_chars = do {
     c \<leftarrow> char_at time n_time_chars;
     n_time_chars \<leftarrow> (if c = chr_dot then skip_while is_digit time (n_time_chars + 1) else Some n_time_chars);
     c \<leftarrow> char_at time n_time_chars;
     if c = chr_Z then Some (Some 0)
     else if c = chr_minus \<or> c = chr_plus then
       iso8601_offset time (n_time_chars + 1) (if c = chr_plus then 1 else - 1)
     else if c \<noteq> 0 \<and> \<not> is_space c then Some None
     else Some (Some 0)
   }"

definition iso8601_time :: "u8 list \<Rightarrow> (u32 \<times> u32 \<times> u32 \<times> int) option option" where
  "iso8601_time time =
     (let (numbers, n_time_chars) = parse_nums time chr_colon
      in case iso8601_time_fields numbers of
           None \<Rightarrow> Some None
         | Some (hours, minutes, seconds) \<Rightarrow>
             map_option (map_option (\<lambda>timezone. (hours, minutes, seconds, timezone)))
               (iso8601_timezone time n_time_chars))"

text \<open>The separator between date and time; the result is the index of the time.\<close>

definition iso8601_separator :: "u8 list \<Rightarrow> nat \<Rightarrow> nat option option" where
  "iso8601_separator date n = do {
     c \<leftarrow> char_at date n;
     if c = chr_T then Some (Some (n + 1))
     else if c = chr_space then do {
       n \<leftarrow> skip_while is_space date n;
       c \<leftarrow> char_at date n;
       if c \<noteq> 0 \<and> \<not> is_digit c then Some None else Some (Some n)
     }
     else Some None
   }"

definition parse_iso8601 :: "u8 list \<Rightarrow> tm \<Rightarrow> date_result" where
  "parse_iso8601 date out =
     (let (numbers, n_date_chars) = parse_nums date chr_minus
      in case iso8601_date_fields numbers n_date_chars of
           None \<Rightarrow> Some None
         | Some (year, month, day, day_of_year) \<Rightarrow> do {
             sep \<leftarrow> iso8601_separator date n_date_chars;
             (case sep of
                None \<Rightarrow> Some None
              | Some n \<Rightarrow> do {
                  c \<leftarrow> char_at date n;
                  time \<leftarrow> (if c \<noteq> 0 then iso8601_time (drop n date) else Some (Some (0, 0, 0, 0)));
                  (case time of
                     None \<Rightarrow> Some None
                   | Some (hours, minutes, seconds, timezone) \<Rightarrow>
                       (let out = out\<lparr>tm_year := sint (year - 1900), tm_mon := sint (month - 1),
                                      tm_mday := sint day\<rparr>;
                            out = (if 0 \<le> day_of_year then out\<lparr>tm_yday := day_of_year, tm_mday := 0\<rparr> else out);
                            out = out\<lparr>tm_min := sint minutes, tm_hour := sint hours, tm_sec := sint seconds\<rparr>
                        in Some (Some (out, timezone))))
                })
           })"

section \<open>Entry points\<close>

definition GSK_DATE_FORMAT_1123 :: u32 where "GSK_DATE_FORMAT_1123 = 1"
definition GSK_DATE_FORMAT_1036 :: u32 where "GSK_DATE_FORMAT_1036 = 2"
definition GSK_DATE_FORMAT_ANSI_C :: u32 where "GSK_DATE_FORMAT_ANSI_C = 4"
definition GSK_DATE_FORMAT_ISO8601 :: u32 where "GSK_DATE_FORMAT_ISO8601 = 8"

definition gsk_date_parse :: "u8 list \<Rightarrow> tm \<Rightarrow> u32 \<Rightarrow> date_result" where
  "gsk_date_parse date_str tm_out allowed = do {
     short \<leftarrow> any_at date_str [(0, \<lambda>c. c = 0), (1, \<lambda>c. c = 0), (2, \<lambda>c. c = 0), (3, \<lambda>c. c = 0)];
     if short then Some None
     else do {
       named \<leftarrow> all_at date_str [(0, is_alpha), (0, is_upper), (1, is_alpha), (1, is_lower),
                                 (2, is_alpha), (2, is_lower)];
       c \<leftarrow> char_at date_str 3;
       digits \<leftarrow> all_at date_str [(0, is_digit), (1, is_digit)];
       if named \<and> is_space c \<and> allowed AND GSK_DATE_FORMAT_ANSI_C = GSK_DATE_FORMAT_ANSI_C then
         parse_ansi_c date_str tm_out
       else if named \<and> c = chr_comma \<and> allowed AND GSK_DATE_FORMAT_1123 = GSK_DATE_FORMAT_1123 then
         parse_1123 date_str tm_out
       else if named \<and> is_alpha c \<and> is_lower c \<and> allowed AND GSK_DATE_FORMAT_1036 = GSK_DATE_FORMAT_1036 then
         parse_1036 date_str tm_out
       else if digits \<and> allowed AND GSK_DATE_FORMAT_ISO8601 = GSK_DATE_FORMAT_ISO8601 then
         parse_iso8601 date_str tm_out
       else Some None
     }
   }"

text \<open>\<open>tm_out\<close> is what the uninitialised local variable happens to hold.\<close>

definition gsk_date_parse_timet :: "tm \<Rightarrow> u8 list \<Rightarrow> u32 \<Rightarrow> int option option" where
  "gsk_date_parse_timet tm_out date_str formats_allowed = do {
     parsed \<leftarrow> gsk_date_parse date_str tm_out formats_allowed;
     (case parsed of
        None \<Rightarrow> Some None
      | Some (tm, tz_offset) \<Rightarrow>
          (let out = gsk_timegm tm
           in if out = - 1 then Some None else Some (Some (out - tz_offset * 60))))
   }"

section \<open>Printing\<close>

definition day_of_week_to_full_name :: "string list" where
  "day_of_week_to_full_name =
     [''Sunday'', ''Monday'', ''Tuesday'', ''Wednesday'', ''Thursday'', ''Friday'', ''Saturday'']"

definition day_of_week_to_three_letter_stud_capped :: "string list" where
  "day_of_week_to_three_letter_stud_capped = [''Sun'', ''Mon'', ''Tue'', ''Wed'', ''Thu'', ''Fri'', ''Sat'']"

definition month_to_three_letter_stud_capped :: "string list" where
  "month_to_three_letter_stud_capped =
     [''Jan'', ''Feb'', ''Mar'', ''Apr'', ''May'', ''Jun'', ''Jul'', ''Aug'', ''Sep'', ''Oct'', ''Nov'', ''Dec'']"

text \<open>An index outside a name array is undefined.\<close>

definition name_at :: "string list \<Rightarrow> int \<Rightarrow> u8 list option" where
  "name_at names i = (if 0 \<le> i \<and> nat i < length names then Some (cstr (names ! nat i)) else None)"

definition print_hms :: "tm \<Rightarrow> u8 list" where
  "print_hms tm = printf_0d 2 (tm_hour tm) @ [chr_colon] @ printf_0d 2 (tm_min tm) @ [chr_colon]
     @ printf_0d 2 (tm_sec tm)"

definition gsk_date_print :: "tm \<Rightarrow> nat \<Rightarrow> u32 \<Rightarrow> u8 list option" where
  "gsk_date_print tm date_str_max_len format =
     (if format AND GSK_DATE_FORMAT_1036 = GSK_DATE_FORMAT_1036 then do {
        day \<leftarrow> name_at day_of_week_to_full_name (tm_wday tm);
        month \<leftarrow> name_at month_to_three_letter_stud_capped (tm_mon tm);
        Some (snprintf date_str_max_len
          (day @ cstr '', '' @ printf_0d 2 (tm_mday tm) @ [chr_minus] @ month @ [chr_minus]
           @ printf_d (tm_year tm) @ [chr_space] @ print_hms tm @ cstr '' GMT''))
      }
      else if format AND GSK_DATE_FORMAT_1123 = GSK_DATE_FORMAT_1123 then do {
        day \<leftarrow> name_at day_of_week_to_three_letter_stud_capped (tm_wday tm);
        month \<leftarrow> name_at month_to_three_letter_stud_capped (tm_mon tm);
        Some (snprintf date_str_max_len
          (day @ cstr '', '' @ printf_0d 2 (tm_mday tm) @ [chr_space] @ month @ [chr_space]
           @ printf_d (tm_year tm + 1900) @ [chr_space] @ print_hms tm @ cstr '' GMT''))
      }
      else if format AND GSK_DATE_FORMAT_ANSI_C = GSK_DATE_FORMAT_ANSI_C then do {
        day \<leftarrow> name_at day_of_week_to_three_letter_stud_capped (tm_wday tm);
        month \<leftarrow> name_at month_to_three_letter_stud_capped (tm_mon tm);
        Some (snprintf date_str_max_len
          (day @ [chr_space] @ month @ [chr_space] @ printf_wd 2 (tm_mday tm) @ [chr_space]
           @ print_hms tm @ [chr_space] @ printf_d (tm_year tm + 1900) @ cstr '' GMT''))
      }
      else if format AND GSK_DATE_FORMAT_ISO8601 = GSK_DATE_FORMAT_ISO8601 then
        Some (snprintf date_str_max_len
          (printf_0u 4 (word_of_int (tm_year tm + 1900)) @ printf_0u 2 (word_of_int (tm_mon tm + 1))
           @ printf_0u 2 (word_of_int (tm_mday tm)) @ [chr_T] @ printf_0u 2 (word_of_int (tm_hour tm))
           @ printf_0u 2 (word_of_int (tm_min tm)) @ printf_0u 2 (word_of_int (tm_sec tm)) @ [chr_Z]))
      else Some (snprintf date_str_max_len (cstr ''error'')))"

text \<open>None also when \<open>gmtime\<close> fails and nothing is printed.\<close>

definition gsk_date_print_timet :: "int \<Rightarrow> nat \<Rightarrow> u32 \<Rightarrow> u8 list option" where
  "gsk_date_print_timet t date_str_max_len format = do {
     tm \<leftarrow> gmtime t;
     gsk_date_print tm date_str_max_len format
   }"

end
