(* ===== verification/Gsk_Date_Reading.thy ===== *)
theory Gsk_Date_Reading
  imports Gsk_Date
begin

text \<open>
  What the scanning routines of the date parsers find at a position of a text: numbers and
  names are read back as they were printed.  Used for the round trips of
  \<^verbatim>\<open>Gsk_Date_Properties\<close>.
\<close>

section \<open>Positions in a text\<close>

text \<open>\<open>s\<close> at position \<open>i\<close> reads \<open>t\<close>.\<close>

definition reads :: "u8 list \<Rightarrow> nat \<Rightarrow> u8 list \<Rightarrow> bool" where
  "reads s i t \<longleftrightarrow> i \<le> length s \<and> drop i s = t"

lemma reads_start: "reads s 0 s"
  by (simp add: reads_def)

lemma reads_append: "reads s i (u @ t) \<Longrightarrow> reads s (i + length u) t"
proof -
  assume r: "reads s i (u @ t)"
  then have "drop (i + length u) s = drop (length u) (u @ t)"
    by (metis add.commute drop_drop reads_def)
  moreover have "length s - i = length u + length t" using r by (metis length_append length_drop reads_def)
  ultimately show ?thesis using r by (auto simp: reads_def)
qed

lemma reads_char_at: "reads s i t \<Longrightarrow> char_at s (i + k) = char_at t k"
  by (auto simp: reads_def char_at_def nth_append)

lemma reads_char_at0: "reads s i t \<Longrightarrow> char_at s i = char_at t 0"
  using reads_char_at [of s i t 0] by simp

lemma reads_strtol: "reads s i t \<Longrightarrow> strtol_at s i = Some (strtol t)"
  by (auto simp: reads_def strtol_at_def)

lemma reads_skip: "reads s i t \<Longrightarrow> skip_while P s i = Some (i + length (takeWhile P t))"
  by (auto simp: reads_def skip_while_def)

lemma char_at_Cons [simp]: "char_at (c # t) 0 = Some c" "char_at (c # t) (Suc k) = char_at t k"
  by (simp_all add: char_at_def)

lemma char_at_Nil [simp]: "char_at [] 0 = Some 0"
  by (simp add: char_at_def)

lemma char_at_numeral [simp]: "char_at (c # t) (numeral k) = char_at t (pred_numeral k)"
  by (simp add: numeral_eq_Suc)

lemma reads_Cons: "reads s i (a # t) \<Longrightarrow> reads s (i + 1) t"
  using reads_append [of s i "[a]"] by simp

lemma reads_Cons3: "reads s i (a # b # c # t) \<Longrightarrow> reads s (i + 3) t"
  using reads_append [of s i "[a, b, c]"] by (simp add: numeral_3_eq_3)

lemma name3_parts:
  "ucast (name3 a b c) = a" "ucast (drop_bit 8 (name3 a b c)) = b" "ucast (drop_bit 16 (name3 a b c)) = c"
  unfolding name3_def
  by (rule bit_word_eqI; auto simp: bit_simps dest: bit_imp_le_length)+

lemma name3_inject [simp]: "name3 a b c = name3 d e f \<longleftrightarrow> a = d \<and> b = e \<and> c = f"
  using name3_parts by metis

lemmas name_tables = day_of_week_from_name_def month_from_name_def time_offset_from_name_def
  day_of_week_to_three_letter_stud_capped_def day_of_week_to_full_name_def
  month_to_three_letter_stud_capped_def add_name3_to_index_def

lemma reads_lookup: "reads s i (a # b # c # t) \<Longrightarrow>
  lookup_name table s i =
    Some (case table (name3 (to_lower a) (to_lower b) (to_lower c)) of None \<Rightarrow> 0 | Some v \<Rightarrow> v)"
  using reads_char_at [of s i "a # b # c # t" 1] reads_char_at [of s i "a # b # c # t" 2]
  by (simp add: lookup_name_def reads_char_at0)

section \<open>Printed numbers are read back\<close>

lemma two_digit_text:
  assumes "0 \<le> v" "v < 100"
  shows "printf_0d 2 v = [48 + of_nat (nat v div 10), 48 + of_nat (nat v mod 10)]"
proof (cases "nat v < 10")
  case True
  then have "decimal (nat v) = [48 + of_nat (nat v)]" by (subst decimal.simps) simp
  then show ?thesis using assms(1) True by (simp add: printf_0d_def pad_left_def)
next
  case False
  have "nat v div 10 < 10" using assms by auto
  then have "decimal (nat v div 10) = [48 + of_nat (nat v div 10)]" by (subst decimal.simps) simp
  moreover have "decimal (nat v) = decimal (nat v div 10) @ [48 + of_nat (nat v mod 10)]"
    using False by (subst decimal.simps) simp
  ultimately show ?thesis using assms(1) by (simp add: printf_0d_def pad_left_def)
qed

lemma two_digits_read:
  assumes "0 \<le> v" "v < 100"
  obtains a b where "printf_0d 2 v = [a, b]" "is_digit a" "is_digit b"
    "digits_value [a, b] = nat v"
proof (rule that [OF two_digit_text [OF assms]])
  have "nat v div 10 < 10" using assms by auto
  then show "is_digit (48 + of_nat (nat v div 10))" by simp
  show "is_digit (48 + of_nat (nat v mod 10))" by simp
  show "digits_value [48 + of_nat (nat v div 10), 48 + of_nat (nat v mod 10)] = nat v"
    using \<open>nat v div 10 < 10\<close> by (simp add: digits_value_def unat_of_nat_u8)
qed

lemma strtol_two:
  assumes "0 \<le> v" "v < 100" "rest = [] \<or> \<not> is_digit (hd rest)"
  shows "strtol (printf_0d 2 v @ rest) = (v, 2)"
proof -
  obtain a b where "printf_0d 2 v = [a, b]" "is_digit a" "is_digit b" "digits_value [a, b] = nat v"
    using two_digits_read [OF assms(1,2)] .
  then show ?thesis using strtol_digits [of "[a, b]" rest] assms by simp
qed

lemma strtol_printf_d:
  assumes "0 \<le> v" "v < 2 ^ 31" "rest = [] \<or> \<not> is_digit (hd rest)"
  shows "strtol (printf_d v @ rest) = (v, length (printf_d v))"
  using strtol_digits [OF decimal_digits decimal_not_Nil assms(3), of "nat v"] assms(1,2)
  by (simp add: printf_d_def digits_value_decimal)

lemma digit_nonzero: "is_digit c \<Longrightarrow> c \<noteq> 0"
  by (auto simp: is_digit_def)

lemma not_digit [simp]: "\<not> is_digit 32" "\<not> is_digit 58" "\<not> is_digit 45"
  by (simp_all add: is_digit_def)

lemma military_read:
  assumes "reads s i (print_hms tm @ rest)" "tm_in_range tm" "rest = [] \<or> \<not> is_digit (hd rest)"
  shows "parse_military_time s i = Some (Some (tm_hour tm, tm_min tm, tm_sec tm))"
proof -
  have r: "0 \<le> tm_hour tm" "tm_hour tm < 100" "0 \<le> tm_min tm" "tm_min tm < 100" "0 \<le> tm_sec tm" "tm_sec tm < 100"
    using assms(2) by (auto simp: tm_in_range_def)
  obtain a b where h: "printf_0d 2 (tm_hour tm) = [a, b]" "is_digit a" "is_digit b"
    using two_digits_read [OF r(1,2)] by metis
  obtain c d where m: "printf_0d 2 (tm_min tm) = [c, d]" "is_digit c" "is_digit d"
    using two_digits_read [OF r(3,4)] by metis
  obtain e f where sec: "printf_0d 2 (tm_sec tm) = [e, f]" "is_digit e" "is_digit f"
    using two_digits_read [OF r(5,6)] by metis
  have t0: "reads s i (printf_0d 2 (tm_hour tm) @ (58 # printf_0d 2 (tm_min tm) @ 58 # printf_0d 2 (tm_sec tm) @ rest))"
    using assms(1) by (simp add: print_hms_def)
  have t3: "reads s (i + 3) (printf_0d 2 (tm_min tm) @ (58 # printf_0d 2 (tm_sec tm) @ rest))"
    using reads_Cons3 [of s i a b 58] t0 by (simp add: h(1))
  have t6: "reads s (i + 6) (printf_0d 2 (tm_sec tm) @ rest)"
    using reads_Cons3 [of s "i + 3" c d 58] t3 by (simp add: m(1) add.commute)
  have n: "strtol_at s i = Some (tm_hour tm, 2)" "strtol_at s (i + 3) = Some (tm_min tm, 2)"
    "strtol_at s (i + 6) = Some (tm_sec tm, 2)"
    using reads_strtol [OF t0] reads_strtol [OF t3] reads_strtol [OF t6] strtol_two r assms(3) by simp_all
  have chars: "char_at s i = Some a" "char_at s (i + 1) = Some b" "char_at s (i + 2) = Some 58"
    "char_at s (i + 3) = Some c" "char_at s (i + 4) = Some d" "char_at s (i + 5) = Some 58"
    "char_at s (i + 6) = Some e" "char_at s (i + 7) = Some f"
    by (simp_all only: reads_char_at [OF t0] reads_char_at0 [OF t0] h m sec append_Cons) simp_all
  have "any_at s [(i, \<lambda>c. c = 0), (i + 1, \<lambda>c. c = 0), (i + 2, \<lambda>c. c \<noteq> chr_colon),
      (i + 3, \<lambda>c. c = 0), (i + 4, \<lambda>c. c = 0), (i + 5, \<lambda>c. c \<noteq> chr_colon),
      (i + 6, \<lambda>c. c = 0), (i + 7, \<lambda>c. c = 0)] = Some False"
    unfolding any_at.simps chars using h m sec by (simp add: digit_nonzero)
  then show ?thesis
    unfolding parse_military_time_def n using r by (simp add: int_of_long_id)
qed

lemma gmt_read:
  assumes "reads s i [71, 77, 84]"
  shows "parse_timezone s i = Some 0"
proof -
  have "skip_while is_space s i = Some i" using reads_skip [OF assms] by (simp add: is_space_def)
  moreover have "lookup_name time_offset_from_name s i = Some 0"
    unfolding reads_lookup [OF assms] by (simp add: name_tables to_lower_def is_upper_def cstr_def Let_def)
  moreover have "char_at s i = Some 71" "char_at s (i + 1) = Some 77" "char_at s (i + 2) = Some 84"
    by (simp_all only: reads_char_at [OF assms] reads_char_at0 [OF assms]) simp_all
  ultimately show ?thesis
    by (simp add: parse_timezone_def is_digit_def)
qed

section \<open>Printed names are read back\<close>

definition name_ok :: "(u32 \<rightharpoonup> int) \<Rightarrow> string list \<Rightarrow> nat \<Rightarrow> bool" where
  "name_ok table names i =
     (case cstr (names ! i) of
        a # b # c # r \<Rightarrow> is_upper a \<and> is_lower b \<and> is_lower c \<and> list_all is_lower r \<and>
          table (name3 (to_lower a) (to_lower b) (to_lower c)) = Some (int i + 1)
      | _ \<Rightarrow> False)"

lemma names_ok:
  "list_all (name_ok day_of_week_from_name day_of_week_to_three_letter_stud_capped) [0..<7]"
  "list_all (name_ok day_of_week_from_name day_of_week_to_full_name) [0..<7]"
  "list_all (name_ok month_from_name month_to_three_letter_stud_capped) [0..<12]"
  by (simp_all add: upt_rec name_ok_def cstr_def name_tables to_lower_def is_upper_def is_lower_def Let_def)

lemma names_length:
  "list_all (\<lambda>n. length n = 3) day_of_week_to_three_letter_stud_capped"
  "list_all (\<lambda>n. 6 \<le> length n \<and> length n \<le> 9) day_of_week_to_full_name"
  "list_all (\<lambda>n. length n = 3) month_to_three_letter_stud_capped"
  "length day_of_week_to_three_letter_stud_capped = 7" "length day_of_week_to_full_name = 7"
  "length month_to_three_letter_stud_capped = 12"
  by (simp_all add: name_tables)

lemma length_cstr [simp]: "length (cstr n) = length n"
  by (simp add: cstr_def)

lemma length_3_cases: "length xs = 3 \<Longrightarrow> \<exists>a b c. xs = [a, b, c]"
  by (auto simp: length_Suc_conv numeral_3_eq_3)

lemma length_4_cases: "4 \<le> length xs \<Longrightarrow> \<exists>a b c d r. xs = a # b # c # d # r"
  by (auto simp: Suc_le_length_iff numeral_eq_Suc)

lemma day3_name:
  assumes "0 \<le> w" "w < 7"
  obtains a b c where "name_at day_of_week_to_three_letter_stud_capped w = Some [a, b, c]"
    "is_upper a" "is_lower b" "is_lower c"
    "day_of_week_from_name (name3 (to_lower a) (to_lower b) (to_lower c)) = Some (w + 1)"
proof -
  let ?n = "day_of_week_to_three_letter_stud_capped ! nat w"
  have w: "nat w < 7" using assms by simp
  then have "name_ok day_of_week_from_name day_of_week_to_three_letter_stud_capped (nat w)"
    using names_ok(1) by (simp add: list_all_iff)
  moreover have "length (cstr ?n) = 3"
    using names_length(1,4) w by (simp add: list_all_length)
  then obtain a b c where "cstr ?n = [a, b, c]"
    using length_3_cases by blast
  ultimately show thesis
    using that [of a b c] assms w by (simp add: name_ok_def name_at_def names_length)
qed

lemma month_name:
  assumes "0 \<le> m" "m < 12"
  obtains a b c where "name_at month_to_three_letter_stud_capped m = Some [a, b, c]"
    "is_upper a" "is_lower b" "is_lower c"
    "month_from_name (name3 (to_lower a) (to_lower b) (to_lower c)) = Some (m + 1)"
proof -
  let ?n = "month_to_three_letter_stud_capped ! nat m"
  have m: "nat m < 12" using assms by simp
  then have "name_ok month_from_name month_to_three_letter_stud_capped (nat m)"
    using names_ok(3) by (simp add: list_all_iff)
  moreover have "length (cstr ?n) = 3"
    using names_length(3,6) m by (simp add: list_all_length)
  then obtain a b c where "cstr ?n = [a, b, c]"
    using length_3_cases by blast
  ultimately show thesis
    using that [of a b c] assms m by (simp add: name_ok_def name_at_def names_length)
qed

lemma day_full_name:
  assumes "0 \<le> w" "w < 7"
  obtains a b c d r where "name_at day_of_week_to_full_name w = Some (a # b # c # d # r)"
    "is_upper a" "is_lower b" "is_lower c" "is_lower d" "list_all is_lower r" "length r \<le> 5"
    "day_of_week_from_name (name3 (to_lower a) (to_lower b) (to_lower c)) = Some (w + 1)"
proof -
  let ?n = "day_of_week_to_full_name ! nat w"
  have w: "nat w < 7" using assms by simp
  then have "name_ok day_of_week_from_name day_of_week_to_full_name (nat w)"
    using names_ok(2) by (simp add: list_all_iff)
  moreover have l: "6 \<le> length (cstr ?n)" "length (cstr ?n) \<le> 9"
    using names_length(2,5) w by (simp_all add: list_all_length)
  then obtain a b c d r where "cstr ?n = a # b # c # d # r"
    using length_4_cases [of "cstr ?n"] by auto
  ultimately show thesis
    using that [of a b c d r] assms w l by (simp add: name_ok_def name_at_def names_length)
qed

lemma letter_classes:
  "is_upper c \<Longrightarrow> \<not> is_space c \<and> \<not> is_digit c \<and> is_alpha c \<and> c \<noteq> 0 \<and> c \<noteq> chr_comma"
  "is_lower c \<Longrightarrow> \<not> is_space c \<and> \<not> is_digit c \<and> is_alpha c \<and> c \<noteq> 0 \<and> c \<noteq> chr_comma"
  by (auto simp: is_upper_def is_lower_def is_alpha_def is_space_def is_digit_def word_le_nat_alt)

lemma skip_one: "reads s i (32 # c # t) \<Longrightarrow> \<not> is_space c \<Longrightarrow> skip_while is_space s i = Some (i + 1)"
  using reads_skip [of s i] by (simp add: is_space_def)

lemma skip_none: "reads s i (c # t) \<Longrightarrow> \<not> P c \<Longrightarrow> skip_while P s i = Some i"
  using reads_skip [of s i] by simp

lemma printf_d_head:
  assumes "0 \<le> v"
  obtains e es where "printf_d v = e # es" "is_digit e" "list_all is_digit es"
  using assms decimal_digits [of "nat v"] decimal_not_Nil [of "nat v"]
  by (cases "decimal (nat v)") (auto simp: printf_d_def list_all_iff)

end
