(* ===== verification/Gsk_Date_Properties.thy ===== *)
theory Gsk_Date_Properties
  imports Gsk_Date_Reading
begin

text \<open>
  Round trips of \<^verbatim>\<open>src/src/common/gskdate.c\<close>: a date printed in one of the four formats is
  parsed back, as a \<open>struct tm\<close> and as a \<open>time_t\<close>; and the behaviour of the
  parsers on other texts.
\<close>

section \<open>The textual formats\<close>

text \<open>What the printers and parsers need of a broken-down time.\<close>

definition printable :: "tm \<Rightarrow> bool" where
  "printable tm \<longleftrightarrow> tm_in_range tm \<and> 0 \<le> tm_wday tm \<and> tm_wday tm < 7 \<and> tm_isdst tm = 0"

lemma fill_tm_eq:
  "tm_isdst tm = 0 \<Longrightarrow>
   fill_tm out (tm_sec tm) (tm_min tm) (tm_hour tm) (tm_mday tm) (tm_mon tm + 1) (tm_year tm + 1900)
     (tm_wday tm + 1) = tm\<lparr>tm_yday := tm_yday out\<rparr>"
  by (cases tm; cases out) (simp add: fill_tm_def)

lemma printed_parts:
  assumes "printable tm"
  obtains d1 d2 h hs where "printf_0d 2 (tm_mday tm) = [d1, d2]" "is_digit d1" "is_digit d2"
    "print_hms tm = h # hs" "is_digit h" "length (print_hms tm) = 8"
proof -
  have r: "0 \<le> tm_mday tm" "tm_mday tm < 100" "0 \<le> tm_hour tm" "tm_hour tm < 100" "0 \<le> tm_min tm"
    "tm_min tm < 100" "0 \<le> tm_sec tm" "tm_sec tm < 100"
    using assms by (auto simp: printable_def tm_in_range_def)
  obtain d1 d2 where "printf_0d 2 (tm_mday tm) = [d1, d2]" "is_digit d1" "is_digit d2"
    using two_digits_read [OF r(1,2)] by metis
  moreover obtain a b where "printf_0d 2 (tm_hour tm) = [a, b]" "is_digit a"
    using two_digits_read [OF r(3,4)] by metis
  moreover have "length (print_hms tm) = 8"
    using r by (simp add: print_hms_def two_digit_text)
  ultimately show thesis using that [of d1 d2 a] by (simp add: print_hms_def)
qed

text \<open>The end of a text: time of day and time zone.\<close>

lemma time_and_zone:
  assumes "reads s i (32 # print_hms tm @ [32, 71, 77, 84])" "printable tm"
  shows "skip_while is_space s i = Some (i + 1)"
    and "parse_military_time s (i + 1) = Some (Some (tm_hour tm, tm_min tm, tm_sec tm))"
    and "skip_while is_space s (i + 1 + 8) = Some (i + 1 + 8 + 1)"
    and "parse_timezone s (i + 1 + 8 + 1) = Some 0"
proof -
  obtain h hs where h: "print_hms tm = h # hs" "is_digit h" and len: "length (print_hms tm) = 8"
    using printed_parts [OF assms(2)] by metis
  show "skip_while is_space s i = Some (i + 1)"
    using skip_one [of s i h] assms(1) h digit_not_space by simp
  have r1: "reads s (i + 1) (print_hms tm @ [32, 71, 77, 84])" using assms(1) by (rule reads_Cons)
  then show "parse_military_time s (i + 1) = Some (Some (tm_hour tm, tm_min tm, tm_sec tm))"
    using assms(2) by (rule_tac military_read) (auto simp: printable_def)
  have r2: "reads s (i + 1 + 8) [32, 71, 77, 84]" using reads_append [OF r1] len by simp
  then show "skip_while is_space s (i + 1 + 8) = Some (i + 1 + 8 + 1)"
    using skip_one [of s "i + 1 + 8" 71] by (simp add: is_space_def)
  show "parse_timezone s (i + 1 + 8 + 1) = Some 0"
    using gmt_read [OF reads_Cons [OF r2]] .
qed

lemma parse_1123_text:
  assumes tm: "printable tm" and y: "0 \<le> tm_year tm" "tm_year tm + 1900 < 2 ^ 31"
    and day: "is_upper a" "is_lower b" "is_lower c"
      "day_of_week_from_name (name3 (to_lower a) (to_lower b) (to_lower c)) = Some (tm_wday tm + 1)"
    and month: "is_upper m" "month_from_name (name3 (to_lower m) (to_lower n) (to_lower p)) = Some (tm_mon tm + 1)"
    and s: "s = [a, b, c, 44, 32] @ printf_0d 2 (tm_mday tm) @ [32, m, n, p, 32]
              @ printf_d (tm_year tm + 1900) @ 32 # print_hms tm @ [32, 71, 77, 84]"
  shows "parse_1123 s out = Some (Some (tm\<lparr>tm_yday := tm_yday out\<rparr>, 0))"
proof -
  let ?Y = "printf_d (tm_year tm + 1900)" and ?T = "32 # print_hms tm @ [32, 71, 77, 84]"
  obtain d1 d2 where d: "printf_0d 2 (tm_mday tm) = [d1, d2]" "is_digit d1" "is_digit d2"
    using printed_parts [OF tm] by metis
  have "0 \<le> tm_year tm + 1900" using y(1) by simp
  then obtain e es where e: "?Y = e # es" "is_digit e" using printf_d_head by metis
  have md: "0 \<le> tm_mday tm" "tm_mday tm < 100" "tm_isdst tm = 0" "0 \<le> tm_wday tm"
    using tm by (auto simp: printable_def tm_in_range_def)
  have r0: "reads s 0 (a # b # c # 44 # 32 # printf_0d 2 (tm_mday tm) @ 32 # m # n # p # 32 # ?Y @ ?T)"
    by (simp add: s reads_start)
  have r3: "reads s 3 (44 # 32 # printf_0d 2 (tm_mday tm) @ 32 # m # n # p # 32 # ?Y @ ?T)"
    using reads_Cons3 [OF r0] by simp
  have r4: "reads s 4 (32 # printf_0d 2 (tm_mday tm) @ 32 # m # n # p # 32 # ?Y @ ?T)"
    using reads_Cons [OF r3] by simp
  have r5: "reads s 5 (printf_0d 2 (tm_mday tm) @ 32 # m # n # p # 32 # ?Y @ ?T)"
    using reads_Cons [OF r4] by simp
  have r7: "reads s 7 (32 # m # n # p # 32 # ?Y @ ?T)"
    using reads_append [OF r5] d(1) by simp
  have r8: "reads s 8 (m # n # p # 32 # ?Y @ ?T)"
    using reads_Cons [OF r7] by simp
  have r12: "reads s 12 (?Y @ ?T)"
    using reads_Cons [OF reads_Cons3 [OF r8]] by simp
  have rt: "reads s (12 + length ?Y) ?T"
    using reads_append [OF r12] .
  note tz = time_and_zone [OF rt tm]
  have "get_day_of_week s 0 = Some (tm_wday tm + 1)"
    using reads_lookup [OF r0] day(4) by (simp add: get_day_of_week_def)
  moreover have "char_at s 3 = Some 44" using reads_char_at0 [OF r3] by simp
  moreover have "skip_while is_space s 4 = Some 5"
    using skip_one [of s 4 d1] r4 d digit_not_space by simp
  moreover have "strtol_at s 5 = Some (tm_mday tm, 2)"
    using reads_strtol [OF r5] strtol_two [OF md(1,2)] by simp
  moreover have "skip_while is_space s (5 + 2) = Some 8"
    using skip_one [of s 7 m] r7 letter_classes(1) [OF month(1)] by simp
  moreover have "get_month s 8 = Some (tm_mon tm + 1)"
    using reads_lookup [OF r8] month(2) by (simp add: get_month_def)
  moreover have "skip_while is_space s (8 + 4) = Some 12"
    using skip_none [of s 12 e] r12 e digit_not_space by simp
  moreover have "strtol_at s 12 = Some (tm_year tm + 1900, length ?Y)"
    using reads_strtol [OF r12] strtol_printf_d [of "tm_year tm + 1900"] y by simp
  ultimately show ?thesis
    unfolding parse_1123_def using tz md y e(1) fill_tm_eq [OF md(3), of out]
    by (simp add: int_of_long_id add.assoc)
qed

lemma two_decimal_digits: "10 \<le> n \<Longrightarrow> 2 \<le> length (decimal n)"
  using decimal_not_Nil [of "n div 10"] by (subst decimal.simps) (simp add: Suc_le_eq)

text \<open>The positions of the parts of an RFC 1036 date.\<close>

lemma reads_1036:
  assumes s: "s = (a # b # c # r) @ [44, 32] @ D @ [45, m, n, p, 45] @ Y @ 32 # t"
    and D: "length D = 2" and Y: "2 \<le> length Y"
  shows "reads s 0 ((a # b # c # r) @ 44 # 32 # D @ 45 # m # n # p # 45 # Y @ 32 # t)"
    and "reads s (length r + 3) (44 # 32 # D @ 45 # m # n # p # 45 # Y @ 32 # t)"
    and "reads s (length r + 3 + 1) (32 # D @ 45 # m # n # p # 45 # Y @ 32 # t)"
    and "reads s (length r + 5) (D @ 45 # m # n # p # 45 # Y @ 32 # t)"
    and "reads s (length r + 5 + 2) (45 # m # n # p # 45 # Y @ 32 # t)"
    and "reads s (length r + 5 + 3) (m # n # p # 45 # Y @ 32 # t)"
    and "reads s (length r + 5 + 6) (45 # Y @ 32 # t)"
    and "reads s (length r + 5 + 7) (Y @ 32 # t)"
    and "reads s (length r + 5 + 9) (drop 2 Y @ 32 # t)"
    and "reads s (length r + 5 + 7 + length Y) (32 # t)"
proof -
  show r0: "reads s 0 ((a # b # c # r) @ 44 # 32 # D @ 45 # m # n # p # 45 # Y @ 32 # t)"
    by (simp add: s reads_start)
  show rc: "reads s (length r + 3) (44 # 32 # D @ 45 # m # n # p # 45 # Y @ 32 # t)"
    using reads_append [OF r0] by (simp add: numeral_3_eq_3)
  show r1: "reads s (length r + 3 + 1) (32 # D @ 45 # m # n # p # 45 # Y @ 32 # t)"
    using reads_Cons [OF rc] .
  show ri: "reads s (length r + 5) (D @ 45 # m # n # p # 45 # Y @ 32 # t)"
    using reads_Cons [OF r1] by (simp add: add.commute)
  show ri2: "reads s (length r + 5 + 2) (45 # m # n # p # 45 # Y @ 32 # t)"
    using reads_append [OF ri] D by simp
  show ri3: "reads s (length r + 5 + 3) (m # n # p # 45 # Y @ 32 # t)"
    using reads_Cons [OF ri2] by (simp add: numeral_3_eq_3)
  show ri6: "reads s (length r + 5 + 6) (45 # Y @ 32 # t)"
    using reads_Cons3 [OF ri3] by (simp add: add.commute)
  show ri7: "reads s (length r + 5 + 7) (Y @ 32 # t)"
    using reads_Cons [OF ri6] by (simp add: add.commute)
  show "reads s (length r + 5 + 9) (drop 2 Y @ 32 # t)"
    using reads_append [of s "length r + 5 + 7" "take 2 Y" "drop 2 Y @ 32 # t"] ri7 Y
    by (simp add: append_assoc [symmetric] add.commute min_absorb2 del: append_assoc)
  show "reads s (length r + 5 + 7 + length Y) (32 # t)" using reads_append [OF ri7] .
qed

lemma parse_1036_text:
  assumes tm: "printable tm" and y: "10 \<le> tm_year tm" "tm_year tm < 1900"
    and day: "is_upper a" "is_lower b" "is_lower c" "list_all is_lower r"
      "day_of_week_from_name (name3 (to_lower a) (to_lower b) (to_lower c)) = Some (tm_wday tm + 1)"
    and month: "month_from_name (name3 (to_lower m) (to_lower n) (to_lower p)) = Some (tm_mon tm + 1)"
    and s: "s = (a # b # c # r) @ [44, 32] @ printf_0d 2 (tm_mday tm) @ [45, m, n, p, 45]
              @ printf_d (tm_year tm) @ 32 # print_hms tm @ [32, 71, 77, 84]"
  shows "parse_1036 s out = Some (Some (tm\<lparr>tm_yday := tm_yday out\<rparr>, 0))"
proof -
  let ?Y = "printf_d (tm_year tm)" and ?T = "32 # print_hms tm @ [32, 71, 77, 84]"
  let ?D = "printf_0d 2 (tm_mday tm)" and ?i = "length r + 5"
  obtain d1 d2 where d: "?D = [d1, d2]" "is_digit d1" "is_digit d2"
    using printed_parts [OF tm] by metis
  have md: "0 \<le> tm_mday tm" "tm_mday tm < 100" "tm_isdst tm = 0" "0 \<le> tm_wday tm" "0 \<le> tm_mon tm"
    using tm by (auto simp: printable_def tm_in_range_def)
  have Y2: "2 \<le> length ?Y" "list_all is_digit ?Y"
    using y decimal_digits [of "nat (tm_year tm)"] two_decimal_digits [of "nat (tm_year tm)"]
    by (simp_all add: printf_d_def list_all_iff)
  have "length ?D = 2" using d(1) by simp
  note pos = reads_1036 [OF s this Y2(1)]
  note r0 = pos(1) and rc = pos(2) and r1 = pos(3) and ri = pos(4) and ri2 = pos(5) and ri3 = pos(6)
    and ri6 = pos(7) and ri7 = pos(8) and ri9 = pos(9) and rt = pos(10)
  note tz = time_and_zone [OF rt tm]
  have skip_digits: "skip_while is_digit s (?i + 9) = Some (?i + 7 + length ?Y)"
  proof -
    have "takeWhile is_digit (drop 2 ?Y @ ?T) = drop 2 ?Y"
      using Y2(2) by (intro takeWhile_block) (auto simp: list_all_iff dest: in_set_dropD)
    then show ?thesis using reads_skip [OF ri9, of is_digit] Y2(1) by simp
  qed
  have "get_day_of_week s 0 = Some (tm_wday tm + 1)"
    using reads_lookup [of s 0 a b c] r0 day(5) by (simp add: get_day_of_week_def)
  moreover have "takeWhile is_alpha ((a # b # c # r) @ 44 # 32 # ?D @ 45 # m # n # p # 45 # ?Y @ ?T) = a # b # c # r"
    using day(1-4) letter_classes by (intro takeWhile_block) (auto simp: list_all_iff is_alpha_def is_upper_def is_lower_def)
  then have "skip_while is_alpha s 0 = Some (length r + 3)"
    using reads_skip [OF r0, of is_alpha] by (simp add: numeral_3_eq_3)
  moreover have "char_at s (length r + 3) = Some 44" using reads_char_at0 [OF rc] by simp
  moreover have "skip_while is_space s (length r + 3 + 1) = Some ?i"
    using skip_one [of s "length r + 3 + 1" d1] r1 d digit_not_space by simp
  moreover have "strtol_at s ?i = Some (tm_mday tm, 2)"
    using reads_strtol [OF ri] strtol_two [OF md(1,2)] by simp
  moreover have "any_at s [(?i + 2, \<lambda>c. c \<noteq> chr_minus), (?i + 6, \<lambda>c. c \<noteq> chr_minus)] = Some False"
    unfolding any_at.simps reads_char_at0 [OF ri2] reads_char_at0 [OF ri6] by simp
  moreover have "get_month s (?i + 3) = Some (tm_mon tm + 1)"
    using reads_lookup [OF ri3] month by (simp add: get_month_def)
  moreover have "strtol_at s (?i + 7) = Some (tm_year tm, length ?Y)"
    using reads_strtol [OF ri7] strtol_printf_d [of "tm_year tm"] y by simp
  ultimately show ?thesis
    unfolding parse_1036_def using tz md y skip_digits fill_tm_eq [OF md(3), of out]
    by (simp add: int_of_long_id add.assoc del: any_at.simps)
qed

text \<open>A number padded with spaces, behind a space.\<close>

lemma padded_number:
  assumes "reads s i (32 # printf_wd 2 v @ 32 # t)" "0 \<le> v" "v < 100"
  obtains j used where "skip_while is_space s i = Some j" "strtol_at s j = Some (v, used)" "used \<noteq> 0"
    "j + used = i + 3"
proof -
  let ?n = "decimal (nat v)"
  have len: "length ?n \<le> 2" "?n \<noteq> []" using length_decimal_le [of "nat v" 2] assms(2,3) by simp_all
  have wd: "printf_wd 2 v = replicate (2 - length ?n) 32 @ ?n"
    using assms(2) by (simp add: printf_wd_def printf_d_def pad_left_def)
  let ?k = "1 + (2 - length ?n)"
  obtain e es where e: "?n = e # es" "is_digit e"
    using len(2) decimal_digits [of "nat v"] by (cases ?n) auto
  have pad: "32 # printf_wd 2 v @ 32 # t = replicate ?k 32 @ (?n @ 32 # t)" by (simp add: wd)
  have "takeWhile is_space (replicate ?k 32 @ (?n @ 32 # t)) = replicate ?k 32"
    using e digit_not_space by (intro takeWhile_block) (auto simp: is_space_def)
  then have j: "skip_while is_space s i = Some (i + ?k)"
    using reads_skip [OF assms(1), of is_space] by (simp only: pad) simp
  have "reads s (i + ?k) (?n @ 32 # t)"
    using reads_append [of s i "replicate ?k 32" "?n @ 32 # t"] assms(1) unfolding pad by simp
  then have "strtol_at s (i + ?k) = Some (v, length ?n)"
    using strtol_printf_d [of v "32 # t"] assms(2,3) by (simp add: reads_strtol printf_d_def)
  then show thesis using that [OF j] len by (cases ?n) auto
qed

lemma parse_ansi_c_text:
  assumes tm: "printable tm" and y: "0 \<le> tm_year tm" "tm_year tm + 1900 < 2 ^ 31"
    and day: "day_of_week_from_name (name3 (to_lower a) (to_lower b) (to_lower c)) = Some (tm_wday tm + 1)"
    and month: "is_upper m" "month_from_name (name3 (to_lower m) (to_lower n) (to_lower p)) = Some (tm_mon tm + 1)"
    and s: "s = [a, b, c, 32, m, n, p, 32] @ printf_wd 2 (tm_mday tm) @ 32 # print_hms tm @ 32 #
              printf_d (tm_year tm + 1900) @ [32, 71, 77, 84]"
  shows "parse_ansi_c s out = Some (Some (tm\<lparr>tm_yday := tm_yday out\<rparr>, 0))"
proof -
  let ?Y = "printf_d (tm_year tm + 1900)" and ?W = "printf_wd 2 (tm_mday tm)"
  let ?T = "print_hms tm @ 32 # printf_d (tm_year tm + 1900) @ [32, 71, 77, 84]"
  obtain h hs where h: "print_hms tm = h # hs" "is_digit h" and len: "length (print_hms tm) = 8"
    using printed_parts [OF tm] by metis
  have "0 \<le> tm_year tm + 1900" using y(1) by simp
  then obtain e es where e: "?Y = e # es" "is_digit e" using printf_d_head by metis
  have md: "0 \<le> tm_mday tm" "tm_mday tm < 100" "tm_isdst tm = 0" "0 \<le> tm_wday tm" "0 \<le> tm_mon tm" "tm_in_range tm"
    using tm by (auto simp: printable_def tm_in_range_def)
  have r0: "reads s 0 (a # b # c # 32 # m # n # p # 32 # ?W @ 32 # ?T)" by (simp add: s reads_start)
  have r3: "reads s 3 (32 # m # n # p # 32 # ?W @ 32 # ?T)" using reads_Cons3 [OF r0] by simp
  have r4: "reads s 4 (m # n # p # 32 # ?W @ 32 # ?T)" using reads_Cons [OF r3] by simp
  have r7: "reads s 7 (32 # ?W @ 32 # ?T)" using reads_Cons3 [OF r4] by simp
  have "length ?W = 2" using length_decimal_le [of "nat (tm_mday tm)" 2] md(1,2)
    by (simp add: printf_wd_def printf_d_def pad_left_def)
  then have r10: "reads s 10 (32 # ?T)" using reads_append [OF reads_Cons [OF r7]] by simp
  have r11: "reads s 11 ?T" using reads_Cons [OF r10] by simp
  have r19: "reads s 19 (32 # ?Y @ [32, 71, 77, 84])" using reads_append [OF r11] len by simp
  have r20: "reads s 20 (?Y @ [32, 71, 77, 84])" using reads_Cons [OF r19] by simp
  obtain j used where ju: "skip_while is_space s 7 = Some j" "strtol_at s j = Some (tm_mday tm, used)"
    "used \<noteq> 0" "j + used = 7 + 3"
    using padded_number [OF r7 md(1,2)] by metis
  have "get_day_of_week s 0 = Some (tm_wday tm + 1)"
    using reads_lookup [OF r0] day by (simp add: get_day_of_week_def)
  moreover have "skip_while is_space s 3 = Some 4"
    using skip_one [OF r3] letter_classes(1) [OF month(1)] by simp
  moreover have "get_month s 4 = Some (tm_mon tm + 1)"
    using reads_lookup [OF r4] month(2) by (simp add: get_month_def)
  moreover have "skip_while is_space s 10 = Some 11"
    using skip_one [of s 10 h] r10 h digit_not_space by simp
  moreover have "parse_military_time s 11 = Some (Some (tm_hour tm, tm_min tm, tm_sec tm))"
    using military_read [OF r11 md(6)] by simp
  moreover have "skip_while is_space s 19 = Some 20"
    using skip_one [of s 19 e] r19 e digit_not_space by simp
  moreover have "strtol_at s 20 = Some (tm_year tm + 1900, length ?Y)"
    using reads_strtol [OF r20] strtol_printf_d [of "tm_year tm + 1900"] y by simp
  ultimately show ?thesis
    unfolding parse_ansi_c_def using ju md y fill_tm_eq [OF md(3), of out]
    by (simp add: int_of_long_id)
qed

section \<open>The compact ISO 8601 format\<close>

lemma digits_value_append: "digits_value (xs @ ys) = digits_value xs * 10 ^ length ys + digits_value ys"
  by (induction ys rule: rev_induct)
    (simp_all add: digits_value_append1 append_assoc [symmetric] algebra_simps del: append_assoc,
     simp add: digits_value_def)

lemma digits_padded:
  assumes "n < 10 ^ w" "0 < w"
  shows "length (pad_left 48 w (decimal n)) = w" "digits_value (pad_left 48 w (decimal n)) = n"
    "list_all is_digit (pad_left 48 w (decimal n))"
  using length_decimal_le [OF assms] decimal_digits [of n]
  by (auto simp: pad_left_def digits_value_zeros digits_value_decimal list_all_iff)

definition digits_word :: "u32 \<Rightarrow> u8 list \<Rightarrow> u32" where
  "digits_word = foldl (\<lambda>n d. n * 10 + ucast (d - 48))"

lemma digits_word_value: "digits_word (of_nat n) ds = of_nat (foldl (\<lambda>n d. n * 10 + unat (d - 48)) n ds)"
proof (induction ds arbitrary: n)
  case (Cons d ds)
  have "(ucast (d - 48) :: u32) = of_nat (unat (d - 48))" by simp
  then have "of_nat n * 10 + ucast (d - 48) = (of_nat (n * 10 + unat (d - 48)) :: u32)"
    by (simp only: of_nat_add of_nat_mult of_nat_numeral)
  then show ?case using Cons [of "n * 10 + unat (d - 48)"] by (simp add: digits_word_def)
qed (simp add: digits_word_def)

lemma parse_nums_digits:
  assumes "list_all is_digit ds" "after \<or> num = 0" "length nums < 4" "ds \<noteq> []"
  shows "parse_nums_loop (ds @ rest) sep num k nums n after =
    parse_nums_loop rest sep (digits_word num ds) (k + length ds) nums (n + length ds) True"
  using assms
proof (induction ds arbitrary: num k n after)
  case (Cons d ds)
  have step: "parse_nums_loop ((d # ds) @ rest) sep num k nums n after =
      parse_nums_loop (ds @ rest) sep (num * 10 + ucast (d - 48)) (k + 1) nums (n + 1) True"
    using Cons.prems digit_nonzero [of d] by (auto simp: is_digit_def)
  show ?case
  proof (cases ds)
    case Nil
    then show ?thesis using step by (simp add: digits_word_def)
  next
    case (Cons d' ds')
    then have "ds \<noteq> []" by simp
    then show ?thesis
      using step Cons.IH [of True "num * 10 + ucast (d - 48)" "k + 1" "n + 1"] Cons.prems
      by (simp add: digits_word_def)
  qed
qed simp

lemma parse_nums_one:
  assumes "list_all is_digit ds" "ds \<noteq> []" "\<not> is_digit c" "c \<noteq> sep" "c \<noteq> 0"
  shows "parse_nums (ds @ c # rest) sep = ([(of_nat (digits_value ds), length ds)], length ds)"
  using parse_nums_digits [of ds False 0 "[]" "c # rest" sep 0 0] assms digits_word_value [of 0 ds]
  by (auto simp: parse_nums_def digits_value_def)

lemma u32_of_nat_div: "n < 2 ^ 32 \<Longrightarrow> (of_nat n :: u32) div v = of_nat (n div unat v)"
  using le_less_trans [OF div_le_dividend [of n "unat v"]]
  by (simp add: word_unat_eq_iff unat_div unat_of_nat_u32)

lemma u32_of_nat_mod: "n < 2 ^ 32 \<Longrightarrow> (of_nat n :: u32) mod v = of_nat (n mod unat v)"
  using le_less_trans [OF mod_less_eq_dividend [of n "unat v"]]
  by (simp add: word_unat_eq_iff unat_mod unat_of_nat_u32)

lemma sint_u32_diff:
  assumes "n < 2 ^ 31" "0 \<le> j" "j < 2 ^ 31"
  shows "sint (of_nat n - word_of_int j :: u32) = int n - j"
  using int_of_long_id [of "int n - j"] assms by (simp add: int_of_long_def)

lemma unat_u32_of_int: "0 \<le> v \<Longrightarrow> v < 2 ^ 32 \<Longrightarrow> unat (word_of_int v :: u32) = nat v"
  by (simp add: unat_eq_nat_uint uint_word_of_int_eq take_bit_int_eq_self)

lemma printf_0u_text:
  assumes "0 \<le> v" "v < 10 ^ w" "0 < w" "v < 2 ^ 32"
  shows "length (printf_0u w (word_of_int v)) = w" "digits_value (printf_0u w (word_of_int v)) = nat v"
    "list_all is_digit (printf_0u w (word_of_int v))"
proof -
  have "nat v < 10 ^ w" using assms(1,2) by (metis nat_less_iff of_nat_numeral of_nat_power zless_nat_conj)
  from digits_padded [OF this assms(3)]
  show "length (printf_0u w (word_of_int v)) = w" "digits_value (printf_0u w (word_of_int v)) = nat v"
    "list_all is_digit (printf_0u w (word_of_int v))"
    using assms unat_u32_of_int by (simp_all add: printf_0u_def)
qed

text \<open>The three numbers of a run of digits.\<close>

lemma iso_split:
  fixes a b c :: nat
  assumes "b < 100" "c < 100" "a < 10000"
  shows "(a * 10000 + b * 100 + c) div 10000 = a" "(a * 10000 + b * 100 + c) div 100 mod 100 = b"
    "(a * 10000 + b * 100 + c) mod 100 = c" "(a * 10000 + b * 100 + c) div 100 div 100 = a"
proof -
  have 100: "(a * 10000 + b * 100 + c) div 100 = a * 100 + b"
    using div_mult_self3 [of 100 "a * 100 + b" c] assms by (simp add: algebra_simps)
  show "(a * 10000 + b * 100 + c) div 100 mod 100 = b" unfolding 100 using assms by simp
  show "(a * 10000 + b * 100 + c) div 100 div 100 = a" unfolding 100 using assms by simp
  show "(a * 10000 + b * 100 + c) div 10000 = a" using assms by simp
  show "(a * 10000 + b * 100 + c) mod 100 = c"
    using mod_mult_self3 [of "a * 100 + b" 100 c] assms by (simp add: algebra_simps)
qed

lemma iso_fields:
  assumes "b < 100" "c < 100" "a < 10000"
  shows "iso8601_date_fields [(of_nat (a * 10000 + b * 100 + c), 8)] 8 = Some (of_nat a, of_nat b, of_nat c, - 1)"
    and "iso8601_time_fields [(of_nat (a * 10000 + b * 100 + c), 6)] = Some (of_nat a, of_nat b, of_nat c)"
proof -
  let ?n = "a * 10000 + b * 100 + c"
  have "?n < 2 ^ 32" "?n div 100 < 2 ^ 32" using assms by simp_all
  note words = u32_of_nat_div [OF this(1)] u32_of_nat_mod [OF this(1)]
    u32_of_nat_div [OF this(2)] u32_of_nat_mod [OF this(2)] iso_split [OF assms]
  show "iso8601_date_fields [(of_nat ?n, 8)] 8 = Some (of_nat a, of_nat b, of_nat c, - 1)"
    unfolding iso8601_date_fields_def Let_def by (simp add: words del: of_nat_add of_nat_mult)
  show "iso8601_time_fields [(of_nat ?n, 6)] = Some (of_nat a, of_nat b, of_nat c)"
    unfolding iso8601_time_fields_def Let_def by (simp add: words del: of_nat_add of_nat_mult)
qed

lemma parse_iso8601_digits:
  assumes date: "list_all is_digit date" "length date = 8" "digits_value date = y * 10000 + m * 100 + d"
    and time: "list_all is_digit time" "length time = 6" "digits_value time = h * 10000 + mi * 100 + sec"
    and bounds: "y < 10000" "m < 100" "d < 100" "h < 100" "mi < 100" "sec < 100"
  shows "parse_iso8601 (date @ 84 # time @ [90]) out =
    Some (Some (out\<lparr>tm_sec := int sec, tm_min := int mi, tm_hour := int h, tm_mday := int d,
                    tm_mon := int m - 1, tm_year := int y - 1900\<rparr>, 0))"
proof -
  let ?s = "date @ 84 # time @ [90]"
  have ne: "date \<noteq> []" "time \<noteq> []" using date(2) time(2) by auto
  have n: "parse_nums ?s chr_minus = ([(of_nat (y * 10000 + m * 100 + d), 8)], 8)"
    "parse_nums (time @ [90]) chr_colon = ([(of_nat (h * 10000 + mi * 100 + sec), 6)], 6)"
    using parse_nums_one [of date 84 45 "time @ [90]"] date parse_nums_one [of time 90 58 "[]"] time ne
    by (simp_all add: is_digit_def del: of_nat_add of_nat_mult)
  note fields = iso_fields(1) [OF bounds(2,3,1)] iso_fields(2) [OF bounds(5,6), of h]
  have r8: "reads ?s 8 (84 # time @ [90])" using date(2) by (simp add: reads_def)
  have r9: "reads ?s 9 (time @ [90])" using reads_Cons [OF r8] by simp
  have zone: "iso8601_timezone (time @ [90]) 6 = Some (Some 0)"
    using time(2) by (simp add: iso8601_timezone_def char_at_def nth_append)
  obtain t ts where t: "time = t # ts" "is_digit t" using time by (cases time) auto
  have "iso8601_separator ?s 8 = Some (Some 9)" using reads_char_at0 [OF r8] by (simp add: iso8601_separator_def)
  moreover have "iso8601_time (drop 9 ?s) = Some (Some (of_nat h, of_nat mi, of_nat sec, 0))"
    using r9 n(2) fields(2) zone bounds(4) by (simp add: reads_def iso8601_time_def del: drop_append)
  moreover have "char_at ?s 9 = Some t" "t \<noteq> 0"
    using reads_char_at0 [OF r9] t digit_nonzero by simp_all
  moreover have "sint (of_nat y - 1900 :: u32) = int y - 1900" "sint (of_nat m - 1 :: u32) = int m - 1"
    "sint (of_nat d :: u32) = int d" "sint (of_nat h :: u32) = int h" "sint (of_nat mi :: u32) = int mi"
    "sint (of_nat sec :: u32) = int sec"
    using sint_u32_diff [of y 1900] sint_u32_diff [of m 1] sint_u32_diff [of d 0] sint_u32_diff [of h 0]
      sint_u32_diff [of mi 0] sint_u32_diff [of sec 0] bounds by simp_all
  ultimately show ?thesis
    unfolding parse_iso8601_def n by (simp add: fields(1) del: drop_append of_nat_add of_nat_mult)
qed

lemma parse_iso8601_text:
  assumes tm: "tm_in_range tm" and y: "0 \<le> tm_year tm + 1900" "tm_year tm + 1900 < 10000"
    and s: "s = printf_0u 4 (word_of_int (tm_year tm + 1900)) @ printf_0u 2 (word_of_int (tm_mon tm + 1))
              @ printf_0u 2 (word_of_int (tm_mday tm)) @ 84 # printf_0u 2 (word_of_int (tm_hour tm))
              @ printf_0u 2 (word_of_int (tm_min tm)) @ printf_0u 2 (word_of_int (tm_sec tm)) @ [90]"
  shows "parse_iso8601 s out =
    Some (Some (out\<lparr>tm_sec := tm_sec tm, tm_min := tm_min tm, tm_hour := tm_hour tm, tm_mday := tm_mday tm,
                    tm_mon := tm_mon tm, tm_year := tm_year tm\<rparr>, 0))"
proof -
  have two: "length (printf_0u 2 (word_of_int v)) = 2 \<and> digits_value (printf_0u 2 (word_of_int v)) = nat v \<and>
    list_all is_digit (printf_0u 2 (word_of_int v))" if "0 \<le> v" "v < 100" for v
    using printf_0u_text [of v 2] that by simp
  have r: "0 \<le> tm_mon tm + 1" "tm_mon tm + 1 < 100" "0 \<le> tm_mday tm" "tm_mday tm < 100"
    "0 \<le> tm_hour tm" "tm_hour tm < 100" "0 \<le> tm_min tm" "tm_min tm < 100" "0 \<le> tm_sec tm" "tm_sec tm < 100"
    using tm by (auto simp: tm_in_range_def)
  have "tm_year tm + 1900 < 10 ^ 4" "(0 :: nat) < 4" "tm_year tm + 1900 < 2 ^ 32" using y by simp_all
  note year = printf_0u_text [OF y(1) this]
  show ?thesis
    using parse_iso8601_digits [of "printf_0u 4 (word_of_int (tm_year tm + 1900))
        @ printf_0u 2 (word_of_int (tm_mon tm + 1)) @ printf_0u 2 (word_of_int (tm_mday tm))"
        "nat (tm_year tm + 1900)" "nat (tm_mon tm + 1)" "nat (tm_mday tm)"
        "printf_0u 2 (word_of_int (tm_hour tm)) @ printf_0u 2 (word_of_int (tm_min tm))
        @ printf_0u 2 (word_of_int (tm_sec tm))" "nat (tm_hour tm)" "nat (tm_min tm)" "nat (tm_sec tm)" out]
      year two [OF r(1,2)] two [OF r(3,4)] two [OF r(5,6)] two [OF r(7,8)] two [OF r(9,10)] r y s
    by (simp add: digits_value_append del: of_int_add)
qed

section \<open>Printing and parsing\<close>

definition broken_down :: "tm \<Rightarrow> int \<times> int \<times> int \<times> int \<times> int \<times> int" where
  "broken_down tm = (tm_year tm, tm_mon tm, tm_mday tm, tm_hour tm, tm_min tm, tm_sec tm)"

lemmas date_formats = GSK_DATE_FORMAT_1123_def GSK_DATE_FORMAT_1036_def GSK_DATE_FORMAT_ANSI_C_def
  GSK_DATE_FORMAT_ISO8601_def

lemma date_parse_named:
  assumes "is_upper a" "is_lower b" "is_lower c" "x \<noteq> 0"
  shows "gsk_date_parse (a # b # c # x # t) out allowed =
    (if is_space x \<and> allowed AND 4 = 4 then parse_ansi_c (a # b # c # x # t) out
     else if x = chr_comma \<and> allowed AND 1 = 1 then parse_1123 (a # b # c # x # t) out
     else if is_lower x \<and> allowed AND 2 = 2 then parse_1036 (a # b # c # x # t) out
     else Some None)"
  using assms letter_classes(1) [of a] letter_classes(2) [of b] letter_classes(2) [of c]
  by (auto simp: gsk_date_parse_def all_at_def is_alpha_def date_formats)

lemma date_parse_digits:
  assumes "is_digit a" "is_digit b" "c \<noteq> 0" "x \<noteq> 0"
  shows "gsk_date_parse (a # b # c # x # t) out 8 = parse_iso8601 (a # b # c # x # t) out"
  using assms digit_nonzero letter_classes by (auto simp: gsk_date_parse_def all_at_def date_formats)

lemma printf_d_length: "0 \<le> v \<Longrightarrow> v < 10000 \<Longrightarrow> length (printf_d v) \<le> 4"
  using length_decimal_le [of "nat v" 4] by (simp add: printf_d_def)

lemma cstr_texts: "cstr '', '' = [44, 32]" "cstr '' GMT'' = [32, 71, 77, 84]"
  by (simp_all add: cstr_def)

lemma snprintf_80: "length t < 80 \<Longrightarrow> snprintf 80 t = t"
  by (simp add: snprintf_def)

lemma roundtrip_1123:
  assumes "printable tm" "0 \<le> tm_year tm" "tm_year tm < 8100"
  shows "\<exists>t. gsk_date_print tm 80 1 = Some t \<and>
    gsk_date_parse t out 1 = Some (Some (tm\<lparr>tm_yday := tm_yday out\<rparr>, 0))"
proof -
  have r: "0 \<le> tm_wday tm" "tm_wday tm < 7" "0 \<le> tm_mon tm" "tm_mon tm < 12"
    using assms(1) by (auto simp: printable_def tm_in_range_def)
  obtain a b c where day: "name_at day_of_week_to_three_letter_stud_capped (tm_wday tm) = Some [a, b, c]"
    "is_upper a" "is_lower b" "is_lower c"
    "day_of_week_from_name (name3 (to_lower a) (to_lower b) (to_lower c)) = Some (tm_wday tm + 1)"
    using day3_name [OF r(1,2)] by metis
  obtain m n p where month: "name_at month_to_three_letter_stud_capped (tm_mon tm) = Some [m, n, p]"
    "is_upper m" "month_from_name (name3 (to_lower m) (to_lower n) (to_lower p)) = Some (tm_mon tm + 1)"
    using month_name [OF r(3,4)] by metis
  let ?t = "[a, b, c, 44, 32] @ printf_0d 2 (tm_mday tm) @ [32, m, n, p, 32]
     @ printf_d (tm_year tm + 1900) @ 32 # print_hms tm @ [32, 71, 77, 84]"
  have "length ?t < 80"
    using printed_parts [OF assms(1)] printf_d_length [of "tm_year tm + 1900"] assms(2,3) by fastforce
  then have "gsk_date_print tm 80 1 = Some ?t"
    using day(1) month(1) by (simp add: gsk_date_print_def date_formats cstr_texts snprintf_80)
  moreover have "gsk_date_parse ?t out 1 = parse_1123 ?t out"
    using date_parse_named [OF day(2-4), of 44] by (simp add: is_space_def)
  moreover have "parse_1123 ?t out = Some (Some (tm\<lparr>tm_yday := tm_yday out\<rparr>, 0))"
    using assms(2,3) by (intro parse_1123_text [OF assms(1) _ _ day(2-5) month(2,3) refl]) simp_all
  ultimately show ?thesis by auto
qed

lemma roundtrip_ansi_c:
  assumes "printable tm" "0 \<le> tm_year tm" "tm_year tm < 8100"
  shows "\<exists>t. gsk_date_print tm 80 4 = Some t \<and>
    gsk_date_parse t out 4 = Some (Some (tm\<lparr>tm_yday := tm_yday out\<rparr>, 0))"
proof -
  have r: "0 \<le> tm_wday tm" "tm_wday tm < 7" "0 \<le> tm_mon tm" "tm_mon tm < 12" "0 \<le> tm_mday tm" "tm_mday tm < 100"
    using assms(1) by (auto simp: printable_def tm_in_range_def)
  obtain a b c where day: "name_at day_of_week_to_three_letter_stud_capped (tm_wday tm) = Some [a, b, c]"
    "is_upper a" "is_lower b" "is_lower c"
    "day_of_week_from_name (name3 (to_lower a) (to_lower b) (to_lower c)) = Some (tm_wday tm + 1)"
    using day3_name [OF r(1,2)] by metis
  obtain m n p where month: "name_at month_to_three_letter_stud_capped (tm_mon tm) = Some [m, n, p]"
    "is_upper m" "month_from_name (name3 (to_lower m) (to_lower n) (to_lower p)) = Some (tm_mon tm + 1)"
    using month_name [OF r(3,4)] by metis
  let ?t = "[a, b, c, 32, m, n, p, 32] @ printf_wd 2 (tm_mday tm) @ 32 # print_hms tm @ 32 #
     printf_d (tm_year tm + 1900) @ [32, 71, 77, 84]"
  have "length (printf_wd 2 (tm_mday tm)) = 2" using length_decimal_le [of "nat (tm_mday tm)" 2] r
    by (simp add: printf_wd_def printf_d_def pad_left_def)
  then have "length ?t < 80"
    using printed_parts [OF assms(1)] printf_d_length [of "tm_year tm + 1900"] assms(2,3) by fastforce
  then have "gsk_date_print tm 80 4 = Some ?t"
    using day(1) month(1) by (simp add: gsk_date_print_def date_formats cstr_texts snprintf_80)
  moreover have "gsk_date_parse ?t out 4 = parse_ansi_c ?t out"
    using date_parse_named [OF day(2-4), of 32] by (simp add: is_space_def)
  moreover have "parse_ansi_c ?t out = Some (Some (tm\<lparr>tm_yday := tm_yday out\<rparr>, 0))"
    using assms(2,3) by (intro parse_ansi_c_text [OF assms(1) _ _ day(5) month(2,3) refl]) simp_all
  ultimately show ?thesis by auto
qed

lemma roundtrip_1036:
  assumes "printable tm" "10 \<le> tm_year tm" "tm_year tm < 1900"
  shows "\<exists>t. gsk_date_print tm 80 2 = Some t \<and>
    gsk_date_parse t out 2 = Some (Some (tm\<lparr>tm_yday := tm_yday out\<rparr>, 0))"
proof -
  have r: "0 \<le> tm_wday tm" "tm_wday tm < 7" "0 \<le> tm_mon tm" "tm_mon tm < 12"
    using assms(1) by (auto simp: printable_def tm_in_range_def)
  obtain a b c d r' where day: "name_at day_of_week_to_full_name (tm_wday tm) = Some (a # b # c # d # r')"
    "is_upper a" "is_lower b" "is_lower c" "is_lower d" "list_all is_lower r'" "length r' \<le> 5"
    "day_of_week_from_name (name3 (to_lower a) (to_lower b) (to_lower c)) = Some (tm_wday tm + 1)"
    using day_full_name [OF r(1,2)] by metis
  obtain m n p where month: "name_at month_to_three_letter_stud_capped (tm_mon tm) = Some [m, n, p]"
    "month_from_name (name3 (to_lower m) (to_lower n) (to_lower p)) = Some (tm_mon tm + 1)"
    using month_name [OF r(3,4)] by metis
  let ?t = "(a # b # c # d # r') @ [44, 32] @ printf_0d 2 (tm_mday tm) @ [45, m, n, p, 45]
     @ printf_d (tm_year tm) @ 32 # print_hms tm @ [32, 71, 77, 84]"
  have "length ?t < 80"
    using printed_parts [OF assms(1)] printf_d_length [of "tm_year tm"] assms(2,3) day(7) by fastforce
  then have "gsk_date_print tm 80 2 = Some ?t"
    using day(1) month(1) by (simp add: gsk_date_print_def date_formats cstr_texts snprintf_80)
  moreover have "gsk_date_parse ?t out 2 = parse_1036 ?t out"
    using date_parse_named [OF day(2-4), of d] letter_classes(2) [OF day(5)] day(5) by simp
  moreover have "parse_1036 ?t out = Some (Some (tm\<lparr>tm_yday := tm_yday out\<rparr>, 0))"
    using day(5,6) by (intro parse_1036_text [OF assms day(2-4) _ day(8) month(2) refl]) simp
  ultimately show ?thesis by auto
qed

lemma roundtrip_iso8601:
  assumes "tm_in_range tm" "0 \<le> tm_year tm" "tm_year tm < 8100"
  shows "\<exists>t. gsk_date_print tm 80 8 = Some t \<and>
    gsk_date_parse t out 8 =
      Some (Some (out\<lparr>tm_sec := tm_sec tm, tm_min := tm_min tm, tm_hour := tm_hour tm,
                      tm_mday := tm_mday tm, tm_mon := tm_mon tm, tm_year := tm_year tm\<rparr>, 0))"
proof -
  have y: "0 \<le> tm_year tm + 1900" "tm_year tm + 1900 < 10 ^ 4" "(0 :: nat) < 4" "tm_year tm + 1900 < 2 ^ 32"
    using assms(2,3) by simp_all
  have two: "length (printf_0u 2 (word_of_int v)) = 2" if "0 \<le> v" "v < 100" for v
    using printf_0u_text [of v 2] that by simp
  let ?Y = "printf_0u 4 (word_of_int (tm_year tm + 1900))"
  let ?r = "printf_0u 2 (word_of_int (tm_mon tm + 1))
     @ printf_0u 2 (word_of_int (tm_mday tm)) @ 84 # printf_0u 2 (word_of_int (tm_hour tm))
     @ printf_0u 2 (word_of_int (tm_min tm)) @ printf_0u 2 (word_of_int (tm_sec tm)) @ [90]"
  have "length (?Y @ ?r) < 80"
    using printf_0u_text(1) [OF y] two assms(1) by (simp add: tm_in_range_def del: of_int_add)
  then have "gsk_date_print tm 80 8 = Some (?Y @ ?r)"
    by (simp add: gsk_date_print_def date_formats snprintf_80 del: of_int_add)
  moreover obtain a b c d where "?Y = [a, b, c, d]" "is_digit a" "is_digit b" "is_digit c" "is_digit d"
  proof -
    obtain a b c d r where r: "?Y = a # b # c # d # r"
      using length_4_cases [of ?Y] printf_0u_text(1) [OF y] by auto
    moreover have "r = []" using printf_0u_text(1) [OF y] r by simp
    ultimately show thesis using that printf_0u_text(3) [OF y] by simp
  qed
  then have "gsk_date_parse (?Y @ ?r) out 8 = parse_iso8601 (?Y @ ?r) out"
    using date_parse_digits [of a b c d ?r] digit_nonzero by simp
  moreover have "tm_year tm + 1900 < 10000" using assms(3) by simp
  ultimately show ?thesis
    using parse_iso8601_text [OF assms(1) y(1) _ refl, of out] by simp
qed

lemma roundtrip_any:
  assumes "printable tm" "10 \<le> tm_year tm" "tm_year tm < 1900" "format \<in> {1, 2, 4, 8}"
  shows "\<exists>t tm'. gsk_date_print tm 80 format = Some t \<and>
    gsk_date_parse t out format = Some (Some (tm', 0)) \<and> broken_down tm' = broken_down tm"
proof -
  have y: "0 \<le> tm_year tm" "tm_year tm < 8100" "tm_in_range tm"
    using assms(1-3) by (auto simp: printable_def)
  consider "format = 1" | "format = 2" | "format = 4" | "format = 8" using assms(4) by blast
  then show ?thesis
  proof cases
    case 1
    then show ?thesis using roundtrip_1123 [OF assms(1) y(1,2), of out] by (auto simp: broken_down_def)
  next
    case 2
    then show ?thesis using roundtrip_1036 [OF assms(1-3), of out] by (auto simp: broken_down_def)
  next
    case 3
    then show ?thesis using roundtrip_ansi_c [OF assms(1) y(1,2), of out] by (auto simp: broken_down_def)
  next
    case 4
    then show ?thesis using roundtrip_iso8601 [OF y(3,1,2), of out] by (auto simp: broken_down_def)
  qed
qed

lemma timegm_broken_down: "broken_down tm = broken_down tm' \<Longrightarrow> gsk_timegm tm = gsk_timegm tm'"
  by (simp add: broken_down_def gsk_timegm_def Let_def)

lemma gmtime_printable:
  assumes "gmtime t = Some tm" "0 \<le> t" "t < 86400 * int (year_start k)"
  shows "printable tm" "70 \<le> tm_year tm" "tm_year tm < int k + 70"
proof -
  obtain j where j: "tm_year tm = int j + 70"
    "int (year_start j) + int (month_start (1970 + int j) (nat (tm_mon tm))) + (tm_mday tm - 1) = t div 86400"
    "tm_in_range tm" "0 \<le> tm_wday tm" "tm_wday tm < 7" "tm_isdst tm = 0"
    using gmtime_fields [OF assms(1,2)] by metis
  show "printable tm" using j by (simp add: printable_def)
  show "70 \<le> tm_year tm" using j by simp
  have "int (year_start j) \<le> t div 86400" using j(2,3) by (simp add: tm_in_range_def)
  moreover have "t div 86400 < int (year_start k)" using assms(2,3) by linarith
  ultimately have "year_start j < year_start k" by linarith
  then have "j < k" using year_start_mono [of k j] by (meson leD leI)
  then show "tm_year tm < int k + 70" using j(1) by simp
qed

section \<open>The ISO 8601 parser stays inside its text\<close>

lemma parse_nums_loop_chars:
  "parse_nums_loop t sep num k nums n d = (numbers, n') \<Longrightarrow> n' \<le> n + length t"
  by (induction t sep num k nums n d rule: parse_nums_loop.induct)
    (auto simp: Let_def split: if_splits)

lemma parse_nums_chars: "parse_nums t sep = (numbers, n) \<Longrightarrow> n \<le> length t"
  using parse_nums_loop_chars [of t sep 0 0 "[]" 0 False] by (auto simp: parse_nums_def)

lemma parse_nums_loop_count:
  "parse_nums_loop t sep num k nums n d = (numbers, n') \<Longrightarrow> length nums \<le> 4 \<Longrightarrow>
     d \<longrightarrow> length nums < 4 \<Longrightarrow> length numbers \<le> 4"
  by (induction t sep num k nums n d rule: parse_nums_loop.induct)
    (auto simp: Let_def split: if_splits)

lemma char_at_le: "i \<le> length s \<Longrightarrow> \<exists>c. char_at s i = Some c"
  by (auto simp: char_at_def)

lemma char_at_inside: "char_at s i = Some c \<Longrightarrow> c \<noteq> 0 \<Longrightarrow> i < length s \<and> s ! i = c"
  by (auto simp: char_at_def split: if_splits)

lemma skip_while_le: "i \<le> length s \<Longrightarrow> \<exists>j. skip_while P s i = Some j \<and> j \<le> length s"
  using length_takeWhile_le [of P "drop i s"] by (auto simp: skip_while_def)

text \<open>Two digits at a position inside the text.\<close>

lemma any_at_digits:
  assumes "n \<le> length s"
  shows "any_at s [(n, \<lambda>c. \<not> is_digit c), (n + 1, \<lambda>c. \<not> is_digit c)] = Some True \<or>
    any_at s [(n, \<lambda>c. \<not> is_digit c), (n + 1, \<lambda>c. \<not> is_digit c)] = Some False \<and> n + 2 \<le> length s"
proof -
  obtain c where c: "char_at s n = Some c" using char_at_le [OF assms] ..
  show ?thesis
  proof (cases "is_digit c")
    case True
    then have n: "n + 1 \<le> length s" using char_at_inside [OF c] digit_nonzero by auto
    obtain d where d: "char_at s (n + 1) = Some d" using char_at_le [OF n] ..
    then show ?thesis using c True char_at_inside [OF d] digit_nonzero [of d] by (cases "is_digit d") auto
  qed (simp add: c)
qed

lemma all_at_digits:
  assumes "n \<le> length s"
  shows "all_at s [(n, \<lambda>c. c \<noteq> 0), (n, is_digit), (n + 1, is_digit)] \<noteq> None"
proof -
  obtain c where c: "char_at s n = Some c" using char_at_le [OF assms] ..
  then have "is_digit c \<Longrightarrow> \<exists>d. char_at s (n + 1) = Some d"
    using char_at_inside [OF c] digit_nonzero char_at_le [of "n + 1" s] by auto
  then show ?thesis using c by (cases "is_digit c") (auto simp: all_at_def)
qed

lemma iso8601_offset_defined:
  assumes "n \<le> length s"
  shows "iso8601_offset s n pm \<noteq> None"
proof (cases "any_at s [(n, \<lambda>c. \<not> is_digit c), (n + 1, \<lambda>c. \<not> is_digit c)] = Some True")
  case True
  then show ?thesis unfolding iso8601_offset_def by simp
next
  case False
  then have any: "any_at s [(n, \<lambda>c. \<not> is_digit c), (n + 1, \<lambda>c. \<not> is_digit c)] = Some False"
    and n2: "n + 2 \<le> length s"
    using any_at_digits [OF assms] by blast+
  obtain x where x: "char_at s (n + 2) = Some x" using char_at_le [OF n2] ..
  define m where "m = (if x = chr_colon then n + 3 else n + 2)"
  have "m \<le> length s" using n2 char_at_inside [OF x] by (auto simp: m_def)
  then obtain b where "all_at s [(m, \<lambda>c. c \<noteq> 0), (m, is_digit), (m + 1, is_digit)] = Some b"
    using all_at_digits by blast
  then show ?thesis unfolding iso8601_offset_def any Let_def by (simp only: x m_def) simp
qed

lemma iso8601_timezone_defined:
  assumes "n \<le> length s"
  shows "iso8601_timezone s n \<noteq> None"
proof -
  obtain c where c: "char_at s n = Some c" using char_at_le [OF assms] ..
  have "\<exists>j \<le> length s. (if c = chr_dot then skip_while is_digit s (n + 1) else Some n) = Some j"
    using skip_while_le [of "n + 1" s is_digit] char_at_inside [OF c] assms by auto
  then obtain j where j: "(if c = chr_dot then skip_while is_digit s (n + 1) else Some n) = Some j" "j \<le> length s"
    by blast
  obtain e where e: "char_at s j = Some e" using char_at_le [OF j(2)] ..
  have "e = chr_minus \<or> e = chr_plus \<Longrightarrow> iso8601_offset s (j + 1) pm \<noteq> None" for pm
    using char_at_inside [OF e] by (intro iso8601_offset_defined) auto
  then show ?thesis
    unfolding iso8601_timezone_def c Option.bind_lunit j(1) e by simp
qed

lemma iso8601_time_defined: "iso8601_time t \<noteq> None"
proof -
  obtain numbers n where n: "parse_nums t chr_colon = (numbers, n)" by fastforce
  then have "iso8601_timezone t n \<noteq> None" by (intro iso8601_timezone_defined parse_nums_chars)
  then show ?thesis by (auto simp: iso8601_time_def n split: option.splits)
qed

lemma iso8601_separator_defined:
  assumes "n \<le> length s"
  shows "\<exists>sep. iso8601_separator s n = Some sep \<and> (\<forall>m. sep = Some m \<longrightarrow> m \<le> length s)"
proof -
  obtain c where c: "char_at s n = Some c" using char_at_le [OF assms] ..
  obtain j where j: "skip_while is_space s n = Some j" "j \<le> length s"
    using skip_while_le [OF assms] by blast
  obtain e where e: "char_at s j = Some e" using char_at_le [OF j(2)] ..
  show ?thesis
    using c j e char_at_inside [OF c] by (auto simp: iso8601_separator_def)
qed

lemma parse_iso8601_defined: "parse_iso8601 date out \<noteq> None"
proof -
  obtain numbers n where n: "parse_nums date chr_minus = (numbers, n)" by fastforce
  obtain sep where sep: "iso8601_separator date n = Some sep" "\<And>m. sep = Some m \<Longrightarrow> m \<le> length date"
    using iso8601_separator_defined [OF parse_nums_chars [OF n]] by blast
  show ?thesis
  proof (cases sep)
    case (Some m)
    obtain c where "char_at date m = Some c" using char_at_le [OF sep(2) [OF Some]] ..
    moreover obtain time where "iso8601_time (drop m date) = Some time" using iso8601_time_defined by blast
    ultimately show ?thesis
      using sep(1) Some by (auto simp: parse_iso8601_def n Let_def split: option.splits)
  qed (use sep(1) in \<open>auto simp: parse_iso8601_def n split: option.splits\<close>)
qed

section \<open>Properties\<close>

text \<open>C33: Printing and parsing a date are inverse in each of the four formats: the text
  \<open>gsk_date_print\<close> writes for a date of the years 1910 to 3799 (two or more digits in the
  RFC 1036 format, and below its two-digit-year correction) fits a buffer of 80 bytes, and
  \<open>gsk_date_parse\<close> recovers the date and the offset 0 from it.\<close>

theorem date_print_parse:
  assumes "printable tm" "10 \<le> tm_year tm" "tm_year tm < 1900" "format \<in> {1, 2, 4, 8}"
  shows "\<exists>text tm'. gsk_date_print tm 80 format = Some text \<and>
    gsk_date_parse text out format = Some (Some (tm', 0)) \<and> broken_down tm' = broken_down tm"
  by (rule roundtrip_any [OF assms])

theorem date_print_parse_witness:
  "\<exists>text tm'. gsk_date_print leap_day 80 2 = Some text \<and>
    gsk_date_parse text leap_day 2 = Some (Some (tm', 0)) \<and> broken_down tm' = broken_down leap_day"
  by (rule date_print_parse) (simp_all add: printable_def tm_in_range_def leap_day_def)

text \<open>C32: A time printed by \<open>gsk_date_print_timet\<close> in any of the four formats is read back
  by \<open>gsk_date_parse_timet\<close>, for every time from the epoch to the end of the year 3799 and
  whatever the uninitialised local \<open>struct tm\<close> of the parser holds.\<close>

theorem date_timet_roundtrip:
  assumes "0 \<le> t" "t < 57749241600" "format \<in> {1, 2, 4, 8}"
  shows "\<exists>text. gsk_date_print_timet t 80 format = Some text \<and>
    gsk_date_parse_timet garbage text format = Some (Some t)"
proof -
  have "int (year_start 1830) = 668394" by (simp add: year_start_closed leaps_def)
  then have bound: "t < 86400 * int (year_start 1830)" using assms(2) by simp
  have t: "t < 86400 * 2 ^ 32" using assms(2) by simp
  obtain tm where tm: "gmtime t = Some tm" using gmtime_defined [OF assms(1) t] ..
  have p: "printable tm" "10 \<le> tm_year tm" "tm_year tm < 1900"
    using gmtime_printable [OF tm assms(1) bound] by simp_all
  obtain s tm' where r: "gsk_date_print tm 80 format = Some s"
    "gsk_date_parse s garbage format = Some (Some (tm', 0))" "broken_down tm' = broken_down tm"
    using roundtrip_any [OF p assms(3)] by blast
  have "gsk_timegm tm' = t"
    using gmtime_timegm [OF tm assms(1) t] timegm_broken_down [OF r(3)] by simp
  then show ?thesis
    using r(1,2) tm assms(1) by (auto simp: gsk_date_print_timet_def gsk_date_parse_timet_def)
qed

theorem date_timet_roundtrip_witness:
  "\<exists>text. gsk_date_print_timet 784111777 80 1 = Some text \<and>
    gsk_date_parse_timet leap_day text 1 = Some (Some 784111777)"
  by (rule date_timet_roundtrip) simp_all

text \<open>C37: The ISO 8601 parser never reads behind the NUL of its argument, whatever the text,
  and stores at most four numbers in its arrays of five.\<close>

theorem iso8601_reads_inside:
  "parse_iso8601 date out \<noteq> None \<and> length (fst (parse_nums date sep)) \<le> 4"
  using parse_iso8601_defined [of date out] parse_nums_loop_count [of date sep 0 0 "[]" 0 False]
  by (auto simp: parse_nums_def intro: prod.collapse [symmetric])

text \<open>A date without a time, which the description of the format in \<^verbatim>\<open>gskdate.h\<close> allows,
  is rejected: behind the date there must be a \<open>T\<close> or a space.\<close>

lemma iso8601_date_alone_rejected:
  assumes "chr_T \<notin> set date" "chr_space \<notin> set date"
  shows "parse_iso8601 date out = Some None"
proof -
  obtain numbers n where n: "parse_nums date chr_minus = (numbers, n)" by fastforce
  obtain c where c: "char_at date n = Some c" using char_at_le [OF parse_nums_chars [OF n]] ..
  then have "c \<noteq> chr_T" "c \<noteq> chr_space"
    using char_at_inside [OF c] assms nth_mem by fastforce+
  then have "iso8601_separator date n = Some None" by (simp add: iso8601_separator_def c)
  then show ?thesis by (simp add: parse_iso8601_def n split: option.splits)
qed

text \<open>The RFC 1123 parser does not notice that its text ends behind the day of the month:
  it reads the month name behind the NUL.\<close>

theorem rfc1123_reads_behind: "parse_1123 (cstr ''Sun,'' @ decimal n) out = None"
proof -
  let ?s = "cstr ''Sun,'' @ decimal n"
  have s: "?s = 83 # 117 # 110 # 44 # decimal n" by (simp add: cstr_def)
  obtain e es where e: "decimal n = e # es" "is_digit e"
    using decimal_digits [of n] decimal_not_Nil [of n] by (cases "decimal n") auto
  have r0: "reads ?s 0 (83 # 117 # 110 # 44 # decimal n)" using reads_start [of ?s] unfolding s .
  have r4: "reads ?s 4 (decimal n)" by (simp add: reads_def s)
  have "get_day_of_week ?s 0 = Some 1"
    unfolding get_day_of_week_def reads_lookup [OF r0]
    by (simp add: name_tables to_lower_def is_upper_def cstr_def Let_def)
  moreover have "char_at ?s 3 = Some 44" by (simp add: s)
  moreover have "skip_while is_space ?s 4 = Some 4"
    using skip_none [of ?s 4 e] r4 e digit_not_space by simp
  moreover have "snd (strtol (decimal n)) = length (decimal n)"
    using strto_scan_digits [OF decimal_digits decimal_not_Nil, of "[]"] by (simp add: strtol_def Let_def)
  then obtain v where "strtol_at ?s 4 = Some (v, length (decimal n))"
    using reads_strtol [OF r4] by (metis prod.collapse)
  moreover have "skip_while is_space ?s (4 + length (decimal n)) = Some (length ?s)"
    by (simp add: skip_while_def s)
  moreover have "get_month ?s (length ?s) = None"
    by (simp add: get_month_def lookup_name_def char_at_def)
  ultimately show ?thesis by (simp add: parse_1123_def)
qed

end
