(* ===== verification/Gsk_Hook.thy ===== *)
theory Gsk_Hook
  imports Gsk_Prelude "HOL-Library.Multiset"
begin

text \<open>
  Hooks, \<^verbatim>\<open>src/src/gskhook.c\<close> and \<^verbatim>\<open>gskhook.h\<close>: the state of one hook and of the idle
  data of the main loop, with one function per operation.  Operations call user code (the
  trapped function, the shutdown function, the class's shutdown method), which may call the
  operations again before it returns.  A stack of frames records what is running: an
  operation that calls user code pushes a frame and stops there, and the part of the
  operation behind the call is a separate function, applied when the user code returns.
  The set-poll method and the destroy notifications are recorded as events; they do not
  enter the hook again.
\<close>

section \<open>State\<close>

text \<open>The flags, as bit positions of the 16-bit field.\<close>

abbreviation (input) IS_AVAILABLE :: nat where "IS_AVAILABLE \<equiv> 0"
abbreviation (input) CAN_HAVE_SHUTDOWN_ERROR :: nat where "CAN_HAVE_SHUTDOWN_ERROR \<equiv> 2"
abbreviation (input) IDLE_NOTIFY :: nat where "IDLE_NOTIFY \<equiv> 3"
abbreviation (input) JUST_NEVER_BLOCKS :: nat where "JUST_NEVER_BLOCKS \<equiv> 4"
abbreviation (input) CAN_DEFER_SHUTDOWN :: nat where "CAN_DEFER_SHUTDOWN \<equiv> 5"
abbreviation (input) SHUTTING_DOWN :: nat where "SHUTTING_DOWN \<equiv> 6"
abbreviation (input) HAS_POLL :: nat where "HAS_POLL \<equiv> 8"
abbreviation (input) IS_NOTIFYING :: nat where "IS_NOTIFYING \<equiv> 9"
abbreviation (input) IS_NOTIFYING_SHUTDOWN :: nat where "IS_NOTIFYING_SHUTDOWN \<equiv> 10"
abbreviation (input) BLOCKED_NOTIFY :: nat where "BLOCKED_NOTIFY \<equiv> 11"
abbreviation (input) BLOCKED_SHUTDOWN_NOTIFY :: nat where "BLOCKED_SHUTDOWN_NOTIFY \<equiv> 12"
abbreviation (input) UNTRAPPED_DURING_NOTIFY :: nat where "UNTRAPPED_DURING_NOTIFY \<equiv> 13"

text \<open>Functions and data are numbers, the null pointer is None.  The field \<open>user_flags\<close>, which this
  file never touches, is left out.\<close>

record gsk_hook =
  flags :: u16
  block_count :: u16
  inset :: u16
  class_set_poll_offset :: u16
  class_shutdown_offset :: u16
  func :: "nat option"
  shutdown_func :: "nat option"
  data :: nat
  destroy :: "nat option"

text \<open>The idle data of the main loop, as far as this hook is concerned: whether it is in the
  tree of hooks to run, whether there is an idle source, and the deferred destroy calls.\<close>

record nb_thread_data =
  in_hook_tree :: bool
  nb_source :: bool
  pending_destroys :: "(nat \<times> nat) list"

text \<open>User code that is running, or the rest of an operation that waits for the frame above
  it: \<open>gsk_hook_shutdown\<close> after the shutdown notification, and
  \<open>run_all_nonblocking_hooks\<close> after the notification.\<close>

datatype frame = Func_Running | Shutdown_Func_Running | Class_Shutdown_Running bool
  | Shutdown_Finish bool | Idle_Finish

datatype event = Trapped nat nat | Called nat nat | Called_Shutdown nat nat | Destroyed nat nat
  | Shutdown_Returned bool

text \<open>\<open>class_member\<close> is the pointer at an offset of the class structure of the containing object.\<close>

record hook_state =
  hook :: gsk_hook
  nb :: nb_thread_data
  class_member :: "u16 \<Rightarrow> nat option"
  polled :: bool
  stack :: "frame list"
  log :: "event list"
  assert_failed :: bool

definition test_flag :: "nat \<Rightarrow> hook_state \<Rightarrow> bool" where
  "test_flag n s = bit (flags (hook s)) n"

definition mark_flag :: "nat \<Rightarrow> hook_state \<Rightarrow> hook_state" where
  "mark_flag n s = s\<lparr>hook := (hook s)\<lparr>flags := set_bit n (flags (hook s))\<rparr>\<rparr>"

definition clear_flag :: "nat \<Rightarrow> hook_state \<Rightarrow> hook_state" where
  "clear_flag n s = s\<lparr>hook := (hook s)\<lparr>flags := unset_bit n (flags (hook s))\<rparr>\<rparr>"

text \<open>The shutdown method that \<open>gsk_hook_call_shutdown_func\<close> finds; the offset 0 is not special.\<close>

definition class_has_shutdown :: "hook_state \<Rightarrow> bool" where
  "class_has_shutdown s \<longleftrightarrow> class_member s (class_shutdown_offset (hook s)) \<noteq> None"

definition gsk_hook_init :: "gsk_hook \<Rightarrow> u16 \<Rightarrow> u32 \<Rightarrow> u32 \<Rightarrow> u32 \<Rightarrow> gsk_hook" where
  "gsk_hook_init h fl ins set_poll_offset shutdown_offset =
     (if ins < 65536 \<and> shutdown_offset < 65536 \<and> set_poll_offset < 65536 then
        \<lparr>flags = fl AND NOT 0xff00, block_count = 0, inset = ucast ins,
         class_set_poll_offset = ucast set_poll_offset, class_shutdown_offset = ucast shutdown_offset,
         func = None, shutdown_func = None, data = 0, destroy = None\<rparr>
      else h)"

section \<open>The idle data\<close>

definition call_destroy :: "nat option \<Rightarrow> nat \<Rightarrow> hook_state \<Rightarrow> hook_state" where
  "call_destroy d x s = (case d of None \<Rightarrow> s | Some f \<Rightarrow> s\<lparr>log := log s @ [Destroyed f x]\<rparr>)"

definition flush_pending_destroys :: "hook_state \<Rightarrow> hook_state" where
  "flush_pending_destroys s =
     s\<lparr>log := log s @ map (\<lambda>(d, x). Destroyed d x) (pending_destroys (nb s)),
       nb := (nb s)\<lparr>pending_destroys := []\<rparr>\<rparr>"

definition verify_nonblocking_data_has_source :: "hook_state \<Rightarrow> hook_state" where
  "verify_nonblocking_data_has_source s = s\<lparr>nb := (nb s)\<lparr>nb_source := True\<rparr>\<rparr>"

definition gsk_hook_add_to_nonblocking_list :: "hook_state \<Rightarrow> hook_state" where
  "gsk_hook_add_to_nonblocking_list s =
     verify_nonblocking_data_has_source (s\<lparr>nb := (nb s)\<lparr>in_hook_tree := True\<rparr>\<rparr>)"

definition gsk_hook_remove_from_nonblocking_list :: "hook_state \<Rightarrow> hook_state" where
  "gsk_hook_remove_from_nonblocking_list s = s\<lparr>nb := (nb s)\<lparr>in_hook_tree := False\<rparr>\<rparr>"

definition gsk_hook_maybe_defer_destroy :: "nat option \<Rightarrow> nat \<Rightarrow> hook_state \<Rightarrow> hook_state" where
  "gsk_hook_maybe_defer_destroy d x s =
     (case d of
        None \<Rightarrow> s
      | Some f \<Rightarrow>
          (let s = verify_nonblocking_data_has_source s
           in s\<lparr>nb := (nb s)\<lparr>pending_destroys := pending_destroys (nb s) @ [(f, x)]\<rparr>\<rparr>))"

section \<open>Polling, trapping, blocking\<close>

text \<open>The call of the method, if there is one, is recorded as the last value.\<close>

definition gsk_hook_call_set_poll_func :: "bool \<Rightarrow> hook_state \<Rightarrow> hook_state" where
  "gsk_hook_call_set_poll_func v s = s\<lparr>polled := v\<rparr>"

definition gsk_hook_set_poll :: "hook_state \<Rightarrow> hook_state" where
  "gsk_hook_set_poll s =
     (let s = mark_flag HAS_POLL s;
          s = (if test_flag IDLE_NOTIFY s then gsk_hook_add_to_nonblocking_list s else s)
      in gsk_hook_call_set_poll_func True s)"

definition gsk_hook_clear_poll :: "hook_state \<Rightarrow> hook_state" where
  "gsk_hook_clear_poll s =
     (let s = clear_flag HAS_POLL s;
          s = (if test_flag IDLE_NOTIFY s then gsk_hook_remove_from_nonblocking_list s else s)
      in gsk_hook_call_set_poll_func False s)"

definition gsk_hook_trap :: "nat option \<Rightarrow> nat option \<Rightarrow> nat \<Rightarrow> nat option \<Rightarrow> hook_state \<Rightarrow> hook_state" where
  "gsk_hook_trap f shutdown x d s =
     (if func (hook s) \<noteq> None \<or> \<not> test_flag IS_AVAILABLE s then s
      else
        (let s = s\<lparr>hook := (hook s)\<lparr>func := f, shutdown_func := shutdown, data := x, destroy := d\<rparr>,
                   log := log s @ (case d of None \<Rightarrow> [] | Some g \<Rightarrow> [Trapped g x])\<rparr>
         in if block_count (hook s) = 0 \<and> \<not> test_flag HAS_POLL s then gsk_hook_set_poll s else s))"

definition gsk_hook_untrap :: "hook_state \<Rightarrow> hook_state" where
  "gsk_hook_untrap s =
     (let old_destroy = destroy (hook s);
          old_data = data (hook s);
          s = s\<lparr>hook := (hook s)\<lparr>func := None, shutdown_func := None, data := 0, destroy := None\<rparr>\<rparr>;
          s = (if test_flag HAS_POLL s then gsk_hook_clear_poll s else s)
      in if test_flag IS_NOTIFYING s \<or> test_flag IS_NOTIFYING_SHUTDOWN s
         then gsk_hook_maybe_defer_destroy old_destroy old_data (mark_flag UNTRAPPED_DURING_NOTIFY s)
         else call_destroy old_destroy old_data s)"

definition gsk_hook_block :: "hook_state \<Rightarrow> hook_state" where
  "gsk_hook_block s =
     (let s = s\<lparr>hook := (hook s)\<lparr>block_count := block_count (hook s) + 1\<rparr>\<rparr>
      in if test_flag HAS_POLL s then gsk_hook_clear_poll s else s)"

definition gsk_hook_unblock :: "hook_state \<Rightarrow> hook_state" where
  "gsk_hook_unblock s =
     (if block_count (hook s) = 0 then s
      else
        (let s = s\<lparr>hook := (hook s)\<lparr>block_count := block_count (hook s) - 1\<rparr>\<rparr>
         in if block_count (hook s) = 0 \<and> test_flag IS_AVAILABLE s \<and> func (hook s) \<noteq> None
            then gsk_hook_set_poll s else s))"

section \<open>Notification\<close>

definition clear_idle_notify_flag :: "hook_state \<Rightarrow> hook_state" where
  "clear_idle_notify_flag s =
     (let s = clear_flag IDLE_NOTIFY s
      in if test_flag HAS_POLL s then gsk_hook_remove_from_nonblocking_list s else s)"

text \<open>Up to the call of the shutdown function.\<close>

definition gsk_hook_notify_shutdown :: "hook_state \<Rightarrow> hook_state" where
  "gsk_hook_notify_shutdown s =
     (if test_flag IS_NOTIFYING_SHUTDOWN s then s
      else if \<not> test_flag IS_AVAILABLE s \<and> \<not> test_flag SHUTTING_DOWN s then s
      else if test_flag IS_NOTIFYING s then mark_flag BLOCKED_SHUTDOWN_NOTIFY s
      else
        (let s = (if test_flag IDLE_NOTIFY s then clear_idle_notify_flag s else s);
             s = clear_flag IS_AVAILABLE s;
             s = clear_flag SHUTTING_DOWN s
         in case shutdown_func (hook s) of
              None \<Rightarrow> if func (hook s) \<noteq> None then gsk_hook_untrap s else s
            | Some f \<Rightarrow>
                (let s = mark_flag IS_NOTIFYING_SHUTDOWN s
                 in s\<lparr>log := log s @ [Called_Shutdown f (data (hook s))],
                      stack := Shutdown_Func_Running # stack s\<rparr>)))"

text \<open>From the label \<open>begin_notify\<close> up to the call of the function.\<close>

definition begin_notify :: "hook_state \<Rightarrow> hook_state" where
  "begin_notify s =
     (case func (hook s) of
        None \<Rightarrow> s
      | Some f \<Rightarrow>
          (let s = mark_flag IS_NOTIFYING s
           in s\<lparr>log := log s @ [Called f (data (hook s))], stack := Func_Running # stack s\<rparr>))"

definition gsk_hook_notify :: "hook_state \<Rightarrow> hook_state" where
  "gsk_hook_notify s =
     (if \<not> test_flag IS_AVAILABLE s then s
      else if block_count (hook s) > 0 \<or> test_flag IS_NOTIFYING s \<or> test_flag IS_NOTIFYING_SHUTDOWN s
      then mark_flag BLOCKED_NOTIFY s
      else begin_notify (clear_flag BLOCKED_NOTIFY s))"

text \<open>Behind the call of the function.\<close>

definition after_func :: "bool \<Rightarrow> hook_state \<Rightarrow> hook_state" where
  "after_func handler_rv s =
     (let s = clear_flag IS_NOTIFYING s;
          s = (if \<not> handler_rv \<and> \<not> test_flag UNTRAPPED_DURING_NOTIFY s then gsk_hook_untrap s else s);
          s = clear_flag UNTRAPPED_DURING_NOTIFY s
      in if test_flag BLOCKED_SHUTDOWN_NOTIFY s then gsk_hook_notify_shutdown s
         else if test_flag BLOCKED_NOTIFY s then begin_notify (clear_flag BLOCKED_NOTIFY s)
         else s)"

text \<open>Behind the call of the shutdown function.\<close>

definition after_shutdown_func :: "bool \<Rightarrow> hook_state \<Rightarrow> hook_state" where
  "after_shutdown_func handler_rv s =
     (let s = clear_flag IS_NOTIFYING_SHUTDOWN s;
          s = (if \<not> handler_rv \<and> \<not> test_flag UNTRAPPED_DURING_NOTIFY s then gsk_hook_untrap s else s)
      in clear_flag UNTRAPPED_DURING_NOTIFY s)"

section \<open>Shutdown\<close>

text \<open>The end of \<open>gsk_hook_shutdown\<close>, behind the notification, with its assertion.\<close>

definition shutdown_finish :: "bool \<Rightarrow> hook_state \<Rightarrow> hook_state" where
  "shutdown_finish success s =
     (if \<not> test_flag SHUTTING_DOWN s \<or> test_flag IS_NOTIFYING s \<and> test_flag BLOCKED_SHUTDOWN_NOTIFY s
      then (clear_flag IS_AVAILABLE s)\<lparr>log := log s @ [Shutdown_Returned success]\<rparr>
      else s\<lparr>assert_failed := True, log := log s @ [Shutdown_Returned False]\<rparr>)"

text \<open>What waits below the user code that has returned.\<close>

fun resume_frames :: "frame list \<Rightarrow> hook_state \<Rightarrow> hook_state" where
  "resume_frames (Shutdown_Finish success # rest) s = resume_frames rest (shutdown_finish success s)"
| "resume_frames (Idle_Finish # rest) s = resume_frames rest (flush_pending_destroys s)"
| "resume_frames rest s = s\<lparr>stack := rest\<rparr>"

definition resume :: "hook_state \<Rightarrow> hook_state" where
  "resume s = resume_frames (stack s) s"

text \<open>Behind the call of the class's shutdown method, which returned \<open>rv\<close> and set an
  error or not; \<open>can_defer\<close> is the flag as tested before the call.\<close>

definition after_class_shutdown :: "bool \<Rightarrow> bool \<Rightarrow> bool \<Rightarrow> hook_state \<Rightarrow> hook_state" where
  "after_class_shutdown can_defer rv err s =
     (if can_defer \<and> \<not> rv then
        (if \<not> test_flag SHUTTING_DOWN s
         then s\<lparr>assert_failed := True, log := log s @ [Shutdown_Returned False]\<rparr>
         else (clear_flag IS_AVAILABLE s)\<lparr>log := log s @ [Shutdown_Returned (\<not> err)]\<rparr>)
      else
        (let success = (if can_defer then \<not> err else rv \<and> \<not> err)
         in resume (gsk_hook_notify_shutdown (s\<lparr>stack := Shutdown_Finish success # stack s\<rparr>))))"

definition gsk_hook_shutdown :: "hook_state \<Rightarrow> hook_state" where
  "gsk_hook_shutdown s =
     (if \<not> test_flag IS_AVAILABLE s then s
      else if test_flag SHUTTING_DOWN s then s
      else
        (let s = mark_flag SHUTTING_DOWN s
         in if class_has_shutdown s
            then s\<lparr>stack := Class_Shutdown_Running (test_flag CAN_DEFER_SHUTDOWN s) # stack s\<rparr>
            else after_class_shutdown (test_flag CAN_DEFER_SHUTDOWN s) True False s))"

section \<open>Idle notification\<close>

definition gsk_hook_mark_idle_notify :: "hook_state \<Rightarrow> hook_state" where
  "gsk_hook_mark_idle_notify s =
     (if test_flag JUST_NEVER_BLOCKS s then s
      else if \<not> test_flag IS_AVAILABLE s then s
      else if test_flag IDLE_NOTIFY s then s
      else
        (let s = mark_flag IDLE_NOTIFY s
         in if test_flag HAS_POLL s then gsk_hook_add_to_nonblocking_list s else s))"

definition gsk_hook_clear_idle_notify :: "hook_state \<Rightarrow> hook_state" where
  "gsk_hook_clear_idle_notify s =
     (if test_flag JUST_NEVER_BLOCKS s then s
      else if \<not> test_flag IDLE_NOTIFY s then s
      else clear_idle_notify_flag s)"

definition gsk_hook_set_idle_notify :: "bool \<Rightarrow> hook_state \<Rightarrow> hook_state" where
  "gsk_hook_set_idle_notify should s =
     (if should then gsk_hook_mark_idle_notify s else gsk_hook_clear_idle_notify s)"

definition gsk_hook_mark_never_blocks :: "hook_state \<Rightarrow> hook_state" where
  "gsk_hook_mark_never_blocks s = mark_flag JUST_NEVER_BLOCKS (gsk_hook_mark_idle_notify s)"

definition gsk_hook_mark_can_defer_shutdown :: "hook_state \<Rightarrow> hook_state" where
  "gsk_hook_mark_can_defer_shutdown s = mark_flag CAN_DEFER_SHUTDOWN s"

definition gsk_hook_get_last_poll_state :: "hook_state \<Rightarrow> bool" where
  "gsk_hook_get_last_poll_state s = test_flag HAS_POLL s"

definition gsk_hook_destruct :: "hook_state \<Rightarrow> hook_state" where
  "gsk_hook_destruct s =
     (let s = (if test_flag HAS_POLL s then gsk_hook_clear_poll s else s)
      in call_destroy (destroy (hook s)) (data (hook s)) s)"

text \<open>The idle function of the main loop.\<close>

definition run_all_nonblocking_hooks :: "hook_state \<Rightarrow> hook_state" where
  "run_all_nonblocking_hooks s =
     (let s = flush_pending_destroys s
      in if \<not> in_hook_tree (nb s) then s\<lparr>nb := (nb s)\<lparr>nb_source := False\<rparr>\<rparr>
         else resume (gsk_hook_notify (s\<lparr>stack := Idle_Finish # stack s\<rparr>)))"

section \<open>The transition system\<close>

text \<open>The operations may be called by the owner of the hook and by user code that is running;
  user code returns with any result.  The function passed to \<open>gsk_hook_trap\<close> is not NULL.  The
  class's shutdown method keeps its contract: it returns FALSE only if it can report an error,
  and does not defer a shutdown it has already completed.  The 16-bit block count does not wrap.\<close>

inductive hook_step :: "hook_state \<Rightarrow> hook_state \<Rightarrow> bool" where
  trap: "hook_step s (gsk_hook_trap (Some f) sd x d s)"
| untrap: "hook_step s (gsk_hook_untrap s)"
| block: "block_count (hook s) \<noteq> - 1 \<Longrightarrow> hook_step s (gsk_hook_block s)"
| unblock: "hook_step s (gsk_hook_unblock s)"
| shutdown: "hook_step s (gsk_hook_shutdown s)"
| notify: "hook_step s (gsk_hook_notify s)"
| notify_shutdown: "hook_step s (gsk_hook_notify_shutdown s)"
| set_idle_notify: "hook_step s (gsk_hook_set_idle_notify v s)"
| never_blocks: "hook_step s (gsk_hook_mark_never_blocks s)"
| can_defer: "hook_step s (gsk_hook_mark_can_defer_shutdown s)"
| func_returns: "stack s = Func_Running # rest \<Longrightarrow>
    hook_step s (resume (after_func rv (s\<lparr>stack := rest\<rparr>)))"
| shutdown_func_returns: "stack s = Shutdown_Func_Running # rest \<Longrightarrow>
    hook_step s (resume (after_shutdown_func rv (s\<lparr>stack := rest\<rparr>)))"
| class_shutdown_returns: "stack s = Class_Shutdown_Running can_defer # rest \<Longrightarrow>
    \<not> rv \<or> err \<longrightarrow> test_flag CAN_HAVE_SHUTDOWN_ERROR s \<Longrightarrow>
    can_defer \<and> \<not> rv \<longrightarrow> test_flag SHUTTING_DOWN s \<Longrightarrow>
    hook_step s (resume (after_class_shutdown can_defer rv err (s\<lparr>stack := rest\<rparr>)))"
| idle: "stack s = [] \<Longrightarrow> nb_source (nb s) \<Longrightarrow> hook_step s (run_all_nonblocking_hooks s)"

text \<open>The zeroed memory of a new object, and a hook initialised in it, for any flags that do not say
  it is already shutting down.\<close>

definition zero_hook :: gsk_hook where
  "zero_hook = \<lparr>flags = 0, block_count = 0, inset = 0, class_set_poll_offset = 0, class_shutdown_offset = 0,
     func = None, shutdown_func = None, data = 0, destroy = None\<rparr>"

definition initial_hook_state :: "u16 \<Rightarrow> u32 \<Rightarrow> u32 \<Rightarrow> u32 \<Rightarrow> (u16 \<Rightarrow> nat option) \<Rightarrow> hook_state" where
  "initial_hook_state fl ins set_poll_offset shutdown_offset members =
    \<lparr>hook = gsk_hook_init zero_hook fl ins set_poll_offset shutdown_offset,
     nb = \<lparr>in_hook_tree = False, nb_source = False, pending_destroys = []\<rparr>,
     class_member = members, polled = False, stack = [], log = [], assert_failed = False\<rparr>"

inductive hook_reachable :: "hook_state \<Rightarrow> bool" where
  init: "\<not> bit fl SHUTTING_DOWN \<Longrightarrow> hook_reachable (initial_hook_state fl ins po so cm)"
| step: "hook_reachable s \<Longrightarrow> hook_step s s' \<Longrightarrow> hook_reachable s'"

section \<open>Flags\<close>

lemma test_mark [simp]: "n < 16 \<Longrightarrow> test_flag m (mark_flag n s) = (m = n \<or> test_flag m s)"
  by (auto simp: test_flag_def mark_flag_def bit_set_bit_iff)

lemma test_clear [simp]: "test_flag m (clear_flag n s) = (m \<noteq> n \<and> test_flag m s)"
  by (auto simp: test_flag_def clear_flag_def bit_unset_bit_iff)

lemma test_other [simp]:
  "test_flag n (s\<lparr>nb := a\<rparr>) = test_flag n s" "test_flag n (s\<lparr>polled := b\<rparr>) = test_flag n s"
  "test_flag n (s\<lparr>stack := c\<rparr>) = test_flag n s" "test_flag n (s\<lparr>log := l\<rparr>) = test_flag n s"
  "test_flag n (s\<lparr>assert_failed := b\<rparr>) = test_flag n s"
  "flags h = flags (hook s) \<Longrightarrow> test_flag n (s\<lparr>hook := h\<rparr>) = test_flag n s"
  by (simp_all add: test_flag_def)

lemma mark_other [simp]:
  "nb (mark_flag n s) = nb s" "polled (mark_flag n s) = polled s" "stack (mark_flag n s) = stack s"
  "log (mark_flag n s) = log s" "assert_failed (mark_flag n s) = assert_failed s"
  "class_has_shutdown (mark_flag n s) = class_has_shutdown s"
  "block_count (hook (mark_flag n s)) = block_count (hook s)" "func (hook (mark_flag n s)) = func (hook s)"
  "shutdown_func (hook (mark_flag n s)) = shutdown_func (hook s)" "data (hook (mark_flag n s)) = data (hook s)"
  "destroy (hook (mark_flag n s)) = destroy (hook s)"
  by (simp_all add: mark_flag_def class_has_shutdown_def)

lemma clear_other [simp]:
  "nb (clear_flag n s) = nb s" "polled (clear_flag n s) = polled s" "stack (clear_flag n s) = stack s"
  "log (clear_flag n s) = log s" "assert_failed (clear_flag n s) = assert_failed s"
  "class_has_shutdown (clear_flag n s) = class_has_shutdown s"
  "block_count (hook (clear_flag n s)) = block_count (hook s)" "func (hook (clear_flag n s)) = func (hook s)"
  "shutdown_func (hook (clear_flag n s)) = shutdown_func (hook s)" "data (hook (clear_flag n s)) = data (hook s)"
  "destroy (hook (clear_flag n s)) = destroy (hook s)"
  by (simp_all add: clear_flag_def class_has_shutdown_def)

lemma class_other [simp]:
  "class_has_shutdown (s\<lparr>stack := c\<rparr>) = class_has_shutdown s" "class_has_shutdown (s\<lparr>log := l\<rparr>) = class_has_shutdown s"
  by (simp_all add: class_has_shutdown_def)

lemma set_poll_effect [simp]:
  "test_flag n (gsk_hook_set_poll s) = (n = 8 \<or> test_flag n s)" "polled (gsk_hook_set_poll s)"
  "func (hook (gsk_hook_set_poll s)) = func (hook s)" "destroy (hook (gsk_hook_set_poll s)) = destroy (hook s)"
  "shutdown_func (hook (gsk_hook_set_poll s)) = shutdown_func (hook s)"
  "data (hook (gsk_hook_set_poll s)) = data (hook s)"
  "block_count (hook (gsk_hook_set_poll s)) = block_count (hook s)"
  "in_hook_tree (nb (gsk_hook_set_poll s)) = (in_hook_tree (nb s) \<or> test_flag 3 s)"
  "nb_source (nb (gsk_hook_set_poll s)) = (nb_source (nb s) \<or> test_flag 3 s)"
  "pending_destroys (nb (gsk_hook_set_poll s)) = pending_destroys (nb s)"
  "stack (gsk_hook_set_poll s) = stack s" "log (gsk_hook_set_poll s) = log s"
  "assert_failed (gsk_hook_set_poll s) = assert_failed s"
  by (auto simp: gsk_hook_set_poll_def gsk_hook_add_to_nonblocking_list_def
      verify_nonblocking_data_has_source_def gsk_hook_call_set_poll_func_def Let_def)

lemma clear_poll_effect [simp]:
  "test_flag n (gsk_hook_clear_poll s) = (n \<noteq> 8 \<and> test_flag n s)" "\<not> polled (gsk_hook_clear_poll s)"
  "func (hook (gsk_hook_clear_poll s)) = func (hook s)" "destroy (hook (gsk_hook_clear_poll s)) = destroy (hook s)"
  "shutdown_func (hook (gsk_hook_clear_poll s)) = shutdown_func (hook s)"
  "data (hook (gsk_hook_clear_poll s)) = data (hook s)"
  "block_count (hook (gsk_hook_clear_poll s)) = block_count (hook s)"
  "in_hook_tree (nb (gsk_hook_clear_poll s)) = (in_hook_tree (nb s) \<and> \<not> test_flag 3 s)"
  "nb_source (nb (gsk_hook_clear_poll s)) = nb_source (nb s)"
  "pending_destroys (nb (gsk_hook_clear_poll s)) = pending_destroys (nb s)"
  "stack (gsk_hook_clear_poll s) = stack s" "log (gsk_hook_clear_poll s) = log s"
  "assert_failed (gsk_hook_clear_poll s) = assert_failed s"
  by (auto simp: gsk_hook_clear_poll_def gsk_hook_remove_from_nonblocking_list_def
      gsk_hook_call_set_poll_func_def Let_def)

lemma defer_effect [simp]:
  "hook (gsk_hook_maybe_defer_destroy d x s) = hook s"
  "test_flag n (gsk_hook_maybe_defer_destroy d x s) = test_flag n s"
  "polled (gsk_hook_maybe_defer_destroy d x s) = polled s" "log (gsk_hook_maybe_defer_destroy d x s) = log s"
  "stack (gsk_hook_maybe_defer_destroy d x s) = stack s"
  "assert_failed (gsk_hook_maybe_defer_destroy d x s) = assert_failed s"
  "in_hook_tree (nb (gsk_hook_maybe_defer_destroy d x s)) = in_hook_tree (nb s)"
  "nb_source (nb (gsk_hook_maybe_defer_destroy d x s)) = (nb_source (nb s) \<or> d \<noteq> None)"
  "pending_destroys (nb (gsk_hook_maybe_defer_destroy d x s)) =
     pending_destroys (nb s) @ (case d of None \<Rightarrow> [] | Some f \<Rightarrow> [(f, x)])"
  by (auto simp: gsk_hook_maybe_defer_destroy_def verify_nonblocking_data_has_source_def Let_def
      split: option.splits)

lemma call_destroy_effect [simp]:
  "hook (call_destroy d x s) = hook s" "nb (call_destroy d x s) = nb s" "polled (call_destroy d x s) = polled s"
  "test_flag n (call_destroy d x s) = test_flag n s" "stack (call_destroy d x s) = stack s"
  "assert_failed (call_destroy d x s) = assert_failed s"
  "log (call_destroy d x s) = log s @ (case d of None \<Rightarrow> [] | Some f \<Rightarrow> [Destroyed f x])"
  by (auto simp: call_destroy_def split: option.splits)

lemma clear_idle_effect [simp]:
  "test_flag n (clear_idle_notify_flag s) = (n \<noteq> 3 \<and> test_flag n s)"
  "polled (clear_idle_notify_flag s) = polled s" "func (hook (clear_idle_notify_flag s)) = func (hook s)"
  "shutdown_func (hook (clear_idle_notify_flag s)) = shutdown_func (hook s)"
  "data (hook (clear_idle_notify_flag s)) = data (hook s)"
  "destroy (hook (clear_idle_notify_flag s)) = destroy (hook s)"
  "block_count (hook (clear_idle_notify_flag s)) = block_count (hook s)"
  "in_hook_tree (nb (clear_idle_notify_flag s)) = (in_hook_tree (nb s) \<and> \<not> test_flag 8 s)"
  "nb_source (nb (clear_idle_notify_flag s)) = nb_source (nb s)"
  "pending_destroys (nb (clear_idle_notify_flag s)) = pending_destroys (nb s)"
  "stack (clear_idle_notify_flag s) = stack s" "log (clear_idle_notify_flag s) = log s"
  "assert_failed (clear_idle_notify_flag s) = assert_failed s"
  by (auto simp: clear_idle_notify_flag_def gsk_hook_remove_from_nonblocking_list_def Let_def)

lemma untrap_effect [simp]:
  "test_flag n (gsk_hook_untrap s) =
     (n \<noteq> 8 \<and> (test_flag n s \<or> n = 13 \<and> (test_flag 9 s \<or> test_flag 10 s)))"
  "polled (gsk_hook_untrap s) = (polled s \<and> \<not> test_flag 8 s)"
  "func (hook (gsk_hook_untrap s)) = None" "shutdown_func (hook (gsk_hook_untrap s)) = None"
  "destroy (hook (gsk_hook_untrap s)) = None"
  "block_count (hook (gsk_hook_untrap s)) = block_count (hook s)"
  "in_hook_tree (nb (gsk_hook_untrap s)) = (in_hook_tree (nb s) \<and> \<not> (test_flag 8 s \<and> test_flag 3 s))"
  "nb_source (nb (gsk_hook_untrap s)) =
     (nb_source (nb s) \<or> (test_flag 9 s \<or> test_flag 10 s) \<and> destroy (hook s) \<noteq> None)"
  "pending_destroys (nb (gsk_hook_untrap s)) = pending_destroys (nb s) @
     (case destroy (hook s) of None \<Rightarrow> [] | Some f \<Rightarrow>
        if test_flag 9 s \<or> test_flag 10 s then [(f, data (hook s))] else [])"
  "log (gsk_hook_untrap s) = log s @
     (case destroy (hook s) of None \<Rightarrow> [] | Some f \<Rightarrow>
        if test_flag 9 s \<or> test_flag 10 s then [] else [Destroyed f (data (hook s))])"
  "stack (gsk_hook_untrap s) = stack s" "assert_failed (gsk_hook_untrap s) = assert_failed s"
  by (cases "test_flag 8 s"; auto simp: gsk_hook_untrap_def Let_def split: option.splits)+

lemma flush_effect [simp]:
  "test_flag n (flush_pending_destroys s) = test_flag n s" "hook (flush_pending_destroys s) = hook s"
  "polled (flush_pending_destroys s) = polled s" "stack (flush_pending_destroys s) = stack s"
  "in_hook_tree (nb (flush_pending_destroys s)) = in_hook_tree (nb s)"
  "nb_source (nb (flush_pending_destroys s)) = nb_source (nb s)"
  "pending_destroys (nb (flush_pending_destroys s)) = []"
  "log (flush_pending_destroys s) = log s @ map (\<lambda>(d, x). Destroyed d x) (pending_destroys (nb s))"
  "assert_failed (flush_pending_destroys s) = assert_failed s"
  by (simp_all add: flush_pending_destroys_def)

section \<open>Polling\<close>

text \<open>The set-poll method was last told what \<open>HAS_POLL\<close> says; a hook that is available,
  trapped and not blocked is polled, and only a trapped hook that is not blocked is; it is in the
  tree of idle hooks if it is polled and idle-notified; and there is an idle source whenever
  there is something for it to do.\<close>

definition poll_inv :: "hook_state \<Rightarrow> bool" where
  "poll_inv s \<longleftrightarrow>
     polled s = test_flag HAS_POLL s \<and>
     (test_flag HAS_POLL s \<longrightarrow> func (hook s) \<noteq> None \<and> block_count (hook s) = 0) \<and>
     (test_flag IS_AVAILABLE s \<longrightarrow> func (hook s) = None \<or> block_count (hook s) \<noteq> 0 \<or> test_flag HAS_POLL s) \<and>
     in_hook_tree (nb s) = (test_flag HAS_POLL s \<and> test_flag IDLE_NOTIFY s) \<and>
     (in_hook_tree (nb s) \<or> pending_destroys (nb s) \<noteq> [] \<longrightarrow> nb_source (nb s))"

lemma poll_inv_other [simp]:
  "poll_inv (s\<lparr>stack := c\<rparr>) = poll_inv s" "poll_inv (s\<lparr>log := l\<rparr>) = poll_inv s"
  "poll_inv (s\<lparr>assert_failed := b\<rparr>) = poll_inv s"
  by (simp_all add: poll_inv_def)

lemma poll_inv_flags [simp]:
  "n \<notin> {0, 3, 8} \<Longrightarrow> n < 16 \<Longrightarrow> poll_inv (mark_flag n s) = poll_inv s"
  "n \<notin> {0, 3, 8} \<Longrightarrow> poll_inv (clear_flag n s) = poll_inv s"
  by (simp_all add: poll_inv_def)

lemma poll_inv_unavailable: "poll_inv s \<Longrightarrow> poll_inv (clear_flag 0 s)"
  by (simp add: poll_inv_def)

lemma poll_inv_trap: "poll_inv s \<Longrightarrow> poll_inv (gsk_hook_trap (Some f) sd x d s)"
  by (auto simp: poll_inv_def gsk_hook_trap_def Let_def)

lemma poll_inv_untrap: "poll_inv s \<Longrightarrow> poll_inv (gsk_hook_untrap s)"
  by (cases "destroy (hook s)"; simp add: poll_inv_def; blast)

lemma no_wrap: "(c :: u16) \<noteq> - 1 \<Longrightarrow> c + 1 \<noteq> 0"
  by (metis add_eq_0_iff2)

lemma poll_inv_block: "poll_inv s \<Longrightarrow> block_count (hook s) \<noteq> - 1 \<Longrightarrow> poll_inv (gsk_hook_block s)"
  using no_wrap [of "block_count (hook s)"] by (simp add: poll_inv_def gsk_hook_block_def Let_def)

lemma poll_inv_unblock: "poll_inv s \<Longrightarrow> poll_inv (gsk_hook_unblock s)"
  by (auto simp: poll_inv_def gsk_hook_unblock_def Let_def)

lemma poll_inv_idle: "poll_inv s \<Longrightarrow> test_flag IDLE_NOTIFY s \<Longrightarrow> poll_inv (clear_idle_notify_flag s)"
  by (auto simp: poll_inv_def)

lemma poll_inv_set_idle: "poll_inv s \<Longrightarrow> poll_inv (gsk_hook_set_idle_notify v s)"
  by (auto simp: poll_inv_def gsk_hook_set_idle_notify_def gsk_hook_mark_idle_notify_def
      gsk_hook_clear_idle_notify_def gsk_hook_add_to_nonblocking_list_def
      verify_nonblocking_data_has_source_def Let_def)

lemma poll_inv_flush: "poll_inv s \<Longrightarrow> poll_inv (flush_pending_destroys s)"
  by (auto simp: poll_inv_def)

lemma poll_inv_notify_shutdown: "poll_inv s \<Longrightarrow> poll_inv (gsk_hook_notify_shutdown s)"
  by (auto simp: gsk_hook_notify_shutdown_def Let_def split: option.splits
      intro!: poll_inv_untrap poll_inv_unavailable poll_inv_idle)

lemma poll_inv_begin_notify: "poll_inv s \<Longrightarrow> poll_inv (begin_notify s)"
  by (auto simp: begin_notify_def Let_def split: option.splits)

lemma poll_inv_notify: "poll_inv s \<Longrightarrow> poll_inv (gsk_hook_notify s)"
  by (auto simp: gsk_hook_notify_def intro!: poll_inv_begin_notify)

lemma poll_inv_after_func: "poll_inv s \<Longrightarrow> poll_inv (after_func rv s)"
  by (auto simp: after_func_def Let_def intro!: poll_inv_notify_shutdown poll_inv_begin_notify poll_inv_untrap)

lemma poll_inv_after_shutdown_func: "poll_inv s \<Longrightarrow> poll_inv (after_shutdown_func rv s)"
  by (auto simp: after_shutdown_func_def Let_def intro!: poll_inv_untrap)

lemma poll_inv_resume_frames: "poll_inv s \<Longrightarrow> poll_inv (resume_frames fs s)"
  by (induction fs s rule: resume_frames.induct)
    (auto simp: shutdown_finish_def poll_inv_flush poll_inv_unavailable)

lemma poll_inv_resume: "poll_inv s \<Longrightarrow> poll_inv (resume s)"
  by (simp add: resume_def poll_inv_resume_frames)

lemma poll_inv_after_class: "poll_inv s \<Longrightarrow> poll_inv (after_class_shutdown cd rv err s)"
  by (auto simp: after_class_shutdown_def Let_def poll_inv_unavailable
      intro!: poll_inv_resume poll_inv_notify_shutdown)

lemma poll_inv_shutdown: "poll_inv s \<Longrightarrow> poll_inv (gsk_hook_shutdown s)"
  by (auto simp: gsk_hook_shutdown_def Let_def intro!: poll_inv_after_class)

lemma poll_inv_run_all: "poll_inv s \<Longrightarrow> poll_inv (run_all_nonblocking_hooks s)"
  by (auto simp: run_all_nonblocking_hooks_def Let_def poll_inv_flush intro!: poll_inv_resume poll_inv_notify)
    (auto simp: poll_inv_def)

section \<open>User code on the stack\<close>

fun is_callback :: "frame \<Rightarrow> bool" where
  "is_callback Func_Running = True"
| "is_callback Shutdown_Func_Running = True"
| "is_callback f = False"

fun is_finish :: "frame \<Rightarrow> bool" where
  "is_finish (Shutdown_Finish b) = True"
| "is_finish f = False"

fun is_class_shutdown :: "frame \<Rightarrow> bool" where
  "is_class_shutdown (Class_Shutdown_Running b) = True"
| "is_class_shutdown f = False"

text \<open>The class's shutdown method is not called while the shutdown function runs.\<close>

fun stack_ok :: "frame list \<Rightarrow> bool" where
  "stack_ok [] = True"
| "stack_ok (f # rest) = ((is_class_shutdown f \<longrightarrow> Shutdown_Func_Running \<notin> set rest) \<and> stack_ok rest)"

text \<open>The flags say which of the two functions is running; they never run inside each other
  or themselves; a hook whose shutdown function has been called is neither available nor
  shutting down, and stays so; no assertion has failed.\<close>

definition run_inv :: "hook_state \<Rightarrow> bool" where
  "run_inv s \<longleftrightarrow>
     test_flag IS_NOTIFYING s = (Func_Running \<in> set (stack s)) \<and>
     test_flag IS_NOTIFYING_SHUTDOWN s = (Shutdown_Func_Running \<in> set (stack s)) \<and>
     length (filter is_callback (stack s)) \<le> 1 \<and>
     (test_flag IS_NOTIFYING_SHUTDOWN s \<or> list_ex is_finish (stack s) \<longrightarrow>
        \<not> test_flag IS_AVAILABLE s \<and> \<not> test_flag SHUTTING_DOWN s) \<and>
     stack_ok (stack s) \<and> \<not> assert_failed s"

lemma run_inv_other [simp]:
  "run_inv (s\<lparr>log := l\<rparr>) = run_inv s" "run_inv (s\<lparr>nb := a\<rparr>) = run_inv s"
  "run_inv (s\<lparr>polled := b\<rparr>) = run_inv s"
  "flags h = flags (hook s) \<Longrightarrow> run_inv (s\<lparr>hook := h\<rparr>) = run_inv s"
  by (simp_all add: run_inv_def)

lemma run_inv_flags [simp]:
  "n \<notin> {0, 6, 9, 10} \<Longrightarrow> n < 16 \<Longrightarrow> run_inv (mark_flag n s) = run_inv s"
  "n \<notin> {0, 6, 9, 10} \<Longrightarrow> run_inv (clear_flag n s) = run_inv s"
  by (simp_all add: run_inv_def)

lemma run_inv_unavailable: "run_inv s \<Longrightarrow> n \<in> {0, 6} \<Longrightarrow> run_inv (clear_flag n s)"
  by (auto simp: run_inv_def)

lemma run_inv_effects [simp]:
  "run_inv (gsk_hook_set_poll s) = run_inv s" "run_inv (gsk_hook_clear_poll s) = run_inv s"
  "run_inv (gsk_hook_untrap s) = run_inv s" "run_inv (clear_idle_notify_flag s) = run_inv s"
  "run_inv (flush_pending_destroys s) = run_inv s" "run_inv (call_destroy d x s) = run_inv s"
  by (simp_all add: run_inv_def)

lemma no_callback: "run_inv s \<Longrightarrow> \<not> test_flag 9 s \<Longrightarrow> \<not> test_flag 10 s \<Longrightarrow> filter is_callback (stack s) = []"
  by (auto simp: run_inv_def filter_empty_conv elim: is_callback.elims(2))

lemma callback_running:
  assumes "run_inv s" "stack s = f # rest" "is_callback f"
  shows "filter is_callback rest = []" "Func_Running \<notin> set rest" "Shutdown_Func_Running \<notin> set rest"
  using assms by (auto simp: run_inv_def filter_empty_conv)


lemma run_inv_trap: "run_inv s \<Longrightarrow> run_inv (gsk_hook_trap f sd x d s)"
  by (auto simp: gsk_hook_trap_def Let_def)

lemma run_inv_block: "run_inv s \<Longrightarrow> run_inv (gsk_hook_block s)"
  by (auto simp: gsk_hook_block_def Let_def)

lemma run_inv_unblock: "run_inv s \<Longrightarrow> run_inv (gsk_hook_unblock s)"
  by (auto simp: gsk_hook_unblock_def Let_def)

lemma run_inv_set_idle: "run_inv s \<Longrightarrow> run_inv (gsk_hook_set_idle_notify v s)"
  by (auto simp: gsk_hook_set_idle_notify_def gsk_hook_mark_idle_notify_def
      gsk_hook_clear_idle_notify_def gsk_hook_add_to_nonblocking_list_def
      verify_nonblocking_data_has_source_def Let_def)

lemma run_inv_push_shutdown:
  assumes "run_inv s" "\<not> test_flag 9 s" "\<not> test_flag 10 s" "\<not> test_flag 0 s" "\<not> test_flag 6 s"
    and "st = stack s"
  shows "run_inv ((mark_flag 10 s)\<lparr>log := l, stack := Shutdown_Func_Running # st\<rparr>)"
  using assms no_callback [OF assms(1-3)] by (auto simp: run_inv_def)

lemma run_inv_notify_shutdown: "run_inv s \<Longrightarrow> run_inv (gsk_hook_notify_shutdown s)"
  by (auto simp: gsk_hook_notify_shutdown_def Let_def run_inv_unavailable
      intro!: run_inv_push_shutdown split: option.splits)

lemma run_inv_begin_notify:
  assumes "run_inv s" "\<not> test_flag 9 s" "\<not> test_flag 10 s"
  shows "run_inv (begin_notify s)"
  using assms no_callback [OF assms] by (auto simp: run_inv_def begin_notify_def Let_def split: option.splits)

lemma run_inv_notify: "run_inv s \<Longrightarrow> run_inv (gsk_hook_notify s)"
  by (auto simp: gsk_hook_notify_def intro!: run_inv_begin_notify)

lemma run_inv_func_done:
  assumes "run_inv s" "stack s = Func_Running # rest"
  shows "run_inv (clear_flag 9 (s\<lparr>stack := rest\<rparr>))"
  using assms callback_running [OF assms] by (auto simp: run_inv_def)

lemma run_inv_shutdown_func_done:
  assumes "run_inv s" "stack s = Shutdown_Func_Running # rest"
  shows "run_inv (clear_flag 10 (s\<lparr>stack := rest\<rparr>))"
  using assms callback_running [OF assms] by (auto simp: run_inv_def)

lemma run_inv_after_func:
  assumes "run_inv s" "stack s = Func_Running # rest"
  shows "run_inv (after_func rv (s\<lparr>stack := rest\<rparr>))"
  using run_inv_func_done [OF assms] callback_running [OF assms] assms
  by (auto simp: after_func_def Let_def run_inv_def [of s] intro!: run_inv_notify_shutdown run_inv_begin_notify)

lemma run_inv_after_shutdown_func:
  assumes "run_inv s" "stack s = Shutdown_Func_Running # rest"
  shows "run_inv (after_shutdown_func rv (s\<lparr>stack := rest\<rparr>))"
  using run_inv_shutdown_func_done [OF assms] by (auto simp: after_shutdown_func_def Let_def)

lemma run_inv_finish:
  assumes "run_inv (s\<lparr>stack := rest\<rparr>)" "\<not> test_flag 6 s \<or> test_flag 9 s \<and> test_flag 12 s"
  shows "run_inv ((shutdown_finish ok s)\<lparr>stack := rest\<rparr>)"
  using assms by (auto simp: shutdown_finish_def run_inv_def)

lemma run_inv_resume_frames: "run_inv (s\<lparr>stack := fs\<rparr>) \<Longrightarrow> run_inv (resume_frames fs s)"
proof (induction fs s rule: resume_frames.induct)
  case (1 ok rest s)
  then have "run_inv (s\<lparr>stack := rest\<rparr>)" "\<not> test_flag 6 s" by (auto simp: run_inv_def)
  then show ?case using 1 run_inv_finish by simp
next
  case (2 rest s)
  then show ?case by (simp add: run_inv_def)
qed simp_all

lemma run_inv_resume: "run_inv s \<Longrightarrow> run_inv (resume s)"
  using run_inv_resume_frames [where s = s and fs = "stack s"] by (simp add: resume_def)

text \<open>The notification inside \<open>gsk_hook_shutdown\<close>: its assertion holds.\<close>

lemma notify_shutdown_below_finish:
  fixes ok s
  defines "s' \<equiv> gsk_hook_notify_shutdown (s\<lparr>stack := Shutdown_Finish ok # stack s\<rparr>)"
  assumes "run_inv s"
  shows "stack s' = Shutdown_Finish ok # stack s \<and> run_inv (s'\<lparr>stack := stack s\<rparr>) \<and>
      (\<not> test_flag 6 s' \<or> test_flag 9 s' \<and> test_flag 12 s') \<or>
    stack s' = Shutdown_Func_Running # Shutdown_Finish ok # stack s \<and> run_inv s'"
proof (cases "test_flag 10 s \<or> (\<not> test_flag 0 s \<and> \<not> test_flag 6 s) \<or> test_flag 9 s")
  case True
  then show ?thesis
    using assms(2) unfolding s'_def by (auto simp: gsk_hook_notify_shutdown_def run_inv_def)
next
  case False
  then have "filter is_callback (stack s) = []" using no_callback [OF assms(2)] by simp
  then show ?thesis
    using assms(2) False unfolding s'_def
    by (cases "shutdown_func (hook s)"; cases "func (hook s)"; cases "test_flag 3 s")
      (simp_all add: gsk_hook_notify_shutdown_def Let_def run_inv_def)
qed

lemma run_inv_after_class:
  assumes "run_inv s" "cd \<and> \<not> rv \<longrightarrow> test_flag SHUTTING_DOWN s"
  shows "run_inv (after_class_shutdown cd rv err s)"
proof (cases "cd \<and> \<not> rv")
  case True
  then show ?thesis
    using assms by (simp add: after_class_shutdown_def run_inv_unavailable)
next
  case False
  define ok where "ok = (if cd then \<not> err else rv \<and> \<not> err)"
  define s' where "s' = gsk_hook_notify_shutdown (s\<lparr>stack := Shutdown_Finish ok # stack s\<rparr>)"
  have "after_class_shutdown cd rv err s = resume s'"
    using False by (auto simp: after_class_shutdown_def Let_def s'_def ok_def)
  moreover note res = notify_shutdown_below_finish [OF assms(1), of ok, folded s'_def]
  have "run_inv (resume s')"
  proof (cases "stack s' = Shutdown_Finish ok # stack s")
    case True
    then have s': "run_inv (s'\<lparr>stack := stack s\<rparr>)" "\<not> test_flag 6 s' \<or> test_flag 9 s' \<and> test_flag 12 s'"
      using res by auto
    show ?thesis
      using run_inv_resume_frames [OF run_inv_finish [OF s']] True by (simp add: resume_def)
  next
    case False
    then show ?thesis using res by (auto intro: run_inv_resume)
  qed
  ultimately show ?thesis by simp
qed

lemma run_inv_shutdown: "run_inv s \<Longrightarrow> run_inv (gsk_hook_shutdown s)"
proof -
  assume inv: "run_inv s"
  show ?thesis
  proof (cases "test_flag 0 s \<and> \<not> test_flag 6 s")
    case True
    then have "run_inv (mark_flag 6 s)" using inv by (auto simp: run_inv_def)
    moreover from this have "class_has_shutdown s \<Longrightarrow>
        run_inv ((mark_flag 6 s)\<lparr>stack := Class_Shutdown_Running (test_flag 5 s) # stack s\<rparr>)"
      using inv True by (auto simp: run_inv_def)
    ultimately show ?thesis
      using True by (auto simp: gsk_hook_shutdown_def Let_def intro!: run_inv_after_class)
  qed (use inv in \<open>auto simp: gsk_hook_shutdown_def\<close>)
qed

lemma run_inv_idle_pushed: "run_inv s \<Longrightarrow> run_inv (s\<lparr>stack := Idle_Finish # stack s\<rparr>)"
  by (simp add: run_inv_def)

lemma run_inv_run_all: "run_inv s \<Longrightarrow> run_inv (run_all_nonblocking_hooks s)"
  using run_inv_idle_pushed [of "flush_pending_destroys s"]
  by (auto simp: run_all_nonblocking_hooks_def Let_def intro!: run_inv_resume run_inv_notify)

lemma run_inv_class_done:
  assumes "run_inv s" "stack s = Class_Shutdown_Running cd # rest"
  shows "run_inv (s\<lparr>stack := rest\<rparr>)"
  using assms by (auto simp: run_inv_def)

section \<open>A blocked shutdown notification\<close>

text \<open>Whether the class's shutdown method runs inside the trapped function.\<close>

fun class_above_func :: "frame list \<Rightarrow> bool" where
  "class_above_func [] = False"
| "class_above_func (f # rest) = (is_class_shutdown f \<and> Func_Running \<in> set rest \<or> class_above_func rest)"

text \<open>While the function runs, a shutdown notification that waits for it concerns a hook that is
  available or shutting down.\<close>

definition blocked_inv :: "hook_state \<Rightarrow> bool" where
  "blocked_inv s \<longleftrightarrow>
     (test_flag IS_NOTIFYING s \<and> test_flag BLOCKED_SHUTDOWN_NOTIFY s \<longrightarrow> test_flag IS_AVAILABLE s \<or> test_flag SHUTTING_DOWN s) \<and>
     (class_above_func (stack s) \<longrightarrow> test_flag SHUTTING_DOWN s)"

lemma class_above_func_in: "class_above_func fs \<Longrightarrow> Func_Running \<in> set fs"
  by (induction fs) auto

lemma blocked_inv_idle: "\<not> test_flag 9 s \<Longrightarrow> Func_Running \<notin> set (stack s) \<Longrightarrow> blocked_inv s"
  using class_above_func_in by (auto simp: blocked_inv_def)

lemma not_notifying: "run_inv s \<Longrightarrow> \<not> test_flag 9 s \<Longrightarrow> Func_Running \<notin> set (stack s)"
  by (simp add: run_inv_def)

lemma blocked_inv_effects [simp]:
  "blocked_inv (s\<lparr>log := l\<rparr>) = blocked_inv s" "blocked_inv (s\<lparr>nb := a\<rparr>) = blocked_inv s"
  "flags h = flags (hook s) \<Longrightarrow> blocked_inv (s\<lparr>hook := h\<rparr>) = blocked_inv s"
  "n \<notin> {0, 6, 9, 12} \<Longrightarrow> n < 16 \<Longrightarrow> blocked_inv (mark_flag n s) = blocked_inv s"
  "n \<notin> {0, 6, 9, 12} \<Longrightarrow> blocked_inv (clear_flag n s) = blocked_inv s"
  "blocked_inv (gsk_hook_set_poll s) = blocked_inv s" "blocked_inv (gsk_hook_clear_poll s) = blocked_inv s"
  "blocked_inv (gsk_hook_untrap s) = blocked_inv s" "blocked_inv (clear_idle_notify_flag s) = blocked_inv s"
  "blocked_inv (flush_pending_destroys s) = blocked_inv s"
  by (simp_all add: blocked_inv_def)

lemma blocked_inv_trap: "blocked_inv s \<Longrightarrow> blocked_inv (gsk_hook_trap f sd x d s)"
  by (auto simp: gsk_hook_trap_def Let_def)

lemma blocked_inv_block: "blocked_inv s \<Longrightarrow> blocked_inv (gsk_hook_block s)"
  by (auto simp: gsk_hook_block_def Let_def)

lemma blocked_inv_unblock: "blocked_inv s \<Longrightarrow> blocked_inv (gsk_hook_unblock s)"
  by (auto simp: gsk_hook_unblock_def Let_def)

lemma blocked_inv_set_idle: "blocked_inv s \<Longrightarrow> blocked_inv (gsk_hook_set_idle_notify v s)"
  by (auto simp: gsk_hook_set_idle_notify_def gsk_hook_mark_idle_notify_def
      gsk_hook_clear_idle_notify_def gsk_hook_add_to_nonblocking_list_def
      verify_nonblocking_data_has_source_def Let_def)

lemma notify_shutdown_notifying [simp]: "test_flag 9 (gsk_hook_notify_shutdown s) = test_flag 9 s"
  by (auto simp: gsk_hook_notify_shutdown_def Let_def split: option.splits)

lemma notify_shutdown_stack:
  "stack (gsk_hook_notify_shutdown s) = stack s \<or> stack (gsk_hook_notify_shutdown s) = Shutdown_Func_Running # stack s"
  by (auto simp: gsk_hook_notify_shutdown_def Let_def split: option.splits)

lemma notify_shutdown_no_func:
  "Func_Running \<notin> set (stack s) \<Longrightarrow> Func_Running \<notin> set (stack (gsk_hook_notify_shutdown s))"
  using notify_shutdown_stack [of s] by auto

lemma blocked_inv_notify_shutdown:
  assumes "run_inv s" "blocked_inv s"
  shows "blocked_inv (gsk_hook_notify_shutdown s)"
proof (cases "test_flag 9 s")
  case True
  then show ?thesis using assms(2) by (auto simp: gsk_hook_notify_shutdown_def blocked_inv_def)
next
  case False
  then show ?thesis
    using not_notifying [OF assms(1)] by (intro blocked_inv_idle) (simp_all add: notify_shutdown_no_func)
qed

lemma blocked_inv_begin_notify:
  assumes "Func_Running \<notin> set (stack s)" "\<not> test_flag 9 s" "test_flag 0 s \<or> \<not> test_flag 12 s"
  shows "blocked_inv (begin_notify s)"
proof (cases "func (hook s)")
  case None
  then show ?thesis using assms by (simp add: begin_notify_def blocked_inv_idle)
next
  case (Some f)
  have "\<not> class_above_func (stack s)" using assms(1) class_above_func_in by blast
  then show ?thesis using Some assms(3) by (auto simp: begin_notify_def Let_def blocked_inv_def)
qed

lemma blocked_inv_notify:
  assumes "run_inv s" "blocked_inv s"
  shows "blocked_inv (gsk_hook_notify s)"
  using assms not_notifying [OF assms(1)] by (auto simp: gsk_hook_notify_def intro!: blocked_inv_begin_notify)

lemma blocked_inv_after_func:
  assumes "run_inv s" "stack s = Func_Running # rest"
  shows "blocked_inv (after_func rv (s\<lparr>stack := rest\<rparr>))"
proof -
  define t where "t = (let s = clear_flag 9 (s\<lparr>stack := rest\<rparr>)
    in clear_flag 13 (if \<not> rv \<and> \<not> test_flag 13 s then gsk_hook_untrap s else s))"
  have t: "\<not> test_flag 9 t" "stack t = rest" "run_inv t"
    using run_inv_func_done [OF assms] by (auto simp: t_def Let_def)
  then have free: "Func_Running \<notin> set (stack t)" using not_notifying by blast
  have "after_func rv (s\<lparr>stack := rest\<rparr>) =
      (if test_flag 12 t then gsk_hook_notify_shutdown t
       else if test_flag 11 t then begin_notify (clear_flag 11 t) else t)"
    by (simp add: after_func_def t_def Let_def)
  then show ?thesis
    using t free blocked_inv_idle [OF t(1) free]
    by (auto intro!: blocked_inv_notify_shutdown blocked_inv_begin_notify)
qed

lemma resume_frames_flags: "n \<noteq> 0 \<Longrightarrow> test_flag n (resume_frames fs s) = test_flag n s"
  by (induction fs s rule: resume_frames.induct) (auto simp: shutdown_finish_def)

lemma resume_frames_class: "class_above_func (stack (resume_frames fs s)) \<Longrightarrow> class_above_func fs"
  by (induction fs s rule: resume_frames.induct) auto

lemma blocked_inv_resume_frames:
  assumes "blocked_inv (s\<lparr>stack := fs\<rparr>)" "list_ex is_finish fs \<and> test_flag 9 s \<and> test_flag 12 s \<longrightarrow> test_flag 6 s"
  shows "blocked_inv (resume_frames fs s)"
  using assms
proof (induction fs s rule: resume_frames.induct)
  case (1 ok rest s)
  have six: "test_flag 9 s \<and> test_flag 12 s \<longrightarrow> test_flag 6 s" using 1(3) by simp
  have above: "class_above_func rest \<longrightarrow> test_flag 6 s" using 1(2) by (simp add: blocked_inv_def)
  have same: "test_flag n (shutdown_finish ok s) = test_flag n s" if "n \<noteq> 0" for n
    using that by (simp add: shutdown_finish_def)
  have "blocked_inv ((shutdown_finish ok s)\<lparr>stack := rest\<rparr>)"
    using six above same [of 6] same [of 9] same [of 12] unfolding blocked_inv_def test_other by simp
  then show ?case using 1(1) six same [of 6] same [of 9] same [of 12] by simp
next
  case (2 rest s)
  then show ?case by (auto simp: blocked_inv_def)
qed simp_all

lemma blocked_inv_resume:
  assumes "run_inv s" "blocked_inv s"
  shows "blocked_inv (resume s)"
  unfolding resume_def
  using assms by (intro blocked_inv_resume_frames) (auto simp: run_inv_def blocked_inv_def)

lemma blocked_inv_after_class:
  assumes "run_inv s" "blocked_inv s" "test_flag 9 s \<Longrightarrow> test_flag 6 s" "cd \<and> \<not> rv \<longrightarrow> test_flag 6 s"
  shows "blocked_inv (after_class_shutdown cd rv err s)"
proof (cases "cd \<and> \<not> rv")
  case True
  then show ?thesis using assms by (auto simp: after_class_shutdown_def blocked_inv_def)
next
  case False
  define ok where "ok = (if cd then \<not> err else rv \<and> \<not> err)"
  define s' where "s' = gsk_hook_notify_shutdown (s\<lparr>stack := Shutdown_Finish ok # stack s\<rparr>)"
  have "after_class_shutdown cd rv err s = resume s'"
    using False by (auto simp: after_class_shutdown_def Let_def s'_def ok_def)
  moreover have "blocked_inv (resume s')"
  proof (cases "test_flag 9 s")
    case True
    then have "test_flag 6 s'" "stack s' = Shutdown_Finish ok # stack s"
      using assms(3) by (auto simp: s'_def gsk_hook_notify_shutdown_def)
    then show ?thesis unfolding resume_def by (intro blocked_inv_resume_frames) (simp_all add: blocked_inv_def)
  next
    case False
    then have "Func_Running \<notin> set (stack s')" "\<not> test_flag 9 s'"
      using not_notifying [OF assms(1)] notify_shutdown_no_func [of "s\<lparr>stack := Shutdown_Finish ok # stack s\<rparr>"]
      by (simp_all add: s'_def)
    then show ?thesis
      unfolding resume_def by (intro blocked_inv_resume_frames) (simp_all add: blocked_inv_idle)
  qed
  ultimately show ?thesis by simp
qed

lemma blocked_inv_shutdown:
  assumes "run_inv s" "blocked_inv s"
  shows "blocked_inv (gsk_hook_shutdown s)"
proof (cases "test_flag 0 s \<and> \<not> test_flag 6 s")
  case True
  then have "run_inv (mark_flag 6 s)" using assms(1) by (auto simp: run_inv_def)
  moreover have "blocked_inv (mark_flag 6 s)" using assms(2) by (auto simp: blocked_inv_def)
  moreover have "blocked_inv ((mark_flag 6 s)\<lparr>stack := Class_Shutdown_Running (test_flag 5 s) # stack s\<rparr>)"
    by (simp add: blocked_inv_def)
  ultimately show ?thesis
    using True by (auto simp: gsk_hook_shutdown_def Let_def intro!: blocked_inv_after_class)
qed (use assms in \<open>auto simp: gsk_hook_shutdown_def\<close>)

lemma blocked_inv_class_done:
  assumes "run_inv s" "blocked_inv s" "stack s = Class_Shutdown_Running cd # rest"
    and "cd \<and> \<not> rv \<longrightarrow> test_flag 6 s"
  shows "blocked_inv (after_class_shutdown cd rv err (s\<lparr>stack := rest\<rparr>))"
proof (rule blocked_inv_after_class)
  show "run_inv (s\<lparr>stack := rest\<rparr>)" using run_inv_class_done [OF assms(1,3)] .
  show "test_flag 9 (s\<lparr>stack := rest\<rparr>) \<Longrightarrow> test_flag 6 (s\<lparr>stack := rest\<rparr>)"
    using assms(1-3) by (auto simp: run_inv_def blocked_inv_def)
  show "blocked_inv (s\<lparr>stack := rest\<rparr>)" using assms(2,3) by (auto simp: blocked_inv_def)
qed (use assms(4) in simp)

lemma blocked_inv_after_shutdown_func:
  "blocked_inv s \<Longrightarrow> stack s = Shutdown_Func_Running # rest \<Longrightarrow> blocked_inv (after_shutdown_func rv (s\<lparr>stack := rest\<rparr>))"
  by (auto simp: after_shutdown_func_def Let_def) (auto simp: blocked_inv_def)

lemma blocked_inv_run_all:
  assumes "run_inv s" "blocked_inv s"
  shows "blocked_inv (run_all_nonblocking_hooks s)"
proof -
  let ?t = "(flush_pending_destroys s)\<lparr>stack := Idle_Finish # stack (flush_pending_destroys s)\<rparr>"
  have "run_inv ?t" using assms(1) by (intro run_inv_idle_pushed) simp
  moreover have "blocked_inv ?t" using assms(2) by (auto simp: blocked_inv_def)
  ultimately show ?thesis
    using assms(2) by (auto simp: run_all_nonblocking_hooks_def Let_def
        intro!: blocked_inv_resume blocked_inv_notify run_inv_notify)
qed

section \<open>Shutdown is notified once\<close>

fun is_shutdown_call :: "event \<Rightarrow> bool" where
  "is_shutdown_call (Called_Shutdown f x) = True"
| "is_shutdown_call e = False"

definition shutdown_calls :: "hook_state \<Rightarrow> nat" where
  "shutdown_calls s = length (filter is_shutdown_call (log s))"

definition life_inv :: "hook_state \<Rightarrow> bool" where
  "life_inv s \<longleftrightarrow> shutdown_calls s \<le> 1 \<and>
     (test_flag IS_AVAILABLE s \<or> test_flag SHUTTING_DOWN s \<longrightarrow> shutdown_calls s = 0)"

lemma life_inv_mono:
  assumes "life_inv s" "shutdown_calls s' = shutdown_calls s"
    and "test_flag 0 s' \<or> test_flag 6 s' \<Longrightarrow> test_flag 0 s \<or> test_flag 6 s"
  shows "life_inv s'"
  using assms by (auto simp: life_inv_def)

lemma life_inv_effects [simp]:
  "life_inv (s\<lparr>stack := st\<rparr>) = life_inv s" "life_inv (s\<lparr>nb := a\<rparr>) = life_inv s"
  "life_inv (s\<lparr>assert_failed := b\<rparr>) = life_inv s"
  "flags h = flags (hook s) \<Longrightarrow> life_inv (s\<lparr>hook := h\<rparr>) = life_inv s"
  "n \<notin> {0, 6} \<Longrightarrow> n < 16 \<Longrightarrow> life_inv (mark_flag n s) = life_inv s"
  "n \<notin> {0, 6} \<Longrightarrow> life_inv (clear_flag n s) = life_inv s"
  "life_inv (gsk_hook_set_poll s) = life_inv s" "life_inv (gsk_hook_clear_poll s) = life_inv s"
  "life_inv (clear_idle_notify_flag s) = life_inv s"
  by (simp_all add: life_inv_def shutdown_calls_def)

lemma life_inv_log [simp]: "filter is_shutdown_call es = [] \<Longrightarrow> life_inv (s\<lparr>log := log s @ es\<rparr>) = life_inv s"
  by (simp add: life_inv_def shutdown_calls_def)

lemma life_inv_unavailable: "life_inv s \<Longrightarrow> n \<in> {0, 6} \<Longrightarrow> life_inv (clear_flag n s)"
  by (auto simp: life_inv_def shutdown_calls_def)

lemma life_inv_untrap [simp]: "life_inv (gsk_hook_untrap s) = life_inv s"
  by (cases "destroy (hook s)") (simp_all add: life_inv_def shutdown_calls_def)

lemma life_inv_flush [simp]: "life_inv (flush_pending_destroys s) = life_inv s"
proof -
  have "filter is_shutdown_call (map (\<lambda>(d, x). Destroyed d x) ps) = []" for ps
    by (induction ps) auto
  then show ?thesis by (simp add: life_inv_def shutdown_calls_def)
qed

lemma life_inv_notify_shutdown: "life_inv s \<Longrightarrow> life_inv (gsk_hook_notify_shutdown s)"
  by (auto simp: gsk_hook_notify_shutdown_def Let_def life_inv_unavailable split: option.splits)
    (auto simp: life_inv_def shutdown_calls_def)

lemma life_inv_begin_notify: "life_inv s \<Longrightarrow> life_inv (begin_notify s)"
  by (auto simp: begin_notify_def Let_def life_inv_def shutdown_calls_def split: option.splits)

lemma life_inv_notify: "life_inv s \<Longrightarrow> life_inv (gsk_hook_notify s)"
  by (auto simp: gsk_hook_notify_def intro!: life_inv_begin_notify)

lemma life_inv_trap: "life_inv s \<Longrightarrow> life_inv (gsk_hook_trap f sd x d s)"
  by (cases d) (auto simp: gsk_hook_trap_def Let_def life_inv_def shutdown_calls_def)

lemma life_inv_block: "life_inv s \<Longrightarrow> life_inv (gsk_hook_block s)"
  by (auto simp: gsk_hook_block_def Let_def)

lemma life_inv_unblock: "life_inv s \<Longrightarrow> life_inv (gsk_hook_unblock s)"
  by (auto simp: gsk_hook_unblock_def Let_def)

lemma life_inv_set_idle: "life_inv s \<Longrightarrow> life_inv (gsk_hook_set_idle_notify v s)"
  by (auto simp: gsk_hook_set_idle_notify_def gsk_hook_mark_idle_notify_def
      gsk_hook_clear_idle_notify_def gsk_hook_add_to_nonblocking_list_def
      verify_nonblocking_data_has_source_def Let_def)

lemma life_inv_after_func: "life_inv s \<Longrightarrow> life_inv (after_func rv s)"
  by (auto simp: after_func_def Let_def intro!: life_inv_notify_shutdown life_inv_begin_notify)

lemma life_inv_after_shutdown_func: "life_inv s \<Longrightarrow> life_inv (after_shutdown_func rv s)"
  by (auto simp: after_shutdown_func_def Let_def)

lemma life_inv_finish: "life_inv s \<Longrightarrow> life_inv (shutdown_finish ok s)"
  by (auto simp: shutdown_finish_def life_inv_def shutdown_calls_def)

lemma life_inv_resume_frames: "life_inv s \<Longrightarrow> life_inv (resume_frames fs s)"
  by (induction fs s rule: resume_frames.induct) (auto simp: life_inv_finish)

lemma life_inv_resume: "life_inv s \<Longrightarrow> life_inv (resume s)"
  by (simp add: resume_def life_inv_resume_frames)

lemma life_inv_after_class: "life_inv s \<Longrightarrow> life_inv (after_class_shutdown cd rv err s)"
  by (auto simp: after_class_shutdown_def Let_def intro!: life_inv_resume life_inv_notify_shutdown)
    (auto simp: life_inv_def shutdown_calls_def)

lemma life_inv_shutdown: "life_inv s \<Longrightarrow> life_inv (gsk_hook_shutdown s)"
proof -
  assume inv: "life_inv s"
  then have "test_flag 0 s \<Longrightarrow> life_inv (mark_flag 6 s)" by (auto simp: life_inv_def shutdown_calls_def)
  then show ?thesis using inv by (auto simp: gsk_hook_shutdown_def Let_def intro!: life_inv_after_class)
qed

lemma life_inv_run_all: "life_inv s \<Longrightarrow> life_inv (run_all_nonblocking_hooks s)"
  by (auto simp: run_all_nonblocking_hooks_def Let_def intro!: life_inv_resume life_inv_notify)

section \<open>Destroy notifications\<close>

fun trapped_of :: "event \<Rightarrow> (nat \<times> nat) list" where
  "trapped_of (Trapped d x) = [(d, x)]"
| "trapped_of e = []"

fun destroyed_of :: "event \<Rightarrow> (nat \<times> nat) list" where
  "destroyed_of (Destroyed d x) = [(d, x)]"
| "destroyed_of e = []"

definition trapped_data :: "hook_state \<Rightarrow> (nat \<times> nat) multiset" where
  "trapped_data s = mset (concat (map trapped_of (log s)))"

definition destroyed_data :: "hook_state \<Rightarrow> (nat \<times> nat) multiset" where
  "destroyed_data s = mset (concat (map destroyed_of (log s)))"

definition held_data :: "hook_state \<Rightarrow> (nat \<times> nat) multiset" where
  "held_data s = mset (map (\<lambda>d. (d, data (hook s))) (case destroy (hook s) of None \<Rightarrow> [] | Some d \<Rightarrow> [d]))"

text \<open>Every destroy notification handed to \<open>gsk_hook_trap\<close> has been called, waits to be
  called by the idle function, or still belongs to the trapped hook.\<close>

definition destroy_inv :: "hook_state \<Rightarrow> bool" where
  "destroy_inv s \<longleftrightarrow>
     (func (hook s) = None \<longrightarrow> destroy (hook s) = None) \<and>
     trapped_data s = destroyed_data s + mset (pending_destroys (nb s)) + held_data s"

lemmas destroy_defs = destroy_inv_def trapped_data_def destroyed_data_def held_data_def

lemma destroyed_of_pending: "concat (map (destroyed_of \<circ> (\<lambda>(d, x). Destroyed d x)) ps) = ps"
  "concat (map (trapped_of \<circ> (\<lambda>(d, x). Destroyed d x)) ps) = []"
  by (induction ps) auto

lemma destroy_inv_effects [simp]:
  "destroy_inv (s\<lparr>stack := st\<rparr>) = destroy_inv s" "destroy_inv (s\<lparr>assert_failed := b\<rparr>) = destroy_inv s"
  "destroy_inv (mark_flag n s) = destroy_inv s" "destroy_inv (clear_flag n s) = destroy_inv s"
  "destroy_inv (gsk_hook_set_poll s) = destroy_inv s" "destroy_inv (gsk_hook_clear_poll s) = destroy_inv s"
  "destroy_inv (clear_idle_notify_flag s) = destroy_inv s"
  "destroy_inv (s\<lparr>hook := (hook s)\<lparr>block_count := c\<rparr>\<rparr>) = destroy_inv s"
  by (simp_all add: destroy_defs)

lemma destroy_inv_flush: "destroy_inv s \<Longrightarrow> destroy_inv (flush_pending_destroys s)"
  by (auto simp: destroy_defs destroyed_of_pending split: option.splits)

lemma destroy_inv_untrap: "destroy_inv s \<Longrightarrow> destroy_inv (gsk_hook_untrap s)"
  by (cases "destroy (hook s)") (simp_all add: destroy_defs)

lemma destroy_inv_trap: "destroy_inv s \<Longrightarrow> destroy_inv (gsk_hook_trap (Some f) sd x d s)"
  by (cases d) (auto simp: gsk_hook_trap_def Let_def destroy_defs split: option.splits)

lemma destroy_inv_block: "destroy_inv s \<Longrightarrow> destroy_inv (gsk_hook_block s)"
  by (auto simp: gsk_hook_block_def Let_def)

lemma destroy_inv_unblock: "destroy_inv s \<Longrightarrow> destroy_inv (gsk_hook_unblock s)"
  by (auto simp: gsk_hook_unblock_def Let_def)

lemma destroy_inv_set_idle: "destroy_inv s \<Longrightarrow> destroy_inv (gsk_hook_set_idle_notify v s)"
  by (auto simp: gsk_hook_set_idle_notify_def gsk_hook_mark_idle_notify_def
      gsk_hook_clear_idle_notify_def gsk_hook_add_to_nonblocking_list_def
      verify_nonblocking_data_has_source_def Let_def) (simp_all add: destroy_defs)

lemma destroy_inv_notify_shutdown: "destroy_inv s \<Longrightarrow> destroy_inv (gsk_hook_notify_shutdown s)"
  by (auto simp: gsk_hook_notify_shutdown_def Let_def destroy_inv_untrap split: option.splits)
    (simp_all add: destroy_defs)

lemma destroy_inv_begin_notify: "destroy_inv s \<Longrightarrow> destroy_inv (begin_notify s)"
  by (auto simp: begin_notify_def Let_def destroy_defs split: option.splits)

lemma destroy_inv_notify: "destroy_inv s \<Longrightarrow> destroy_inv (gsk_hook_notify s)"
  by (auto simp: gsk_hook_notify_def intro!: destroy_inv_begin_notify)

lemma destroy_inv_after_func: "destroy_inv s \<Longrightarrow> destroy_inv (after_func rv s)"
  by (auto simp: after_func_def Let_def
      intro!: destroy_inv_notify_shutdown destroy_inv_begin_notify destroy_inv_untrap)

lemma destroy_inv_after_shutdown_func: "destroy_inv s \<Longrightarrow> destroy_inv (after_shutdown_func rv s)"
  by (auto simp: after_shutdown_func_def Let_def intro!: destroy_inv_untrap)

lemma destroy_inv_finish: "destroy_inv s \<Longrightarrow> destroy_inv (shutdown_finish ok s)"
  by (auto simp: shutdown_finish_def destroy_defs split: option.splits)

lemma destroy_inv_resume_frames: "destroy_inv s \<Longrightarrow> destroy_inv (resume_frames fs s)"
  by (induction fs s rule: resume_frames.induct) (auto simp: destroy_inv_finish destroy_inv_flush)

lemma destroy_inv_resume: "destroy_inv s \<Longrightarrow> destroy_inv (resume s)"
  by (simp add: resume_def destroy_inv_resume_frames)

lemma destroy_inv_after_class: "destroy_inv s \<Longrightarrow> destroy_inv (after_class_shutdown cd rv err s)"
  by (auto simp: after_class_shutdown_def Let_def intro!: destroy_inv_resume destroy_inv_notify_shutdown)
    (simp_all add: destroy_defs)

lemma destroy_inv_shutdown: "destroy_inv s \<Longrightarrow> destroy_inv (gsk_hook_shutdown s)"
  by (auto simp: gsk_hook_shutdown_def Let_def intro!: destroy_inv_after_class)

lemma destroy_inv_run_all: "destroy_inv s \<Longrightarrow> destroy_inv (run_all_nonblocking_hooks s)"
  by (auto simp: run_all_nonblocking_hooks_def Let_def destroy_inv_flush
      intro!: destroy_inv_resume destroy_inv_notify)
    (use destroy_inv_flush [of s] in \<open>simp add: destroy_defs\<close>)

section \<open>All reachable states\<close>

definition hook_inv :: "hook_state \<Rightarrow> bool" where
  "hook_inv s \<longleftrightarrow> poll_inv s \<and> run_inv s \<and> blocked_inv s \<and> life_inv s \<and> destroy_inv s"

lemmas poll_inv_ops = poll_inv_trap poll_inv_untrap poll_inv_block poll_inv_unblock poll_inv_shutdown
  poll_inv_notify poll_inv_notify_shutdown poll_inv_set_idle poll_inv_resume poll_inv_after_func
  poll_inv_after_shutdown_func poll_inv_after_class poll_inv_run_all

lemmas run_inv_ops = run_inv_trap run_inv_block run_inv_unblock run_inv_shutdown run_inv_notify
  run_inv_notify_shutdown run_inv_set_idle run_inv_resume run_inv_after_func
  run_inv_after_shutdown_func run_inv_after_class run_inv_run_all run_inv_class_done

lemmas blocked_inv_ops = blocked_inv_trap blocked_inv_block blocked_inv_unblock blocked_inv_shutdown
  blocked_inv_notify blocked_inv_notify_shutdown blocked_inv_set_idle blocked_inv_resume
  blocked_inv_after_func blocked_inv_after_shutdown_func blocked_inv_class_done blocked_inv_run_all

lemmas life_inv_ops = life_inv_trap life_inv_block life_inv_unblock life_inv_shutdown life_inv_notify
  life_inv_notify_shutdown life_inv_set_idle life_inv_resume life_inv_after_func
  life_inv_after_shutdown_func life_inv_after_class life_inv_run_all

lemmas destroy_inv_ops = destroy_inv_trap destroy_inv_untrap destroy_inv_block destroy_inv_unblock
  destroy_inv_shutdown destroy_inv_notify destroy_inv_notify_shutdown destroy_inv_set_idle
  destroy_inv_resume destroy_inv_after_func destroy_inv_after_shutdown_func destroy_inv_after_class
  destroy_inv_run_all

lemma mark_idle_as_set: "gsk_hook_mark_idle_notify s = gsk_hook_set_idle_notify True s"
  by (simp add: gsk_hook_set_idle_notify_def)

lemma hook_step_inv: "hook_step s s' \<Longrightarrow> hook_inv s \<Longrightarrow> hook_inv s'"
  by (induction rule: hook_step.induct)
    (simp_all add: hook_inv_def poll_inv_ops run_inv_ops blocked_inv_ops life_inv_ops destroy_inv_ops
      gsk_hook_mark_never_blocks_def gsk_hook_mark_can_defer_shutdown_def mark_idle_as_set)

lemma initial_hook_inv: "\<not> bit fl 6 \<Longrightarrow> hook_inv (initial_hook_state fl ins po so cm)"
proof -
  assume "\<not> bit fl 6"
  moreover have "bit (fl AND NOT 0xff00) n = (bit fl n \<and> \<not> bit (0xff00 :: u16) n)" if "n < 16" for n
    using that by (simp add: bit_simps)
  moreover have "bit (0xff00 :: u16) 8" "bit (0xff00 :: u16) 9" "bit (0xff00 :: u16) 10" by simp_all
  ultimately show ?thesis
    by (simp add: hook_inv_def poll_inv_def run_inv_def blocked_inv_def life_inv_def shutdown_calls_def destroy_defs
        initial_hook_state_def gsk_hook_init_def zero_hook_def test_flag_def)
qed

lemma hook_reachable_inv: "hook_reachable s \<Longrightarrow> hook_inv s"
  by (induction rule: hook_reachable.induct) (auto intro: initial_hook_inv hook_step_inv)




text \<open>A blocked shutdown notification stays blocked until the function returns.\<close>

lemma blocked_kept [simp]:
  "test_flag 12 (gsk_hook_trap f sd x d s) = test_flag 12 s" "test_flag 12 (gsk_hook_block s) = test_flag 12 s"
  "test_flag 12 (gsk_hook_unblock s) = test_flag 12 s" "test_flag 12 (gsk_hook_notify s) = test_flag 12 s"
  "test_flag 12 (begin_notify s) = test_flag 12 s" "test_flag 12 (after_shutdown_func rv s) = test_flag 12 s"
  "test_flag 12 (gsk_hook_set_idle_notify v s) = test_flag 12 s" "test_flag 12 (resume s) = test_flag 12 s"
  by (auto simp: gsk_hook_trap_def gsk_hook_block_def gsk_hook_unblock_def gsk_hook_notify_def begin_notify_def
      after_shutdown_func_def gsk_hook_set_idle_notify_def gsk_hook_mark_idle_notify_def
      gsk_hook_clear_idle_notify_def gsk_hook_add_to_nonblocking_list_def verify_nonblocking_data_has_source_def
      resume_def resume_frames_flags Let_def split: option.splits)








text \<open>Offset 0, which is documented to mean that there is no shutdown method, is read like any
  other: what is found there is called.\<close>

lemma offset_0_is_called:
  assumes "class_shutdown_offset (hook s) = 0" "class_member s 0 \<noteq> None" "test_flag 0 s" "\<not> test_flag 6 s"
  shows "stack (gsk_hook_shutdown s) = Class_Shutdown_Running (test_flag 5 s) # stack s"
  using assms by (simp add: gsk_hook_shutdown_def class_has_shutdown_def mark_flag_def Let_def)
    (simp add: test_flag_def bit_set_bit_iff)

section \<open>Properties\<close>

text \<open>C27: In every state a hook can reach, whatever the user's functions do and return, the
  set-poll method was last called with the value of \<open>gsk_hook_get_last_poll_state\<close>; the
  hook is only polled while it is trapped and not blocked, and always while it is also
  available; it is in the main loop's tree of idle hooks exactly if it is polled and
  idle-notified, and the main loop has an idle source whenever the hook or a deferred destroy
  notification needs one.\<close>

theorem hook_polls_when_wanted:
  assumes "hook_reachable s"
  shows "polled s = gsk_hook_get_last_poll_state s \<and>
    (polled s \<longrightarrow> func (hook s) \<noteq> None \<and> block_count (hook s) = 0) \<and>
    (test_flag IS_AVAILABLE s \<and> func (hook s) \<noteq> None \<and> block_count (hook s) = 0 \<longrightarrow> polled s) \<and>
    in_hook_tree (nb s) = (polled s \<and> test_flag IDLE_NOTIFY s) \<and>
    (in_hook_tree (nb s) \<or> pending_destroys (nb s) \<noteq> [] \<longrightarrow> nb_source (nb s))"
proof -
  have "poll_inv s" using hook_reachable_inv [OF assms] by (simp add: hook_inv_def)
  then show ?thesis unfolding poll_inv_def gsk_hook_get_last_poll_state_def by argo
qed

text \<open>A trapped hook whose function is running and has shut the hook down.\<close>

definition running_hook :: hook_state where
  "running_hook = gsk_hook_notify (gsk_hook_trap (Some 7) (Some 8) 5 (Some 9) (initial_hook_state 1 0 0 0 (\<lambda>_. None)))"

lemma running_hook_reachable: "hook_reachable running_hook"
proof -
  have "hook_reachable (initial_hook_state 1 0 0 0 (\<lambda>_. None))" by (rule hook_reachable.init) simp
  then have "hook_reachable (gsk_hook_trap (Some 7) (Some 8) 5 (Some 9) (initial_hook_state 1 0 0 0 (\<lambda>_. None)))"
    by (rule hook_reachable.step [OF _ hook_step.trap])
  then show ?thesis
    unfolding running_hook_def by (rule hook_reachable.step [OF _ hook_step.notify])
qed

lemma running_hook_facts:
  "stack running_hook = [Func_Running]" "test_flag 0 running_hook" "\<not> test_flag 6 running_hook"
  "\<not> test_flag 12 running_hook" "\<not> test_flag 13 running_hook" "func (hook running_hook) = Some 7"
  "shutdown_func (hook running_hook) = Some 8" "block_count (hook running_hook) = 0"
  "\<not> class_has_shutdown running_hook"
  by (simp_all add: running_hook_def gsk_hook_notify_def gsk_hook_trap_def begin_notify_def Let_def
      initial_hook_state_def gsk_hook_init_def gsk_hook_set_poll_def gsk_hook_call_set_poll_func_def class_has_shutdown_def
      test_flag_def mark_flag_def clear_flag_def bit_simps)

theorem hook_polls_when_wanted_witness:
  "polled running_hook \<and> gsk_hook_get_last_poll_state running_hook \<and>
    in_hook_tree (nb running_hook) = test_flag IDLE_NOTIFY running_hook"
  using hook_polls_when_wanted [OF running_hook_reachable] running_hook_facts by auto

text \<open>C28: At most one of the user's functions runs at a time, whatever they call: neither the
  trapped function nor the shutdown function is entered again or inside the other, the
  notifying flags say which of them is running, and none of the assertions of
  \<open>gsk_hook_shutdown\<close> fails.\<close>

theorem hook_callbacks_exclusive:
  assumes "hook_reachable s"
  shows "length (filter is_callback (stack s)) \<le> 1 \<and>
    test_flag IS_NOTIFYING s = (Func_Running \<in> set (stack s)) \<and>
    test_flag IS_NOTIFYING_SHUTDOWN s = (Shutdown_Func_Running \<in> set (stack s)) \<and> \<not> assert_failed s"
  using hook_reachable_inv [OF assms] by (auto simp: hook_inv_def run_inv_def)

theorem hook_callbacks_exclusive_witness:
  "length (filter is_callback (stack running_hook)) \<le> 1 \<and>
    test_flag IS_NOTIFYING running_hook = (Func_Running \<in> set (stack running_hook)) \<and>
    test_flag IS_NOTIFYING_SHUTDOWN running_hook = (Shutdown_Func_Running \<in> set (stack running_hook)) \<and>
    \<not> assert_failed running_hook"
  by (rule hook_callbacks_exclusive [OF running_hook_reachable])

text \<open>C29: A hook notifies its shutdown at most once, and not before it is neither available
  nor shutting down.\<close>

theorem hook_shutdown_once:
  assumes "hook_reachable s"
  shows "shutdown_calls s \<le> 1 \<and>
    (test_flag IS_AVAILABLE s \<or> test_flag SHUTTING_DOWN s \<longrightarrow> shutdown_calls s = 0)"
  using hook_reachable_inv [OF assms] by (simp add: hook_inv_def life_inv_def)

theorem hook_shutdown_once_witness: "test_flag IS_AVAILABLE running_hook \<and> shutdown_calls running_hook = 0"
  using hook_shutdown_once [OF running_hook_reachable] running_hook_facts by auto

text \<open>C30: Every destroy notification passed to \<open>gsk_hook_trap\<close> is called exactly once:
  at any time it has been called, or waits in the list of deferred calls, or belongs to the
  function that is trapped now.\<close>

theorem hook_destroys_accounted:
  assumes "hook_reachable s"
  shows "trapped_data s = destroyed_data s + mset (pending_destroys (nb s)) + held_data s"
  using hook_reachable_inv [OF assms] by (simp add: hook_inv_def destroy_inv_def)

theorem hook_destroys_accounted_witness:
  "trapped_data running_hook =
     destroyed_data running_hook + mset (pending_destroys (nb running_hook)) + held_data running_hook"
  by (rule hook_destroys_accounted [OF running_hook_reachable])



text \<open>C38: The notification of a blocked hook is recorded, but unblocking the hook does not
  deliver it; and the notification of a hook whose function is running is delivered when the
  function returns, even if the function has blocked the hook.\<close>

theorem hook_blocked_notification:
  assumes "test_flag IS_AVAILABLE s" "block_count (hook s) = 1"
    and "hook_reachable t" "stack t = Func_Running # rest" "test_flag IS_AVAILABLE t"
    and "func (hook t) \<noteq> None" "block_count (hook t) = 0" "\<not> test_flag BLOCKED_SHUTDOWN_NOTIFY t"
    and "t' = resume (after_func True ((gsk_hook_block (gsk_hook_notify t))\<lparr>stack := rest\<rparr>))"
  shows "log (gsk_hook_unblock (gsk_hook_notify s)) = log s \<and>
    stack (gsk_hook_unblock (gsk_hook_notify s)) = stack s \<and>
    test_flag BLOCKED_NOTIFY (gsk_hook_unblock (gsk_hook_notify s)) \<and>
    stack t' = Func_Running # rest \<and> block_count (hook t') = 1"
proof -
  have "test_flag 9 t"
    using hook_reachable_inv [OF assms(3)] assms(4) by (auto simp: hook_inv_def run_inv_def)
  then have n: "gsk_hook_notify t = mark_flag 11 t" using assms(5) by (simp add: gsk_hook_notify_def)
  have "stack t' = Func_Running # rest" "block_count (hook t') = 1"
    using assms(6-8) unfolding assms(9) n
    by (auto simp: gsk_hook_block_def after_func_def begin_notify_def resume_def Let_def)
  moreover have "log (gsk_hook_unblock (gsk_hook_notify s)) = log s"
    "stack (gsk_hook_unblock (gsk_hook_notify s)) = stack s"
    "test_flag BLOCKED_NOTIFY (gsk_hook_unblock (gsk_hook_notify s))"
    using assms(1,2) by (simp_all add: gsk_hook_notify_def gsk_hook_unblock_def Let_def word_gt_0)
  ultimately show ?thesis by simp
qed

theorem hook_blocked_notification_witness:
  "log (gsk_hook_unblock (gsk_hook_notify (gsk_hook_block running_hook))) = log (gsk_hook_block running_hook) \<and>
   stack (resume (after_func True ((gsk_hook_block (gsk_hook_notify running_hook))\<lparr>stack := []\<rparr>))) = [Func_Running]"
proof -
  have "test_flag 0 (gsk_hook_block running_hook)" "block_count (hook (gsk_hook_block running_hook)) = 1"
    using running_hook_facts by (simp_all add: gsk_hook_block_def Let_def)
  moreover have "func (hook running_hook) \<noteq> None" using running_hook_facts by simp
  ultimately show ?thesis
    using hook_blocked_notification [OF _ _ running_hook_reachable running_hook_facts(1,2) _
        running_hook_facts(8,4) refl] by blast
qed

end
