(* ===== verification/Gsk_Mem_Pool.thy ===== *)
theory Gsk_Mem_Pool
  imports Gsk_Prelude
begin

text \<open>
  Memory pools, \<^verbatim>\<open>src/src/gskmempool.c\<close> and \<^verbatim>\<open>gskmempool.h\<close>: the allocate-only pool
  and the pool of pieces of one size.  Addresses are natural numbers, \<open>g_malloc\<close> is a
  parameter that sees the blocks in use, and the lists that the code threads through the
  first word of slabs and free pieces are lists of addresses.  The lemmas show that the
  regions handed out lie inside blocks of the pool and never overlap.
\<close>

section \<open>Regions\<close>

type_synonym region = "nat \<times> nat"

definition apart :: "region \<Rightarrow> region \<Rightarrow> bool" where
  "apart r q \<longleftrightarrow> fst r + snd r \<le> fst q \<or> fst q + snd q \<le> fst r"

definition inside :: "region \<Rightarrow> region \<Rightarrow> bool" where
  "inside r q \<longleftrightarrow> fst q \<le> fst r \<and> fst r + snd r \<le> fst q + snd q"

text \<open>\<open>sizeof (gpointer)\<close>.\<close>

definition POINTER_SIZE :: nat where
  "POINTER_SIZE = 8"

text \<open>What \<open>g_malloc\<close> promises: an aligned block, not the null pointer, apart from all
  blocks in use.\<close>

definition malloc_ok :: "(region list \<Rightarrow> nat \<Rightarrow> nat) \<Rightarrow> bool" where
  "malloc_ok gm \<longleftrightarrow> (\<forall>heap size. 0 < gm heap size \<and> gm heap size mod 8 = 0 \<and>
     (\<forall>q \<in> set heap. apart (gm heap size, size) q))"

section \<open>The allocate-only pool\<close>

definition CHUNK_SIZE :: nat where
  "CHUNK_SIZE = 8192"

record mem_pool =
  all_chunk_list :: "nat list"
  chunk :: nat
  chunk_left :: u32

text \<open>The pool, the blocks in use, and the contents of memory.\<close>

record pool_state =
  pool :: mem_pool
  heap :: "region list"
  mem :: memory

definition gsk_mem_pool_construct :: mem_pool where
  "gsk_mem_pool_construct = \<lparr>all_chunk_list = [], chunk = 0, chunk_left = 0\<rparr>"

definition gsk_mem_pool_construct_with_scratch_buf :: "nat \<Rightarrow> nat \<Rightarrow> mem_pool" where
  "gsk_mem_pool_construct_with_scratch_buf buffer buffer_size =
     \<lparr>all_chunk_list = [], chunk = buffer, chunk_left = of_nat buffer_size\<rparr>"

definition gsk_mem_pool_align :: "mem_pool \<Rightarrow> mem_pool" where
  "gsk_mem_pool_align p =
     (let mask = chunk p mod POINTER_SIZE
      in if mask \<noteq> 0 then
           (let align = POINTER_SIZE - mask
            in p\<lparr>chunk_left := chunk_left p - of_nat align, chunk := chunk p + align\<rparr>)
         else p)"

text \<open>Sizes are \<open>gsize\<close> values below \<open>2 ^ 64\<close>; the size given to \<open>g_malloc\<close> wraps.\<close>

definition gsk_mem_pool_must_alloc ::
  "(region list \<Rightarrow> nat \<Rightarrow> nat) \<Rightarrow> nat \<Rightarrow> pool_state \<Rightarrow> nat \<times> pool_state" where
  "gsk_mem_pool_must_alloc gm sz s =
     (if sz < CHUNK_SIZE then
        (let carved = gm (heap s) (CHUNK_SIZE + POINTER_SIZE);
             rv = carved + POINTER_SIZE
         in (rv, s\<lparr>pool := \<lparr>all_chunk_list = carved # all_chunk_list (pool s), chunk = rv + sz,
                           chunk_left = of_nat (CHUNK_SIZE - sz)\<rparr>,
                   heap := (carved, CHUNK_SIZE + POINTER_SIZE) # heap s\<rparr>))
      else
        (let n = (sz + POINTER_SIZE) mod 2 ^ 64;
             carved = gm (heap s) n
         in (carved + POINTER_SIZE,
             s\<lparr>pool := (pool s)\<lparr>all_chunk_list :=
                   (case all_chunk_list (pool s) of [] \<Rightarrow> [carved] | a # rest \<Rightarrow> a # carved # rest)\<rparr>,
               heap := (carved, n) # heap s\<rparr>)))"

definition gsk_mem_pool_alloc_unaligned ::
  "(region list \<Rightarrow> nat \<Rightarrow> nat) \<Rightarrow> nat \<Rightarrow> pool_state \<Rightarrow> nat \<times> pool_state" where
  "gsk_mem_pool_alloc_unaligned gm sz s =
     (if sz \<le> unat (chunk_left (pool s)) then
        (let rv = chunk (pool s)
         in (rv, s\<lparr>pool := (pool s)\<lparr>chunk_left := chunk_left (pool s) - of_nat sz, chunk := rv + sz\<rparr>\<rparr>))
      else gsk_mem_pool_must_alloc gm sz s)"

definition gsk_mem_pool_alloc ::
  "(region list \<Rightarrow> nat \<Rightarrow> nat) \<Rightarrow> nat \<Rightarrow> pool_state \<Rightarrow> nat \<times> pool_state" where
  "gsk_mem_pool_alloc gm sz s =
     gsk_mem_pool_alloc_unaligned gm sz (s\<lparr>pool := gsk_mem_pool_align (pool s)\<rparr>)"

definition gsk_mem_pool_alloc0 ::
  "(region list \<Rightarrow> nat \<Rightarrow> nat) \<Rightarrow> nat \<Rightarrow> pool_state \<Rightarrow> nat \<times> pool_state" where
  "gsk_mem_pool_alloc0 gm sz s =
     (let (rv, s) = gsk_mem_pool_alloc gm sz s in (rv, s\<lparr>mem := memset (mem s) rv 0 sz\<rparr>))"

text \<open>\<open>str\<close> is None for the null pointer, and otherwise the string without its NUL.  The
  length is a \<open>guint\<close>.\<close>

definition gsk_mem_pool_strdup ::
  "(region list \<Rightarrow> nat \<Rightarrow> nat) \<Rightarrow> u8 list option \<Rightarrow> pool_state \<Rightarrow> nat option \<times> pool_state" where
  "gsk_mem_pool_strdup gm str s =
     (case str of
        None \<Rightarrow> (None, s)
      | Some bs \<Rightarrow>
          (let L = unat (of_nat (length bs + 1) :: u32);
               (rv, s) = gsk_mem_pool_alloc_unaligned gm L s
           in (Some rv, s\<lparr>mem := memcpy (mem s) rv (bs @ [0]) L\<rparr>)))"

text \<open>Every slab of the list is freed.\<close>

fun free_slabs :: "nat list \<Rightarrow> region list \<Rightarrow> region list" where
  "free_slabs [] blocks = blocks"
| "free_slabs (slab # rest) blocks = free_slabs rest (filter (\<lambda>q. fst q \<noteq> slab) blocks)"

definition gsk_mem_pool_destruct :: "pool_state \<Rightarrow> pool_state" where
  "gsk_mem_pool_destruct s = s\<lparr>heap := free_slabs (all_chunk_list (pool s)) (heap s)\<rparr>"

section \<open>The pool of pieces of one size\<close>

record mem_pool_fixed =
  slab_list :: "nat list"
  fixed_chunk :: nat
  pieces_left :: u32
  piece_size :: u32
  free_list :: "nat list"

record fixed_state =
  fixed_pool :: mem_pool_fixed
  fixed_heap :: "region list"
  fixed_mem :: memory

text \<open>\<open>_GSK_MEM_POOL_ALIGN\<close>, in \<open>gsize\<close> arithmetic.\<close>

definition ALIGN :: "nat \<Rightarrow> nat" where
  "ALIGN sz = (sz + POINTER_SIZE - 1) mod 2 ^ 64 div POINTER_SIZE * POINTER_SIZE"

definition gsk_mem_pool_fixed_construct :: "nat \<Rightarrow> mem_pool_fixed" where
  "gsk_mem_pool_fixed_construct sz =
     \<lparr>slab_list = [], fixed_chunk = 0, pieces_left = 0,
      piece_size = of_nat (max (ALIGN sz) POINTER_SIZE), free_list = []\<rparr>"

definition gsk_mem_pool_fixed_construct_with_scratch_buf :: "nat \<Rightarrow> nat \<Rightarrow> nat \<Rightarrow> mem_pool_fixed" where
  "gsk_mem_pool_fixed_construct_with_scratch_buf elt_size buffer buffer_n_elements =
     \<lparr>slab_list = [], fixed_chunk = buffer, pieces_left = of_nat buffer_n_elements,
      piece_size = of_nat elt_size, free_list = []\<rparr>"

text \<open>The product \<open>256 * pool->piece_size\<close> is a \<open>guint\<close>, the sum with \<open>sizeof\<close> a \<open>gsize\<close>.\<close>

definition fixed_slab_size :: "u32 \<Rightarrow> nat" where
  "fixed_slab_size psize = unat (256 * psize) + POINTER_SIZE"

definition gsk_mem_pool_fixed_alloc ::
  "(region list \<Rightarrow> nat \<Rightarrow> nat) \<Rightarrow> fixed_state \<Rightarrow> nat \<times> fixed_state" where
  "gsk_mem_pool_fixed_alloc gm s =
     (case free_list (fixed_pool s) of
        rv # rest \<Rightarrow> (rv, s\<lparr>fixed_pool := (fixed_pool s)\<lparr>free_list := rest\<rparr>\<rparr>)
      | [] \<Rightarrow>
          (let s = (if pieces_left (fixed_pool s) = 0 then
                      (let n = fixed_slab_size (piece_size (fixed_pool s));
                           slab = gm (fixed_heap s) n
                       in s\<lparr>fixed_pool := (fixed_pool s)\<lparr>
                              slab_list := slab # slab_list (fixed_pool s),
                              fixed_chunk := slab + POINTER_SIZE, pieces_left := 256\<rparr>,
                            fixed_heap := (slab, n) # fixed_heap s\<rparr>)
                    else s);
               p = fixed_pool s
           in (fixed_chunk p, s\<lparr>fixed_pool := p\<lparr>
                 fixed_chunk := fixed_chunk p + unat (piece_size p), pieces_left := pieces_left p - 1\<rparr>\<rparr>)))"

definition gsk_mem_pool_fixed_alloc0 ::
  "(region list \<Rightarrow> nat \<Rightarrow> nat) \<Rightarrow> fixed_state \<Rightarrow> nat \<times> fixed_state" where
  "gsk_mem_pool_fixed_alloc0 gm s =
     (let (rv, s) = gsk_mem_pool_fixed_alloc gm s
      in (rv, s\<lparr>fixed_mem := memset (fixed_mem s) rv 0 (unat (piece_size (fixed_pool s)))\<rparr>))"

definition gsk_mem_pool_fixed_free :: "nat \<Rightarrow> fixed_state \<Rightarrow> fixed_state" where
  "gsk_mem_pool_fixed_free from_pool s =
     s\<lparr>fixed_pool := (fixed_pool s)\<lparr>free_list := from_pool # free_list (fixed_pool s)\<rparr>\<rparr>"

definition gsk_mem_pool_fixed_destruct :: "fixed_state \<Rightarrow> fixed_state" where
  "gsk_mem_pool_fixed_destruct s =
     s\<lparr>fixed_heap := free_slabs (slab_list (fixed_pool s)) (fixed_heap s),
       fixed_pool := (fixed_pool s)\<lparr>slab_list := []\<rparr>\<rparr>"

section \<open>Regions that do not overlap\<close>

lemma apart_sym: "apart r q = apart q r"
  by (auto simp: apart_def)

lemma apart_inside: "apart q q' \<Longrightarrow> inside r q \<Longrightarrow> inside r' q' \<Longrightarrow> apart r r'"
  by (auto simp: apart_def inside_def)

lemma apart_null: "apart (0, 0) r"
  by (simp add: apart_def)

text \<open>The part of a slab behind the pointer in its first word, and the regions the pool may
  hand out: inside the payload of a slab, or nothing at the null pointer.\<close>

definition payload :: "region \<Rightarrow> region" where
  "payload q = (fst q + POINTER_SIZE, snd q - POINTER_SIZE)"

definition owned :: "region list \<Rightarrow> region \<Rightarrow> bool" where
  "owned slabs r \<longleftrightarrow> r = (0, 0) \<or> (\<exists>q \<in> set slabs. inside r (payload q))"

lemma payload_inside: "POINTER_SIZE \<le> snd q \<Longrightarrow> inside (payload q) q"
  by (simp add: payload_def inside_def)

lemma inside_trans: "inside r q \<Longrightarrow> inside q p \<Longrightarrow> inside r p"
  by (auto simp: inside_def)

lemma owned_Cons: "owned slabs r \<Longrightarrow> owned (q # slabs) r"
  by (auto simp: owned_def)

lemma owned_apart:
  assumes "owned slabs r" "\<forall>q \<in> set slabs. POINTER_SIZE \<le> snd q \<and> apart b q" "inside r' b"
  shows "apart r r'"
proof (cases "r = (0, 0)")
  case False
  then obtain q where "q \<in> set slabs" "inside r (payload q)" using assms(1) by (auto simp: owned_def)
  then have "inside r q" "apart q b"
    using assms(2) by (auto simp: apart_sym intro: inside_trans payload_inside)
  then show ?thesis using assms(3) apart_inside by blast
qed (simp add: apart_null)

section \<open>Slabs and the regions handed out of them\<close>

text \<open>What both pools keep: \<open>slabs\<close> are the pool's blocks, \<open>blocks\<close> the blocks of others,
  \<open>handed\<close> the regions handed out so far, \<open>free\<close> the rest of the newest slab; \<open>hp\<close> is the heap
  and \<open>list\<close> the pool's list of slabs.\<close>

definition arena :: "region list \<Rightarrow> region list \<Rightarrow> region list \<Rightarrow> region \<Rightarrow> region list \<Rightarrow> nat list \<Rightarrow> bool" where
  "arena blocks slabs handed free hp list \<longleftrightarrow>
     hp = slabs @ blocks \<and> set list = fst ` set slabs \<and>
     (\<forall>q \<in> set slabs. POINTER_SIZE \<le> snd q \<and> (\<forall>b \<in> set blocks. apart q b)) \<and>
     owned slabs free \<and> (\<forall>r \<in> set handed. owned slabs r \<and> apart r free) \<and> sorted_wrt apart handed"

lemma arena_start: "arena blocks [] [] (0, 0) blocks []"
  by (simp add: arena_def owned_def)

text \<open>Shrinking the free region from the front keeps the arena, and what was cut off may be
  handed out.\<close>

lemma arena_cut:
  assumes inv: "arena blocks slabs handed (c, n + m) hp list"
  shows "arena blocks slabs ((c, n) # handed) (c + n, m) hp list" "arena blocks slabs handed (c + n, m) hp list"
proof -
  have ins: "inside (c + n, m) (c, n + m)" "inside (c, n) (c, n + m)"
    by (auto simp: inside_def)
  have own: "owned slabs r" if "inside r (c, n + m)" for r
  proof (cases "(c, n + m) = (0, 0)")
    case True
    then have "r = (0, 0)" using that by (cases r) (auto simp: inside_def)
    then show ?thesis by (simp add: owned_def)
  next
    case False
    then show ?thesis using inv that by (auto simp: arena_def owned_def intro: inside_trans)
  qed
  have old: "apart r r'" if "r \<in> set handed" "inside r' (c, n + m)" for r r'
    using inv that apart_inside [of r "(c, n + m)" r r'] by (auto simp: arena_def inside_def)
  show "arena blocks slabs handed (c + n, m) hp list"
    using inv own [OF ins(1)] old [OF _ ins(1)] by (simp add: arena_def)
  then show "arena blocks slabs ((c, n) # handed) (c + n, m) hp list"
    using own [OF ins(2)] old [OF _ ins(2)] by (auto simp: arena_def apart_sym [of "(c, n)"]) (simp_all add: apart_def)
qed

text \<open>A new block at the head of the heap, with a region of its payload handed out.\<close>

lemma arena_new_slab:
  assumes inv: "arena blocks slabs handed free hp list" and gm: "malloc_ok gm" and n: "POINTER_SIZE \<le> n"
    and q: "q = (gm hp n, n)" and list: "set list' = insert (fst q) (set list)" and r: "inside r (payload q)"
    and free: "free' = free \<or> inside free' (payload q) \<and> apart r free'"
  shows "arena blocks (q # slabs) (r # handed) free' (q # hp) list'"
proof -
  have fresh: "\<forall>p \<in> set slabs \<union> set blocks. apart q p"
    using gm inv by (auto simp: malloc_ok_def q arena_def)
  have slabs: "\<forall>p \<in> set slabs. POINTER_SIZE \<le> snd p \<and> apart q p"
    using inv fresh by (auto simp: arena_def)
  have in_q: "inside x q" if "inside x (payload q)" for x
    using that n payload_inside [of q] inside_trans by (auto simp: q)
  have old: "apart x y" if "owned slabs x" "inside y (payload q)" for x y
    using owned_apart [OF that(1) slabs in_q [OF that(2)]] .
  have owned_old: "owned slabs x" if "x \<in> set handed \<or> x = free" for x
    using inv that by (auto simp: arena_def)
  have own_new: "owned (q # slabs) x" if "inside x (payload q)" for x using that by (auto simp: owned_def)
  have own_free: "owned (q # slabs) free'"
    using free own_new owned_Cons owned_old by metis
  have apart_free: "apart x free'" if "x \<in> set handed" for x
    using free old owned_old inv that unfolding arena_def by metis
  have r_free: "apart r free'"
    using free old [OF owned_old r] apart_sym by metis
  show ?thesis
    using inv list fresh n own_free apart_free r_free own_new [OF r] owned_Cons owned_old old [OF owned_old r]
    by (auto simp: arena_def q apart_sym [of r])
qed

lemma free_slabs_filter: "free_slabs list hp = filter (\<lambda>q. fst q \<notin> set list) hp"
  by (induction list hp rule: free_slabs.induct) (auto intro: filter_cong)

text \<open>Freeing the slabs leaves the blocks of others.\<close>

lemma arena_freed:
  assumes inv: "arena blocks slabs handed free hp list" and "\<forall>b \<in> set blocks. 0 < snd b"
  shows "free_slabs list hp = blocks"
proof -
  have "fst b \<noteq> fst q" if "q \<in> set slabs" "b \<in> set blocks" for q b
    using inv assms(2) that by (fastforce simp: arena_def apart_def POINTER_SIZE_def)
  then have "filter (\<lambda>q. fst q \<notin> set list) blocks = blocks" "filter (\<lambda>q. fst q \<notin> set list) slabs = []"
    using inv by (auto simp: arena_def filter_id_conv filter_empty_conv)
  then show ?thesis using inv by (simp add: free_slabs_filter arena_def)
qed

lemma arena_spares_blocks:
  assumes "arena blocks slabs handed free hp list" "r \<in> set handed" "b \<in> set blocks"
  shows "apart r b"
  using owned_apart [of slabs r b b] assms by (auto simp: arena_def apart_sym inside_def)

section \<open>The invariant of the allocate-only pool\<close>

definition free_region :: "mem_pool \<Rightarrow> region" where
  "free_region p = (chunk p, unat (chunk_left p))"

definition pool_inv :: "region list \<Rightarrow> region list \<Rightarrow> region list \<Rightarrow> pool_state \<Rightarrow> bool" where
  "pool_inv blocks slabs handed s \<longleftrightarrow>
     arena blocks slabs handed (free_region (pool s)) (heap s) (all_chunk_list (pool s)) \<and>
     (chunk (pool s) + unat (chunk_left (pool s))) mod POINTER_SIZE = 0"

lemma pool_inv_start: "pool_inv blocks [] [] \<lparr>pool = gsk_mem_pool_construct, heap = blocks, mem = m\<rparr>"
  by (simp add: pool_inv_def gsk_mem_pool_construct_def free_region_def arena_start)

lemma pool_inv_mem [simp]: "pool_inv blocks slabs handed (s\<lparr>mem := m\<rparr>) = pool_inv blocks slabs handed s"
  by (simp add: pool_inv_def)

lemma align_room:
  fixes c l :: nat
  assumes "(c + l) mod 8 = 0" "c mod 8 \<noteq> 0"
  shows "8 - c mod 8 \<le> l"
proof (rule ccontr)
  assume "\<not> 8 - c mod 8 \<le> l"
  then have "(c mod 8 + l) mod 8 = c mod 8 + l" by (intro mod_less) simp
  then show False using assms by (simp add: mod_add_left_eq)
qed

lemma align_up:
  fixes c :: nat
  assumes "c mod 8 \<noteq> 0"
  shows "(c + (8 - c mod 8)) mod 8 = 0"
  using mod_add_left_eq [of c 8 "8 - c mod 8"] by simp

lemma unat_sub_u32: "n \<le> unat (w :: u32) \<Longrightarrow> unat (w - of_nat n) = unat w - n"
proof -
  assume n: "n \<le> unat w"
  also have "unat w < 2 ^ LENGTH(32)" by (rule unsigned_less)
  finally have "n < 4294967296" by simp
  then have "unat (of_nat n :: u32) = n" by (simp add: unat_of_nat_u32)
  then show ?thesis using n by (simp add: unat_sub word_le_nat_alt)
qed

lemma pool_inv_cut:
  assumes "pool_inv blocks slabs handed s" "n \<le> unat (chunk_left (pool s))"
  defines "s' \<equiv> s\<lparr>pool := (pool s)\<lparr>chunk_left := chunk_left (pool s) - of_nat n, chunk := chunk (pool s) + n\<rparr>\<rparr>"
  shows "pool_inv blocks slabs ((chunk (pool s), n) # handed) s'" "pool_inv blocks slabs handed s'"
  using arena_cut [of blocks slabs handed "chunk (pool s)" n "unat (chunk_left (pool s)) - n"] assms(1,2)
  by (simp_all add: pool_inv_def s'_def free_region_def unat_sub_u32)

lemma must_alloc_inv:
  assumes "pool_inv blocks slabs handed s" "malloc_ok gm" "sz + POINTER_SIZE < 2 ^ 64"
    and "gsk_mem_pool_must_alloc gm sz s = (rv, s')"
  shows "\<exists>slabs'. pool_inv blocks slabs' ((rv, sz) # handed) s'" "rv mod POINTER_SIZE = 0" "mem s' = mem s"
proof -
  define n where "n = (if sz < CHUNK_SIZE then CHUNK_SIZE else sz) + POINTER_SIZE"
  define q where "q = (gm (heap s) n, n)"
  have al: "gm (heap s) n mod 8 = 0" using assms(2) by (simp add: malloc_ok_def)
  have left: "unat (of_nat (8192 - sz) :: u32) = 8192 - sz" by (rule unat_of_nat_u32) simp
  have e: "(8200 + c) mod 8 = 0" "(c + 8) mod 8 = 0" if "c mod 8 = 0" for c :: nat
    using that mod_add_left_eq [of c 8 8200] mod_add_left_eq [of c 8 8] by (simp_all add: add.commute)
  have rv: "rv = gm (heap s) n + 8" "mem s' = mem s" "heap s' = q # heap s"
    "set (all_chunk_list (pool s')) = insert (fst q) (set (all_chunk_list (pool s)))"
    using assms(3,4) by (auto simp: gsk_mem_pool_must_alloc_def Let_def n_def q_def POINTER_SIZE_def
        split: if_splits list.splits)
  show "rv mod POINTER_SIZE = 0" "mem s' = mem s" using rv e(2) [OF al] by (simp_all add: POINTER_SIZE_def)
  have r: "inside (rv, sz) (payload q)"
    by (auto simp: rv q_def n_def inside_def payload_def POINTER_SIZE_def)
  have free: "free_region (pool s') = free_region (pool s) \<or>
      inside (free_region (pool s')) (payload q) \<and> apart (rv, sz) (free_region (pool s'))"
    using assms(4) left by (auto simp: gsk_mem_pool_must_alloc_def Let_def free_region_def n_def q_def inside_def
        payload_def apart_def POINTER_SIZE_def CHUNK_SIZE_def split: if_splits)
  have "(chunk (pool s') + unat (chunk_left (pool s'))) mod POINTER_SIZE = 0"
    using assms(1,4) left e(1) [OF al] by (auto simp: gsk_mem_pool_must_alloc_def Let_def n_def pool_inv_def
        POINTER_SIZE_def CHUNK_SIZE_def split: if_splits)
  moreover have "POINTER_SIZE \<le> n" by (simp add: n_def)
  ultimately have "pool_inv blocks (q # slabs) ((rv, sz) # handed) s'"
    using arena_new_slab [OF _ assms(2) _ q_def rv(4) r free] assms(1) by (simp add: pool_inv_def rv(3))
  then show "\<exists>slabs'. pool_inv blocks slabs' ((rv, sz) # handed) s'" ..
qed

lemma alloc_unaligned_inv:
  assumes "pool_inv blocks slabs handed s" "malloc_ok gm" "sz + POINTER_SIZE < 2 ^ 64"
    and "gsk_mem_pool_alloc_unaligned gm sz s = (rv, s')"
  shows "\<exists>slabs'. pool_inv blocks slabs' ((rv, sz) # handed) s'"
    "chunk (pool s) mod POINTER_SIZE = 0 \<Longrightarrow> rv mod POINTER_SIZE = 0" "mem s' = mem s"
  using assms(4) pool_inv_cut(1) [OF assms(1), of sz] must_alloc_inv [OF assms(1-3)]
  by (auto simp: gsk_mem_pool_alloc_unaligned_def Let_def split: if_splits)

lemma align_inv:
  assumes "pool_inv blocks slabs handed s"
  shows "pool_inv blocks slabs handed (s\<lparr>pool := gsk_mem_pool_align (pool s)\<rparr>)"
    "chunk (gsk_mem_pool_align (pool s)) mod POINTER_SIZE = 0"
proof -
  let ?c = "chunk (pool s)"
  have room: "8 - ?c mod 8 \<le> unat (chunk_left (pool s))" if "?c mod 8 \<noteq> 0"
    using assms that by (intro align_room) (simp_all add: pool_inv_def POINTER_SIZE_def)
  show "chunk (gsk_mem_pool_align (pool s)) mod POINTER_SIZE = 0"
    using align_up [of ?c] by (simp add: gsk_mem_pool_align_def Let_def POINTER_SIZE_def)
  show "pool_inv blocks slabs handed (s\<lparr>pool := gsk_mem_pool_align (pool s)\<rparr>)"
  proof (cases "?c mod 8 = 0")
    case False
    from pool_inv_cut(2) [OF assms room [OF False]] False show ?thesis
      by (simp add: gsk_mem_pool_align_def Let_def POINTER_SIZE_def)
  qed (use assms in \<open>simp add: gsk_mem_pool_align_def POINTER_SIZE_def\<close>)
qed

lemma alloc_inv:
  assumes "pool_inv blocks slabs handed s" "malloc_ok gm" "sz + POINTER_SIZE < 2 ^ 64"
    and "gsk_mem_pool_alloc gm sz s = (rv, s')"
  shows "\<exists>slabs'. pool_inv blocks slabs' ((rv, sz) # handed) s'" "rv mod POINTER_SIZE = 0" "mem s' = mem s"
  using alloc_unaligned_inv [OF align_inv(1) [OF assms(1)] assms(2,3) assms(4) [unfolded gsk_mem_pool_alloc_def]]
    align_inv(2) [OF assms(1)] by simp_all

section \<open>Sequences of requests\<close>

datatype pool_request = Alloc nat | Alloc0 nat | Alloc_Unaligned nat | Strdup "u8 list"

fun serve :: "(region list \<Rightarrow> nat \<Rightarrow> nat) \<Rightarrow> pool_request \<Rightarrow> pool_state \<Rightarrow> region \<times> pool_state" where
  "serve gm (Alloc n) s = (let (rv, s) = gsk_mem_pool_alloc gm n s in ((rv, n), s))"
| "serve gm (Alloc0 n) s = (let (rv, s) = gsk_mem_pool_alloc0 gm n s in ((rv, n), s))"
| "serve gm (Alloc_Unaligned n) s = (let (rv, s) = gsk_mem_pool_alloc_unaligned gm n s in ((rv, n), s))"
| "serve gm (Strdup bs) s =
     (let (rv, s) = gsk_mem_pool_strdup gm (Some bs) s
      in (case rv of None \<Rightarrow> (0, 0) | Some a \<Rightarrow> (a, length bs + 1), s))"

text \<open>Sizes for which no computation of the code wraps.\<close>

fun request_ok :: "pool_request \<Rightarrow> bool" where
  "request_ok (Alloc n) = (n + POINTER_SIZE < 2 ^ 64)"
| "request_ok (Alloc0 n) = (n + POINTER_SIZE < 2 ^ 64)"
| "request_ok (Alloc_Unaligned n) = (n + POINTER_SIZE < 2 ^ 64)"
| "request_ok (Strdup bs) = (length bs + 1 < 2 ^ 32)"

text \<open>The regions handed out, the last one first.\<close>

fun serve_all :: "(region list \<Rightarrow> nat \<Rightarrow> nat) \<Rightarrow> pool_request list \<Rightarrow> pool_state \<Rightarrow> region list \<times> pool_state" where
  "serve_all gm [] s = ([], s)"
| "serve_all gm (q # qs) s =
     (let (r, s) = serve gm q s; (rs, s) = serve_all gm qs s in (rs @ [r], s))"

lemma strdup_result:
  assumes "pool_inv blocks slabs handed s" "malloc_ok gm" "length bs + 1 < 2 ^ 32"
    and "gsk_mem_pool_strdup gm (Some bs) s = (rv, s')"
  obtains a slabs' where "rv = Some a" "pool_inv blocks slabs' ((a, length bs + 1) # handed) s'"
    "mem s' = memcpy (mem s) a (bs @ [0]) (length bs + 1)"
proof -
  obtain a t where t: "gsk_mem_pool_alloc_unaligned gm (length bs + 1) s = (a, t)" by fastforce
  have L: "unat (of_nat (length bs + 1) :: u32) = length bs + 1"
    using assms(3) by (intro unat_of_nat_u32) simp
  have "length bs + 1 + POINTER_SIZE < 2 ^ 64" using assms(3) by (simp add: POINTER_SIZE_def)
  from alloc_unaligned_inv [OF assms(1,2) this t] that show ?thesis
    using assms(4) unfolding gsk_mem_pool_strdup_def option.case L Let_def t by auto
qed

text \<open>A request keeps the invariant and changes memory only in the region it hands out.\<close>

lemma serve_inv:
  assumes "pool_inv blocks slabs handed s" "malloc_ok gm" "request_ok q" "serve gm q s = (r, s')"
  obtains slabs' where "pool_inv blocks slabs' (r # handed) s'"
    "\<And>i. \<not> (fst r \<le> i \<and> i < fst r + snd r) \<Longrightarrow> mem s' i = mem s i"
proof (cases q)
  case (Alloc n)
  obtain a t where t: "gsk_mem_pool_alloc gm n s = (a, t)" by fastforce
  from alloc_inv [OF assms(1,2) _ t] Alloc assms(3,4) t that show ?thesis by auto
next
  case (Alloc0 n)
  obtain a t where t: "gsk_mem_pool_alloc gm n s = (a, t)" by fastforce
  from alloc_inv [OF assms(1,2) _ t] Alloc0 assms(3)
  obtain slabs' where "pool_inv blocks slabs' ((a, n) # handed) t" "mem t = mem s" by auto
  moreover from this have "r = (a, n)" "s' = t\<lparr>mem := memset (mem s) a 0 n\<rparr>"
    using Alloc0 assms(4) t by (auto simp: gsk_mem_pool_alloc0_def)
  ultimately show ?thesis by (intro that [of slabs']) (auto simp: memset_def)
next
  case (Alloc_Unaligned n)
  obtain a t where t: "gsk_mem_pool_alloc_unaligned gm n s = (a, t)" by fastforce
  from alloc_unaligned_inv [OF assms(1,2) _ t] Alloc_Unaligned assms(3,4) t that show ?thesis by auto
next
  case (Strdup bs)
  obtain rv t where t: "gsk_mem_pool_strdup gm (Some bs) s = (rv, t)" by fastforce
  from strdup_result [OF assms(1,2) _ t] Strdup assms(3)
  obtain a slabs' where "rv = Some a" "pool_inv blocks slabs' ((a, length bs + 1) # handed) t"
    "mem t = memcpy (mem s) a (bs @ [0]) (length bs + 1)" by auto
  moreover from this have "r = (a, length bs + 1)" "s' = t" using Strdup assms(4) t by auto
  ultimately show ?thesis by (intro that [of slabs']) (auto simp: memcpy_def)
qed

lemma serve_all_inv:
  assumes "pool_inv blocks slabs handed s" "malloc_ok gm" "list_all request_ok qs" "serve_all gm qs s = (rs, s')"
  shows "(\<exists>slabs'. pool_inv blocks slabs' (rs @ handed) s') \<and>
    (\<forall>r \<in> set handed. \<forall>i. fst r \<le> i \<and> i < fst r + snd r \<longrightarrow> mem s' i = mem s i)"
  using assms
proof (induction qs arbitrary: slabs handed s rs)
  case (Cons q qs)
  obtain r t where t: "serve gm q s = (r, t)" by fastforce
  obtain rs' where rs: "serve_all gm qs t = (rs', s')" "rs = rs' @ [r]"
    using Cons.prems(4) t by (auto split: prod.splits)
  obtain slabs' where sl: "pool_inv blocks slabs' (r # handed) t"
    "\<And>i. \<not> (fst r \<le> i \<and> i < fst r + snd r) \<Longrightarrow> mem t i = mem s i"
    using serve_inv [OF Cons.prems(1,2) _ t] Cons.prems(3) by auto
  have "mem t i = mem s i" if "p \<in> set handed" "fst p \<le> i" "i < fst p + snd p" for p i
    using sl that by (intro sl(2)) (auto simp: pool_inv_def arena_def apart_def)
  then show ?case
    using Cons.IH [OF sl(1) Cons.prems(2) _ rs(1)] Cons.prems(3) rs(2) by auto
qed auto

text \<open>An allocator that keeps the promises of \<open>g_malloc\<close>: blocks behind all others.\<close>

definition bump :: "region list \<Rightarrow> nat \<Rightarrow> nat" where
  "bump hp n = 8 * (1 + sum_list (map (\<lambda>q. fst q + snd q) hp))"

lemma bump_ok: "malloc_ok bump"
proof -
  have "fst q + snd q \<le> bump hp n" if "q \<in> set hp" for q hp n
    using member_le_sum_list [of "fst q + snd q" "map (\<lambda>q. fst q + snd q) hp"] that
    by (force simp: bump_def)
  then show ?thesis by (auto simp: malloc_ok_def apart_def) (simp_all add: bump_def)
qed

text \<open>C9: Whatever is requested from a new pool, the regions it hands out do not overlap each
  other or any block in use before; each lies behind the first word of a live block (the
  empty region at the null pointer apart); later requests leave the contents of the regions
  handed out before unchanged; the next aligned request gets an aligned address, the next
  string a copy with its NUL; and destroying the pool frees exactly its own blocks.\<close>

theorem pool_regions_apart:
  assumes "malloc_ok gm" "list_all request_ok (before @ later)" "\<forall>b \<in> set blocks. 0 < snd b"
    and "serve_all gm before \<lparr>pool = gsk_mem_pool_construct, heap = blocks, mem = m\<rparr> = (early, s)"
    and "serve_all gm later s = (late, s')"
  shows "sorted_wrt apart (late @ early) \<and>
    (\<forall>r \<in> set (late @ early). (r = (0, 0) \<or> (\<exists>q \<in> set (heap s'). inside r (payload q))) \<and>
       (\<forall>b \<in> set blocks. apart r b)) \<and>
    (\<forall>r \<in> set early. \<forall>i. fst r \<le> i \<and> i < fst r + snd r \<longrightarrow> mem s' i = mem s i) \<and>
    (\<forall>n. n + POINTER_SIZE < 2 ^ 64 \<longrightarrow> fst (gsk_mem_pool_alloc gm n s') mod POINTER_SIZE = 0) \<and>
    (\<forall>bs. length bs + 1 < 2 ^ 32 \<longrightarrow>
       (\<exists>a t. gsk_mem_pool_strdup gm (Some bs) s' = (Some a, t) \<and>
          map (mem t) [a..<a + length bs + 1] = bs @ [0])) \<and>
    heap (gsk_mem_pool_destruct s') = blocks"
proof -
  obtain slabs where i: "pool_inv blocks slabs early s"
    using serve_all_inv [OF pool_inv_start assms(1) _ assms(4)] assms(2) by auto
  obtain slabs' where i': "pool_inv blocks slabs' (late @ early) s'"
    and m: "\<forall>r \<in> set early. \<forall>i. fst r \<le> i \<and> i < fst r + snd r \<longrightarrow> mem s' i = mem s i"
    using serve_all_inv [OF i assms(1) _ assms(5)] assms(2) by auto
  have al: "fst (gsk_mem_pool_alloc gm n s') mod POINTER_SIZE = 0" if "n + POINTER_SIZE < 2 ^ 64" for n
    using alloc_inv(2) [OF i' assms(1) that] by (metis prod.collapse)
  have str: "\<exists>a t. gsk_mem_pool_strdup gm (Some bs) s' = (Some a, t) \<and>
      map (mem t) [a..<a + length bs + 1] = bs @ [0]" if bs: "length bs + 1 < 2 ^ 32" for bs
  proof -
    obtain rv t where t: "gsk_mem_pool_strdup gm (Some bs) s' = (rv, t)" by fastforce
    obtain a where a: "rv = Some a" "mem t = memcpy (mem s') a (bs @ [0]) (length bs + 1)"
      using strdup_result [OF i' assms(1) bs t] by metis
    then have "map (mem t) [a..<a + length bs + 1] = bs @ [0]"
      by (intro nth_equalityI) (simp_all add: memcpy_def del: upt_Suc)
    then show ?thesis using t a(1) by blast
  qed
  have ar: "arena blocks slabs' (late @ early) (free_region (pool s')) (heap s') (all_chunk_list (pool s'))"
    using i' by (simp add: pool_inv_def)
  have freed: "heap (gsk_mem_pool_destruct s') = blocks"
    using arena_freed [OF ar assms(3)] by (simp add: gsk_mem_pool_destruct_def)
  have regions: "(r = (0, 0) \<or> (\<exists>q \<in> set (heap s'). inside r (payload q))) \<and> (\<forall>b \<in> set blocks. apart r b)"
    if "r \<in> set (late @ early)" for r
    using ar that arena_spares_blocks [OF ar that] by (auto simp: arena_def owned_def)
  have "sorted_wrt apart (late @ early)" using ar by (simp add: arena_def)
  then show ?thesis using regions m al str freed by blast
qed

theorem pool_regions_apart_witness:
  "\<exists>early s late s'. serve_all bump [Strdup [104, 105], Alloc 5]
       \<lparr>pool = gsk_mem_pool_construct, heap = [(64, 16)], mem = (\<lambda>_. 0)\<rparr> = (early, s) \<and>
     serve_all bump [Alloc0 9000, Alloc_Unaligned 3] s = (late, s') \<and>
     length (late @ early) = 4 \<and> sorted_wrt apart (late @ early) \<and>
     heap (gsk_mem_pool_destruct s') = [(64, 16)]"
proof -
  obtain early s where e: "serve_all bump [Strdup [104, 105], Alloc 5]
    \<lparr>pool = gsk_mem_pool_construct, heap = [(64, 16)], mem = (\<lambda>_. 0)\<rparr> = (early, s)" by fastforce
  obtain late s' where l: "serve_all bump [Alloc0 9000, Alloc_Unaligned 3] s = (late, s')" by fastforce
  have "length early = 2" "length late = 2" using e l by (auto split: prod.splits)
  moreover have "sorted_wrt apart (late @ early) \<and> heap (gsk_mem_pool_destruct s') = [(64, 16)]"
    using pool_regions_apart [OF bump_ok _ _ e l] by (simp add: POINTER_SIZE_def)
  ultimately show ?thesis using e l by auto
qed

section \<open>The invariant of the pool of pieces\<close>

lemma sorted_wrt_apart_move: "sorted_wrt apart (xs @ a # ys) = sorted_wrt apart (a # xs @ ys)"
  by (auto simp: sorted_wrt_append apart_sym)

lemma arena_move: "arena blocks slabs (xs @ a # ys) free hp list = arena blocks slabs (a # xs @ ys) free hp list"
  unfolding arena_def sorted_wrt_apart_move by auto

definition piece :: "fixed_state \<Rightarrow> nat \<Rightarrow> region" where
  "piece s a = (a, unat (piece_size (fixed_pool s)))"

definition rest_of_slab :: "fixed_state \<Rightarrow> region" where
  "rest_of_slab s = (fixed_chunk (fixed_pool s),
     unat (pieces_left (fixed_pool s)) * unat (piece_size (fixed_pool s)))"

text \<open>The pieces held by the client and those on the free list are the regions handed out.\<close>

definition fixed_inv :: "region list \<Rightarrow> region list \<Rightarrow> nat list \<Rightarrow> fixed_state \<Rightarrow> bool" where
  "fixed_inv blocks slabs live s \<longleftrightarrow>
     arena blocks slabs (map (piece s) (live @ free_list (fixed_pool s))) (rest_of_slab s)
       (fixed_heap s) (slab_list (fixed_pool s)) \<and>
     (\<forall>a \<in> set (fixed_chunk (fixed_pool s) # live @ free_list (fixed_pool s)). 8 dvd a) \<and>
     8 dvd unat (piece_size (fixed_pool s)) \<and> 256 * unat (piece_size (fixed_pool s)) < 2 ^ 32"

lemma fixed_inv_mem [simp]: "fixed_inv blocks slabs live (s\<lparr>fixed_mem := m\<rparr>) = fixed_inv blocks slabs live s"
  by (simp add: fixed_inv_def piece_def [abs_def] rest_of_slab_def)

lemma fixed_slab_size_exact: "256 * unat p < 2 ^ 32 \<Longrightarrow> fixed_slab_size p = 256 * unat p + 8"
  by (simp add: fixed_slab_size_def POINTER_SIZE_def unat_word_ariths)

lemma pieces_dec: "p \<noteq> (0 :: u32) \<Longrightarrow> unat (p - 1) = unat p - 1"
  by (metis unat_minus_one)

text \<open>Taking the next piece of a slab.\<close>

lemma fixed_next_piece:
  assumes "fixed_inv blocks slabs live s" "free_list (fixed_pool s) = []" "pieces_left (fixed_pool s) \<noteq> 0"
  defines "p \<equiv> fixed_pool s"
  shows "fixed_inv blocks slabs (fixed_chunk p # live)
    (s\<lparr>fixed_pool := p\<lparr>fixed_chunk := fixed_chunk p + unat (piece_size p), pieces_left := pieces_left p - 1\<rparr>\<rparr>)"
proof -
  have "0 < unat (pieces_left p)" using assms(3) by (simp add: p_def unat_gt_0)
  then have k: "unat (pieces_left p) * unat (piece_size p) =
      unat (piece_size p) + unat (pieces_left p - 1) * unat (piece_size p)"
    using pieces_dec [of "pieces_left p"] assms(3) by (cases "unat (pieces_left p)") (auto simp: p_def)
  have "arena blocks slabs (map (piece s) live) (fixed_chunk p, unat (piece_size p) +
      unat (pieces_left p - 1) * unat (piece_size p)) (fixed_heap s) (slab_list p)"
    using assms(1,2) k by (simp add: fixed_inv_def rest_of_slab_def p_def)
  from arena_cut(1) [OF this] show ?thesis
    using assms(1,2) by (auto simp: fixed_inv_def rest_of_slab_def piece_def [abs_def] p_def)
qed

lemma fixed_new_slab:
  assumes inv: "fixed_inv blocks slabs live s" and "free_list (fixed_pool s) = []" and gm: "malloc_ok gm"
  defines "p \<equiv> fixed_pool s"
  defines "q \<equiv> (gm (fixed_heap s) (fixed_slab_size (piece_size p)), fixed_slab_size (piece_size p))"
  shows "fixed_inv blocks (q # slabs) ((fst q + 8) # live)
    (s\<lparr>fixed_heap := q # fixed_heap s, fixed_pool := p\<lparr>slab_list := fst q # slab_list p,
         fixed_chunk := fst q + 8 + unat (piece_size p), pieces_left := 256 - 1\<rparr>\<rparr>)"
proof -
  have n: "fixed_slab_size (piece_size p) = 256 * unat (piece_size p) + 8"
    using inv by (intro fixed_slab_size_exact) (simp add: fixed_inv_def p_def)
  have al: "8 dvd fst q" using gm by (simp add: malloc_ok_def q_def mod_eq_0_iff_dvd)
  have ar: "arena blocks slabs (map (piece s) live) (rest_of_slab s) (fixed_heap s) (slab_list p)"
    using inv assms(2) by (simp add: fixed_inv_def p_def)
  have q: "q = (gm (fixed_heap s) (snd q), snd q)" by (simp add: q_def)
  have "arena blocks (q # slabs) (piece s (fst q + 8) # map (piece s) live)
      (fst q + 8 + unat (piece_size p), 255 * unat (piece_size p)) (q # fixed_heap s) (fst q # slab_list p)"
    by (rule arena_new_slab [OF ar gm _ q])
      (auto simp: n [unfolded p_def] q_def POINTER_SIZE_def inside_def payload_def piece_def p_def apart_def)
  then show ?thesis
    using inv assms(2) al by (auto simp: fixed_inv_def rest_of_slab_def piece_def [abs_def] p_def)
qed

lemma fixed_alloc_inv:
  assumes inv: "fixed_inv blocks slabs live s" and gm: "malloc_ok gm" and "gsk_mem_pool_fixed_alloc gm s = (rv, s')"
  shows "\<exists>slabs'. fixed_inv blocks slabs' (rv # live) s'"
proof (cases "free_list (fixed_pool s)")
  case (Cons a rest)
  then have "rv = a" "s' = s\<lparr>fixed_pool := (fixed_pool s)\<lparr>free_list := rest\<rparr>\<rparr>"
    using assms(3) by (auto simp: gsk_mem_pool_fixed_alloc_def)
  moreover have "fixed_inv blocks slabs (a # live) (s\<lparr>fixed_pool := (fixed_pool s)\<lparr>free_list := rest\<rparr>\<rparr>)"
    using inv Cons by (simp add: fixed_inv_def arena_move rest_of_slab_def piece_def [abs_def])
  ultimately show ?thesis by blast
next
  case Nil
  show ?thesis
  proof (cases "pieces_left (fixed_pool s) = 0")
    case True
    from fixed_new_slab [OF inv Nil gm] show ?thesis
      using assms(3) True Nil by (auto simp: gsk_mem_pool_fixed_alloc_def Let_def POINTER_SIZE_def)
  next
    case False
    from fixed_next_piece [OF inv Nil False] show ?thesis
      using assms(3) False Nil by (auto simp: gsk_mem_pool_fixed_alloc_def Let_def)
  qed
qed

lemma fixed_free_inv:
  assumes "fixed_inv blocks slabs live s" "a \<in> set live"
  shows "fixed_inv blocks slabs (remove1 a live) (gsk_mem_pool_fixed_free a s)"
proof -
  obtain xs ys where l: "live = xs @ a # ys" "remove1 a live = xs @ ys"
    using split_list_first [OF assms(2)] by (auto simp: remove1_append)
  have "arena blocks slabs (map (piece s) (xs @ ys @ a # free_list (fixed_pool s))) (rest_of_slab s)
      (fixed_heap s) (slab_list (fixed_pool s))"
    using assms(1) l(1) arena_move [of _ _ "map (piece s) (xs @ ys)"] by (simp add: fixed_inv_def arena_move)
  then show ?thesis
    using assms(1) l by (auto simp: fixed_inv_def gsk_mem_pool_fixed_free_def rest_of_slab_def piece_def [abs_def])
qed

datatype fixed_request = Get | Get0 | Put nat

text \<open>A client that takes pieces and gives them back; None if it gives back a piece it does
  not hold.\<close>

fun fixed_run :: "(region list \<Rightarrow> nat \<Rightarrow> nat) \<Rightarrow> fixed_request list \<Rightarrow> nat list \<Rightarrow> fixed_state \<Rightarrow>
  (nat list \<times> fixed_state) option" where
  "fixed_run gm [] live s = Some (live, s)"
| "fixed_run gm (Get # qs) live s =
     (let (rv, s) = gsk_mem_pool_fixed_alloc gm s in fixed_run gm qs (rv # live) s)"
| "fixed_run gm (Get0 # qs) live s =
     (let (rv, s) = gsk_mem_pool_fixed_alloc0 gm s in fixed_run gm qs (rv # live) s)"
| "fixed_run gm (Put a # qs) live s =
     (if a \<in> set live then fixed_run gm qs (remove1 a live) (gsk_mem_pool_fixed_free a s) else None)"

lemma fixed_alloc_size: "piece_size (fixed_pool (snd (gsk_mem_pool_fixed_alloc gm s))) = piece_size (fixed_pool s)"
  by (simp add: gsk_mem_pool_fixed_alloc_def Let_def split: list.split)

lemma fixed_run_inv:
  assumes "fixed_inv blocks slabs live s" "malloc_ok gm" "fixed_run gm qs live s = Some (live', s')"
  shows "(\<exists>slabs'. fixed_inv blocks slabs' live' s') \<and> piece_size (fixed_pool s') = piece_size (fixed_pool s)"
  using assms
proof (induction gm qs live s arbitrary: slabs rule: fixed_run.induct)
  case (2 gm qs live s)
  obtain a t where t: "gsk_mem_pool_fixed_alloc gm s = (a, t)" by fastforce
  from fixed_alloc_inv [OF 2(2,3) t] 2(1) [OF t [symmetric] refl] 2(3,4) t fixed_alloc_size [of gm s]
  show ?case by auto
next
  case (3 gm qs live s)
  obtain a t where t: "gsk_mem_pool_fixed_alloc gm s = (a, t)" by fastforce
  define t' where "t' = t\<lparr>fixed_mem := memset (fixed_mem t) a 0 (unat (piece_size (fixed_pool t)))\<rparr>"
  have t': "gsk_mem_pool_fixed_alloc0 gm s = (a, t')" by (simp add: gsk_mem_pool_fixed_alloc0_def t t'_def)
  obtain slabs' where "fixed_inv blocks slabs' (a # live) t'"
    using fixed_alloc_inv [OF 3(2,3) t] by (auto simp: t'_def)
  from 3(1) [OF t' [symmetric] refl this 3(3)] 3(4) t t' fixed_alloc_size [of gm s] show ?case
    by (simp add: t'_def)
next
  case (4 gm a qs live s)
  then have a: "a \<in> set live" by (auto split: if_splits)
  from 4(1) [OF a fixed_free_inv [OF 4(2) a] 4(3)] 4(4) a show ?case
    by (simp add: gsk_mem_pool_fixed_free_def)
qed auto

definition fixed_start :: "nat \<Rightarrow> region list \<Rightarrow> memory \<Rightarrow> fixed_state" where
  "fixed_start sz blocks m =
     \<lparr>fixed_pool = gsk_mem_pool_fixed_construct sz, fixed_heap = blocks, fixed_mem = m\<rparr>"

lemma fixed_start_size:
  assumes "sz \<le> 2 ^ 24 - 8"
  shows "unat (piece_size (fixed_pool (fixed_start sz blocks m))) = max ((sz + 7) div 8 * 8) 8"
proof -
  have "max ((sz + 7) div 8 * 8) 8 \<le> 2 ^ 24 - 1" using assms by auto
  then have "unat (of_nat (max ((sz + 7) div 8 * 8) 8) :: u32) = max ((sz + 7) div 8 * 8) 8"
    by (intro unat_of_nat_u32) simp
  moreover have "(sz + 7) mod 2 ^ 64 = sz + 7" using assms by simp
  ultimately show ?thesis
    by (simp add: fixed_start_def gsk_mem_pool_fixed_construct_def ALIGN_def POINTER_SIZE_def add.commute [of 7 sz])
qed

lemma fixed_inv_start:
  assumes "sz \<le> 2 ^ 24 - 8"
  shows "fixed_inv blocks [] [] (fixed_start sz blocks m)"
proof -
  have "8 dvd max ((sz + 7) div 8 * 8) 8" "256 * max ((sz + 7) div 8 * 8) 8 < 2 ^ 32"
    using assms by (auto simp: max_def)
  then show ?thesis
    using arena_start [of blocks] unfolding fixed_inv_def fixed_start_size [OF assms]
    by (simp add: rest_of_slab_def fixed_start_def gsk_mem_pool_fixed_construct_def)
qed

text \<open>C10: A pool of pieces of up to \<open>2 ^ 24 - 8\<close> bytes never hands out a piece that is still
  held: in every order of taking pieces and giving them back, the pieces held are at least
  as large as asked for, aligned, apart from each other and from every block in use before,
  and inside live blocks; destroying the pool frees exactly its own blocks.\<close>

theorem fixed_pool_pieces_apart:
  assumes "malloc_ok gm" "sz \<le> 2 ^ 24 - 8" "\<forall>b \<in> set blocks. 0 < snd b"
    and "fixed_run gm qs [] (fixed_start sz blocks m) = Some (live, s)"
  shows "sz \<le> unat (piece_size (fixed_pool s)) \<and> sorted_wrt apart (map (piece s) live) \<and>
    (\<forall>a \<in> set live. a mod 8 = 0 \<and> (\<forall>b \<in> set blocks. apart (piece s a) b) \<and>
       (\<exists>q \<in> set (fixed_heap s). inside (piece s a) (payload q))) \<and>
    fixed_heap (gsk_mem_pool_fixed_destruct s) = blocks"
proof -
  obtain slabs where inv: "fixed_inv blocks slabs live s"
    and size: "piece_size (fixed_pool s) = piece_size (fixed_pool (fixed_start sz blocks m))"
    using fixed_run_inv [OF fixed_inv_start [OF assms(2)] assms(1,4)] by auto
  have psize: "unat (piece_size (fixed_pool s)) = max ((sz + 7) div 8 * 8) 8"
    using fixed_start_size [OF assms(2)] by (simp add: size)
  have ar: "arena blocks slabs (map (piece s) (live @ free_list (fixed_pool s))) (rest_of_slab s)
      (fixed_heap s) (slab_list (fixed_pool s))"
    using inv by (simp add: fixed_inv_def)
  have "sz \<le> unat (piece_size (fixed_pool s))" unfolding psize by linarith
  moreover have "sorted_wrt apart (map (piece s) live)"
    using ar by (simp add: arena_def sorted_wrt_append)
  moreover have "a mod 8 = 0 \<and> (\<forall>b \<in> set blocks. apart (piece s a) b) \<and>
      (\<exists>q \<in> set (fixed_heap s). inside (piece s a) (payload q))" if "a \<in> set live" for a
  proof -
    have a: "piece s a \<in> set (map (piece s) (live @ free_list (fixed_pool s)))" using that by simp
    have "piece s a \<noteq> (0, 0)" using psize by (simp add: piece_def)
    then have "\<exists>q \<in> set (fixed_heap s). inside (piece s a) (payload q)"
      using ar a unfolding arena_def owned_def by fastforce
    moreover have "8 dvd a" using inv that by (simp add: fixed_inv_def)
    ultimately show ?thesis using arena_spares_blocks [OF ar a] by (simp add: mod_eq_0_iff_dvd)
  qed
  moreover have "fixed_heap (gsk_mem_pool_fixed_destruct s) = blocks"
    using arena_freed [OF ar assms(3)] by (simp add: gsk_mem_pool_fixed_destruct_def)
  ultimately show ?thesis by blast
qed

theorem fixed_pool_pieces_apart_witness:
  "\<exists>s. fixed_run bump [Get, Get, Put 16, Get0] [] (fixed_start 20 [] (\<lambda>_. 0)) = Some ([16, 40], s) \<and>
     sorted_wrt apart (map (piece s) [16, 40]) \<and> fixed_heap (gsk_mem_pool_fixed_destruct s) = []"
proof -
  obtain s where s: "fixed_run bump [Get, Get, Put 16, Get0] [] (fixed_start 20 [] (\<lambda>_. 0)) = Some ([16, 40], s)"
    by (simp add: fixed_start_def gsk_mem_pool_fixed_construct_def gsk_mem_pool_fixed_alloc_def
        gsk_mem_pool_fixed_alloc0_def gsk_mem_pool_fixed_free_def ALIGN_def POINTER_SIZE_def bump_def Let_def)
  from fixed_pool_pieces_apart [OF bump_ok _ _ s] s show ?thesis by simp
qed

section \<open>Where the sizes wrap\<close>

lemma mod_wraps_below:
  fixes b x :: nat
  assumes "0 < b" "b \<le> x"
  shows "x mod b + b \<le> x"
  using assms(2) mod_less_eq_dividend [of "x - b" b] unfolding le_mod_geq [OF assms(2)] by linarith

lemma unat_sub_below:
  assumes "a < b" "b < 2 ^ 32"
  shows "unat (of_nat a - of_nat b :: u32) = 2 ^ 32 + a - b"
proof -
  have "of_nat (2 ^ 32 + a - b) = (of_nat a - of_nat b :: u32)"
    using assms by (subst of_nat_diff) simp_all
  then show ?thesis using unat_of_nat_u32 [of "2 ^ 32 + a - b"] assms by simp
qed

text \<open>C39: Two sizes of the pools wrap.  In a scratch buffer that is filled up to its last,
  incomplete word, aligning the next request subtracts more than is left: the next request,
  however large, gets memory behind the buffer, and no block is allocated for it.  A slab for
  256 pieces of \<open>2 ^ 24\<close> bytes or more is smaller than its pieces.\<close>

theorem pool_sizes_wrap:
  assumes "buf mod 8 = 0" "n < 2 ^ 32" "k \<le> n" "k mod 8 \<noteq> 0" "n - k < 8 - k mod 8" "sz \<le> 2 ^ 32 - 8"
    and "t = snd (gsk_mem_pool_alloc_unaligned gm k
      \<lparr>pool = gsk_mem_pool_construct_with_scratch_buf buf n, heap = hp, mem = m\<rparr>)"
    and "2 ^ 24 \<le> unat psize"
  shows "buf + n < fst (gsk_mem_pool_alloc gm sz t) \<and> heap (snd (gsk_mem_pool_alloc gm sz t)) = hp \<and>
    fixed_slab_size psize < 256 * unat psize"
proof -
  define d where "d = 8 - k mod 8"
  have left: "unat (of_nat n :: u32) = n" using assms(2) by (intro unat_of_nat_u32) simp
  have t: "t = \<lparr>pool = \<lparr>all_chunk_list = [], chunk = buf + k, chunk_left = of_nat n - of_nat k\<rparr>, heap = hp, mem = m\<rparr>"
    using assms(3,7) left
    by (simp add: gsk_mem_pool_alloc_unaligned_def gsk_mem_pool_construct_with_scratch_buf_def)
  have mask: "(buf + k) mod 8 = k mod 8" using mod_add_left_eq [of buf 8 k] assms(1) by simp
  have "of_nat n - of_nat k = (of_nat (n - k) :: u32)" using assms(3) by simp
  then have al: "gsk_mem_pool_align (pool t) =
      \<lparr>all_chunk_list = [], chunk = buf + k + d, chunk_left = of_nat (n - k) - of_nat d\<rparr>"
    using assms(4) mask by (simp add: t gsk_mem_pool_align_def Let_def POINTER_SIZE_def d_def)
  have "unat (of_nat (n - k) - of_nat d :: u32) = 2 ^ 32 + (n - k) - d"
    using assms(5) by (intro unat_sub_below) (auto simp: d_def)
  then have "sz \<le> unat (of_nat (n - k) - of_nat d :: u32)" using assms(6) by (simp add: d_def)
  then have "gsk_mem_pool_alloc gm sz t = (buf + k + d, t\<lparr>pool := \<lparr>all_chunk_list = [],
      chunk = buf + k + d + sz, chunk_left = of_nat (n - k) - of_nat d - of_nat sz\<rparr>\<rparr>)"
    unfolding gsk_mem_pool_alloc_def gsk_mem_pool_alloc_unaligned_def al by (simp add: Let_def)
  moreover have "n < k + d" using assms(3,5) by (simp add: d_def)
  moreover have "256 * unat psize mod 2 ^ 32 + 8 < 256 * unat psize"
    using assms(8) mod_wraps_below [of "2 ^ 32" "256 * unat psize"] by simp
  then have "fixed_slab_size psize < 256 * unat psize"
    by (simp add: fixed_slab_size_def POINTER_SIZE_def unat_word_ariths)
  ultimately show ?thesis by (simp add: t)
qed

theorem pool_sizes_wrap_witness:
  "1034 < fst (gsk_mem_pool_alloc bump 100000 (snd (gsk_mem_pool_alloc_unaligned bump 9
      \<lparr>pool = gsk_mem_pool_construct_with_scratch_buf 1024 10, heap = [], mem = (\<lambda>_. 0)\<rparr>))) \<and>
   fixed_slab_size 16777216 < 256 * unat (16777216 :: u32)"
  using pool_sizes_wrap [of 1024 10 9 100000 _ bump "[]" "\<lambda>_. 0" 16777216, OF _ _ _ _ _ _ refl] by simp

end
