(* ===== verification/Gsk_Prefix_Tree.thy ===== *)
theory Gsk_Prefix_Tree
  imports Gsk_Prelude "HOL-Library.Sublist"
begin

text \<open>
  The prefix tree of \<^verbatim>\<open>src/src/http/gskprefixtree.c\<close>, a compressed trie whose siblings form a
  list.  Strings are byte lists without their NUL, data are addresses with 0 as the null
  pointer, and a node has data when \<open>node_data\<close> is not None.  The lemmas refine the tree to a
  map from strings to data.
\<close>

section \<open>Definitions\<close>

datatype prefix_tree = Null
  | Tree (prefix_of: "u8 list") (children: prefix_tree) (next_sibling: prefix_tree) (node_data: "nat option")

text \<open>The character a pointer to the string points to, NUL at its end.\<close>

definition first_char :: "u8 list \<Rightarrow> u8" where
  "first_char str = (case str of [] \<Rightarrow> 0 | c # _ \<Rightarrow> c)"

definition tree_alloc :: "u8 list \<Rightarrow> prefix_tree" where
  "tree_alloc str = Tree str Null Null None"

definition tree_alloc_n :: "u8 list \<Rightarrow> nat \<Rightarrow> prefix_tree" where
  "tree_alloc_n str len = Tree (take len str) Null Null None"

fun tree_set_prefix :: "prefix_tree \<Rightarrow> u8 list \<Rightarrow> prefix_tree" where
  "tree_set_prefix Null str = Null"
| "tree_set_prefix (Tree tp ch nx dt) str = Tree str ch nx dt"

fun set_links :: "prefix_tree \<Rightarrow> prefix_tree \<Rightarrow> prefix_tree \<Rightarrow> prefix_tree" where
  "set_links Null ch nx = Null"
| "set_links (Tree tp _ _ dt) ch nx = Tree tp ch nx dt"

fun set_data :: "prefix_tree \<Rightarrow> nat \<Rightarrow> prefix_tree" where
  "set_data Null d = Null"
| "set_data (Tree tp ch nx _) d = Tree tp ch nx (Some d)"

text \<open>What is left of the two strings behind their common part.\<close>

fun skip_common :: "u8 list \<Rightarrow> u8 list \<Rightarrow> u8 list \<times> u8 list" where
  "skip_common (p # ps) (t # ts) = (if p = t then skip_common ps ts else (p # ps, t # ts))"
| "skip_common ps ts = (ps, ts)"

definition data_pointer :: "nat option \<Rightarrow> nat" where
  "data_pointer dt = (case dt of None \<Rightarrow> 0 | Some d \<Rightarrow> d)"

text \<open>The loop of \<open>gsk_prefix_tree_insert\<close>: the tree that \<open>tree\<close> points to, and the tree that
  is there afterwards.  Behind a mismatch the loop goes on at the sibling link of \<open>cur\<close>,
  which has just been set to NULL.\<close>

fun insert_loop :: "prefix_tree \<Rightarrow> u8 list \<Rightarrow> nat \<Rightarrow> nat \<times> prefix_tree" where
  "insert_loop Null pre data = (0, set_data (tree_alloc pre) data)"
| "insert_loop (Tree tp ch nx dt) pre data =
     (if first_char pre = first_char tp then
        (let (p_at, tp_at) = skip_common pre tp;
             n = length pre - length p_at
         in if p_at = [] \<and> tp_at = [] then (data_pointer dt, Tree tp ch nx (Some data))
            else if tp_at = [] then
              (let (rv, ch') = insert_loop ch p_at data in (rv, Tree tp ch' nx dt))
            else if p_at = [] then
              (0, set_data (set_links (tree_alloc_n pre n)
                     (tree_set_prefix (Tree tp ch Null dt) tp_at) nx) data)
            else
              (let (rv, new) = insert_loop Null p_at data
               in (rv, set_links (tree_alloc_n pre n) (tree_set_prefix (Tree tp ch new dt) tp_at) nx)))
      else
        (let (rv, nx') = insert_loop nx pre data in (rv, Tree tp ch nx' dt)))"

definition gsk_prefix_tree_insert :: "prefix_tree \<Rightarrow> u8 list \<Rightarrow> nat \<Rightarrow> nat \<times> prefix_tree" where
  "gsk_prefix_tree_insert tree pre data = (if first_char pre = 0 then (0, tree) else insert_loop tree pre data)"

text \<open>The two nested loops of the lookups: what is left of the string, and the data found.\<close>

fun lookup_loop :: "prefix_tree \<Rightarrow> u8 list \<Rightarrow> nat \<Rightarrow> u8 list \<times> nat" where
  "lookup_loop Null str found = (str, found)"
| "lookup_loop (Tree tp ch nx dt) str found =
     (if str = [] then (str, found)
      else if prefix tp str then
        lookup_loop ch (drop (length tp) str) (case dt of None \<Rightarrow> found | Some d \<Rightarrow> d)
      else lookup_loop nx str found)"

definition gsk_prefix_tree_lookup :: "prefix_tree \<Rightarrow> u8 list \<Rightarrow> nat" where
  "gsk_prefix_tree_lookup tree str = snd (lookup_loop tree str 0)"

definition gsk_prefix_tree_lookup_exact :: "prefix_tree \<Rightarrow> u8 list \<Rightarrow> nat" where
  "gsk_prefix_tree_lookup_exact tree str =
     (let (rest, found) = lookup_loop tree str 0 in if rest \<noteq> [] then 0 else found)"

fun lookup_all_loop :: "prefix_tree \<Rightarrow> u8 list \<Rightarrow> nat list \<Rightarrow> nat list" where
  "lookup_all_loop Null str rv = rv"
| "lookup_all_loop (Tree tp ch nx dt) str rv =
     (if str = [] then rv
      else if prefix tp str then
        lookup_all_loop ch (drop (length tp) str) (case dt of None \<Rightarrow> rv | Some d \<Rightarrow> d # rv)
      else lookup_all_loop nx str rv)"

definition gsk_prefix_tree_lookup_all :: "prefix_tree \<Rightarrow> u8 list \<Rightarrow> nat list" where
  "gsk_prefix_tree_lookup_all tree str = lookup_all_loop tree str []"

fun gsk_prefix_tree_foreach :: "prefix_tree \<Rightarrow> (nat \<Rightarrow> 's \<Rightarrow> 's) \<Rightarrow> 's \<Rightarrow> 's" where
  "gsk_prefix_tree_foreach Null f s = s"
| "gsk_prefix_tree_foreach (Tree tp ch nx dt) f s =
     gsk_prefix_tree_foreach nx f
       (gsk_prefix_tree_foreach ch f (case dt of None \<Rightarrow> s | Some d \<Rightarrow> f d s))"

text \<open>The strings that are freed; the nodes are not.\<close>

fun gsk_prefix_tree_destroy :: "prefix_tree \<Rightarrow> u8 list list" where
  "gsk_prefix_tree_destroy Null = []"
| "gsk_prefix_tree_destroy (Tree tp ch nx dt) = tp # gsk_prefix_tree_destroy ch @ gsk_prefix_tree_destroy nx"

section \<open>The tree as a map\<close>

fun tree_map :: "prefix_tree \<Rightarrow> u8 list \<Rightarrow> nat option" where
  "tree_map Null k = None"
| "tree_map (Tree tp ch nx dt) k =
     (if prefix tp k then (if k = tp then dt else tree_map ch (drop (length tp) k)) else tree_map nx k)"

fun heads :: "prefix_tree \<Rightarrow> u8 set" where
  "heads Null = {}"
| "heads (Tree tp ch nx dt) = {hd tp} \<union> heads nx"

text \<open>Siblings start with different characters, and no prefix is empty or contains NUL.\<close>

fun tree_wf :: "prefix_tree \<Rightarrow> bool" where
  "tree_wf Null = True"
| "tree_wf (Tree tp ch nx dt) \<longleftrightarrow> tp \<noteq> [] \<and> 0 \<notin> set tp \<and> hd tp \<notin> heads nx \<and> tree_wf ch \<and> tree_wf nx"

lemma tree_map_Nil [simp]: "tree_wf t \<Longrightarrow> tree_map t [] = None"
  by (induction t) auto

lemma tree_map_other_head: "tree_wf t \<Longrightarrow> hd k \<notin> heads t \<Longrightarrow> tree_map t k = None"
  by (induction t) (auto simp: prefix_def)

lemma skip_common_split:
  "skip_common ps ts = (p, t) \<Longrightarrow>
    \<exists>c. ps = c @ p \<and> ts = c @ t \<and> (p = [] \<or> t = [] \<or> hd p \<noteq> hd t) \<and>
      (ps \<noteq> [] \<and> ts \<noteq> [] \<and> hd ps = hd ts \<longrightarrow> c \<noteq> [])"
proof (induction ps ts rule: skip_common.induct)
  case (1 p ps t ts)
  then show ?case
  proof (cases "p = t")
    case True
    with 1 obtain c where "ps = c @ fst (skip_common ps ts)" "ts = c @ snd (skip_common ps ts)"
      "fst (skip_common ps ts) = [] \<or> snd (skip_common ps ts) = [] \<or>
         hd (fst (skip_common ps ts)) \<noteq> hd (snd (skip_common ps ts))"
      by (metis fst_conv snd_conv skip_common.simps(1))
    with True 1(2) show ?thesis by (intro exI [of _ "t # c"]) auto
  qed auto
qed auto

lemma first_char_hd: "s \<noteq> [] \<Longrightarrow> first_char s = hd s"
  by (cases s) (simp_all add: first_char_def)

lemma insert_loop_other:
  assumes "tp \<noteq> []" "pre \<noteq> []" "hd pre \<noteq> hd tp"
  shows "insert_loop (Tree tp ch nx dt) pre d = (let (rv, nx') = insert_loop nx pre d in (rv, Tree tp ch nx' dt))"
  using assms by (simp add: first_char_hd)

lemma insert_loop_same:
  assumes "tp \<noteq> []" "pre \<noteq> []" "hd pre = hd tp"
  obtains c p_at tp_at where "pre = c @ p_at" "tp = c @ tp_at" "c \<noteq> []"
    "p_at = [] \<or> tp_at = [] \<or> hd p_at \<noteq> hd tp_at"
    "insert_loop (Tree tp ch nx dt) pre d =
       (if p_at = [] \<and> tp_at = [] then (data_pointer dt, Tree tp ch nx (Some d))
        else if tp_at = [] then (let (rv, ch') = insert_loop ch p_at d in (rv, Tree tp ch' nx dt))
        else if p_at = [] then (0, Tree c (Tree tp_at ch Null dt) nx (Some d))
        else (0, Tree c (Tree tp_at ch (Tree p_at Null Null (Some d)) dt) nx None))"
proof -
  obtain p_at tp_at where s: "skip_common pre tp = (p_at, tp_at)" by fastforce
  obtain c where c: "pre = c @ p_at" "tp = c @ tp_at" "c \<noteq> []" "p_at = [] \<or> tp_at = [] \<or> hd p_at \<noteq> hd tp_at"
    using skip_common_split [OF s] assms by auto
  show thesis
    by (rule that [OF c]) (use assms s c in \<open>simp add: first_char_hd tree_alloc_n_def tree_alloc_def\<close>)
qed

lemma insert_loop_heads:
  "pre \<noteq> [] \<Longrightarrow> tree_wf t \<Longrightarrow> heads (snd (insert_loop t pre d)) = insert (hd pre) (heads t)"
proof (induction t)
  case (Tree tp ch nx dt)
  then have tp: "tp \<noteq> []" by simp
  show ?case
  proof (cases "hd pre = hd tp")
    case True
    obtain c p_at tp_at where c: "pre = c @ p_at" "tp = c @ tp_at" "c \<noteq> []"
      and ins: "insert_loop (Tree tp ch nx dt) pre d =
       (if p_at = [] \<and> tp_at = [] then (data_pointer dt, Tree tp ch nx (Some d))
        else if tp_at = [] then (let (rv, ch') = insert_loop ch p_at d in (rv, Tree tp ch' nx dt))
        else if p_at = [] then (0, Tree c (Tree tp_at ch Null dt) nx (Some d))
        else (0, Tree c (Tree tp_at ch (Tree p_at Null Null (Some d)) dt) nx None))"
      using insert_loop_same [OF tp Tree.prems(1) True] by metis
    show ?thesis unfolding ins using c True by (simp split: prod.split)
  next
    case False
    have "snd (insert_loop (Tree tp ch nx dt) pre d) = Tree tp ch (snd (insert_loop nx pre d)) dt"
      unfolding insert_loop_other [OF tp Tree.prems(1) False] by (simp split: prod.split)
    then show ?thesis using Tree.IH(2) Tree.prems by auto
  qed
qed (simp add: tree_alloc_def)

text \<open>The four ways a node is changed, on the map it stands for.\<close>

lemma tree_map_split_node:
  assumes "tree_wf (Tree (c @ t) ch nx dt)" "c \<noteq> []" "t \<noteq> []"
  shows "tree_map (Tree c (Tree t ch Null dt) nx None) = tree_map (Tree (c @ t) ch nx dt)"
proof
  fix k
  show "tree_map (Tree c (Tree t ch Null dt) nx None) k = tree_map (Tree (c @ t) ch nx dt) k"
  proof (cases "prefix c k")
    case True
    then obtain r where k: "k = c @ r" by (auto simp: prefix_def)
    have "hd k \<notin> heads nx" using assms k by simp
    then have "tree_map nx k = None" using assms by (intro tree_map_other_head) auto
    then show ?thesis using assms k by (auto simp: prefix_def)
  next
    case False
    then have "\<not> prefix (c @ t) k" by (auto simp: prefix_def)
    then show ?thesis using False by simp
  qed
qed

lemma tree_map_set_data: "tree_map (Tree tp ch nx (Some d)) = (tree_map (Tree tp ch nx dt))(tp \<mapsto> d)"
  by (auto simp: fun_eq_iff)

lemma tree_map_child:
  assumes "tree_map ch' = (tree_map ch)(p \<mapsto> d)" "p \<noteq> []"
  shows "tree_map (Tree tp ch' nx dt) = (tree_map (Tree tp ch nx dt))(tp @ p \<mapsto> d)"
  using assms by (auto simp: fun_eq_iff prefix_def)

lemma tree_map_sibling:
  assumes "tree_map nx' = (tree_map nx)(p \<mapsto> d)" "\<not> prefix tp p"
  shows "tree_map (Tree tp ch nx' dt) = (tree_map (Tree tp ch nx dt))(p \<mapsto> d)"
  using assms by (auto simp: fun_eq_iff)

lemma tree_map_leaf: "tree_map (Tree p Null Null (Some d)) = (\<lambda>_. None)(p \<mapsto> d)"
  by (auto simp: fun_eq_iff)

text \<open>The branches of an insertion at a node with the same first character.\<close>

lemma insert_same_correct:
  assumes IH: "\<And>p rv t'. tree_wf ch \<Longrightarrow> p \<noteq> [] \<Longrightarrow> 0 \<notin> set p \<Longrightarrow> insert_loop ch p d = (rv, t') \<Longrightarrow>
      tree_wf t' \<and> tree_map t' = (tree_map ch)(p \<mapsto> d) \<and> rv = data_pointer (tree_map ch p)"
    and wf: "tree_wf (Tree tp ch nx dt)" and nul: "0 \<notin> set pre"
    and ins: "insert_loop (Tree tp ch nx dt) pre d = (rv, t')"
    and c: "pre = c @ p_at" "tp = c @ tp_at" "c \<noteq> []" "p_at = [] \<or> tp_at = [] \<or> hd p_at \<noteq> hd tp_at"
    and eq: "insert_loop (Tree tp ch nx dt) pre d =
       (if p_at = [] \<and> tp_at = [] then (data_pointer dt, Tree tp ch nx (Some d))
        else if tp_at = [] then (let (rv, ch') = insert_loop ch p_at d in (rv, Tree tp ch' nx dt))
        else if p_at = [] then (0, Tree c (Tree tp_at ch Null dt) nx (Some d))
        else (0, Tree c (Tree tp_at ch (Tree p_at Null Null (Some d)) dt) nx None))"
  shows "tree_wf t' \<and> tree_map t' = (tree_map (Tree tp ch nx dt))(pre \<mapsto> d) \<and>
    rv = data_pointer (tree_map (Tree tp ch nx dt) pre)"
proof -
  consider "p_at = []" "tp_at = []" | "p_at \<noteq> []" "tp_at = []" | "p_at = []" "tp_at \<noteq> []" | "p_at \<noteq> []" "tp_at \<noteq> []"
    by blast
  then show ?thesis
  proof cases
    case 1
    then show ?thesis using ins wf c unfolding eq by (auto simp: fun_eq_iff)
  next
    case 2
    obtain ch' where ch': "insert_loop ch p_at d = (rv, ch')" "t' = Tree tp ch' nx dt"
      using ins 2 unfolding eq by (auto split: prod.splits)
    with IH [OF _ 2(1) _ ch'(1)] wf nul c
    have "tree_wf ch'" "tree_map ch' = (tree_map ch)(p_at \<mapsto> d)" "rv = data_pointer (tree_map ch p_at)" by auto
    then show ?thesis using wf c ch'(2) 2 tree_map_child [of ch' ch p_at d tp nx dt] by simp
  next
    case 3
    then have t': "t' = Tree c (Tree tp_at ch Null dt) nx (Some d)" "rv = 0" using ins unfolding eq by auto
    have "tree_map (Tree tp ch nx dt) pre = None"
      using 3 c wf tree_map_other_head [of nx c] by (auto simp: prefix_def)
    then show ?thesis
      using t' 3 c wf tree_map_split_node [of c tp_at ch nx dt] tree_map_set_data [of c "Tree tp_at ch Null dt" nx d None]
      by (simp add: data_pointer_def)
  next
    case 4
    then have t': "t' = Tree c (Tree tp_at ch (Tree p_at Null Null (Some d)) dt) nx None" "rv = 0"
      and ne: "hd p_at \<noteq> hd tp_at" using ins c(4) unfolding eq by auto
    have np: "\<not> prefix tp_at p_at" using ne 4 by (auto simp: prefix_def)
    have "tree_map (Tree tp_at ch (Tree p_at Null Null (Some d)) dt) = (tree_map (Tree tp_at ch Null dt))(p_at \<mapsto> d)"
      by (rule tree_map_sibling [OF _ np]) (auto simp: fun_eq_iff)
    from tree_map_child [OF this 4(1), of c nx None]
    have "tree_map t' = (tree_map (Tree tp ch nx dt))(pre \<mapsto> d)"
      using t' c wf 4 tree_map_split_node [of c tp_at ch nx dt] by simp
    moreover have "tree_map (Tree tp ch nx dt) pre = None"
      using 4 c wf np tree_map_other_head [of nx pre] by (auto simp: prefix_def)
    ultimately show ?thesis using t' 4 c wf ne nul by (simp add: data_pointer_def)
  qed
qed

text \<open>Insertion is an update of the map; it returns the data that was there.\<close>

lemma insert_loop_correct:
  assumes "tree_wf t" "pre \<noteq> []" "0 \<notin> set pre" "insert_loop t pre d = (rv, t')"
  shows "tree_wf t' \<and> tree_map t' = (tree_map t)(pre \<mapsto> d) \<and> rv = data_pointer (tree_map t pre)"
  using assms
proof (induction t arbitrary: pre rv t')
  case Null
  then show ?case by (auto simp: tree_alloc_def data_pointer_def fun_eq_iff)
next
  case (Tree tp ch nx dt)
  note prems = Tree.prems
  have tp: "tp \<noteq> []" and wf: "tree_wf ch" "tree_wf nx" "hd tp \<notin> heads nx" "0 \<notin> set tp"
    using prems(1) by auto
  show ?case
  proof (cases "hd pre = hd tp")
    case False
    obtain nx' where nx': "insert_loop nx pre d = (rv, nx')" "t' = Tree tp ch nx' dt"
      using prems(4) unfolding insert_loop_other [OF tp prems(2) False] by (auto split: prod.splits)
    have "\<not> prefix tp pre" using False tp by (auto simp: prefix_def)
    moreover have "heads nx' = insert (hd pre) (heads nx)"
      using insert_loop_heads [OF prems(2) wf(2), of d] nx' by simp
    moreover have IH: "tree_wf nx'" "tree_map nx' = (tree_map nx)(pre \<mapsto> d)" "rv = data_pointer (tree_map nx pre)"
      using Tree.IH(2) [OF wf(2) prems(2,3) nx'(1)] by blast+
    ultimately show ?thesis
      using tree_map_sibling [OF IH(2), of tp ch dt] nx'(2) tp wf False by auto
  next
    case True
    show ?thesis by (rule insert_loop_same [OF tp prems(2) True, of ch nx dt d])
      (rule insert_same_correct [OF Tree.IH(1) prems(1,3,4)])
  qed
qed

section \<open>Lookups\<close>

text \<open>The data of all keys that are prefixes of a string, the shortest first.\<close>

definition matches :: "(u8 list \<Rightarrow> nat option) \<Rightarrow> u8 list \<Rightarrow> nat list" where
  "matches m str = List.map_filter m (prefixes str)"

lemma map_filter_none: "(\<And>x. x \<in> set xs \<Longrightarrow> f x = None) \<Longrightarrow> List.map_filter f xs = []"
  by (auto simp: map_filter_def filter_empty_conv)

lemma map_filter_agree: "(\<And>x. x \<in> set xs \<Longrightarrow> f x = g x) \<Longrightarrow> List.map_filter f xs = List.map_filter g xs"
  by (induction xs) (auto simp: List.map_filter_simps split: option.splits)

lemma map_filter_append: "List.map_filter f (xs @ ys) = List.map_filter f xs @ List.map_filter f ys"
  by (simp add: map_filter_def)

lemma map_filter_comp: "List.map_filter f (map g xs) = List.map_filter (f \<circ> g) xs"
  by (induction xs) (auto simp: List.map_filter_simps split: option.splits)

text \<open>Below the end of a node's prefix there is no key.\<close>

lemma tree_map_inside_prefix:
  assumes "tree_wf (Tree tp ch nx dt)" "prefix k tp" "k \<noteq> tp"
  shows "tree_map (Tree tp ch nx dt) k = None"
proof (cases "k = []")
  case False
  then have "hd k = hd tp" using assms(2) by (auto simp: prefix_def)
  then have "tree_map nx k = None" using assms(1) by (intro tree_map_other_head) auto
  then show ?thesis using assms by (auto dest: prefix_order.antisym)
qed (use assms in auto)

lemma matches_node:
  assumes "tree_wf (Tree tp ch nx dt)"
  shows "matches (tree_map (Tree tp ch nx dt)) (tp @ r) =
    (case dt of None \<Rightarrow> [] | Some d \<Rightarrow> [d]) @ matches (tree_map ch) r"
proof -
  let ?m = "tree_map (Tree tp ch nx dt)"
  obtain c x where tp: "tp = c @ [x]" using assms by (cases tp rule: rev_cases) auto
  obtain ps where ps: "prefixes r = [] # ps" by (cases r) simp_all
  have "List.map_filter ?m (prefixes c) = []"
    by (rule map_filter_none) (use assms tp in \<open>auto intro!: tree_map_inside_prefix simp del: tree_map.simps\<close>)
  moreover have "List.map_filter ?m (map (\<lambda>k. tp @ k) ps) = List.map_filter (tree_map ch) ps"
    unfolding map_filter_comp
  proof (rule map_filter_agree)
    fix k
    assume "k \<in> set ps"
    moreover have "distinct (prefixes r)" by (rule distinct_prefixes)
    ultimately have "k \<noteq> []" using ps by auto
    then show "(?m \<circ> (\<lambda>k. tp @ k)) k = tree_map ch k" by simp
  qed
  moreover have "prefixes (tp @ r) = prefixes c @ [tp] @ map (\<lambda>k. tp @ k) ps"
    using ps by (simp add: prefixes_append tp)
  moreover have "List.map_filter (tree_map ch) (prefixes r) = List.map_filter (tree_map ch) ps"
    using ps assms by (simp add: List.map_filter_simps)
  moreover have "?m tp = dt" by simp
  ultimately show ?thesis
    by (cases dt) (simp_all add: matches_def map_filter_append List.map_filter_simps del: tree_map.simps)
qed

lemma matches_sibling:
  assumes "\<not> prefix tp str"
  shows "matches (tree_map (Tree tp ch nx dt)) str = matches (tree_map nx) str"
  unfolding matches_def
proof (rule map_filter_agree)
  fix k
  assume "k \<in> set (prefixes str)"
  then have "\<not> prefix tp k" using assms prefix_order.trans by auto
  then show "tree_map (Tree tp ch nx dt) k = tree_map nx k" by simp
qed

lemma lookup_all_loop_matches: "tree_wf t \<Longrightarrow> lookup_all_loop t str rv = rev (matches (tree_map t) str) @ rv"
proof (induction t arbitrary: str rv)
  case Null
  then show ?case by (simp add: matches_def map_filter_none)
next
  case (Tree tp ch nx dt)
  show ?case
  proof (cases "prefix tp str")
    case True
    then obtain r where "str = tp @ r" by (auto simp: prefix_def)
    then show ?thesis
      using Tree.IH Tree.prems matches_node [OF Tree.prems, of r]
      by (auto simp del: tree_map.simps split: option.splits)
  next
    case False
    have "lookup_all_loop (Tree tp ch nx dt) str rv = rev (matches (tree_map nx) str) @ rv"
    proof (cases "str = []")
      case True
      then show ?thesis using Tree.prems by (simp add: matches_def List.map_filter_simps)
    next
      case False
      then show ?thesis using \<open>\<not> prefix tp str\<close> Tree.IH(2) Tree.prems by simp
    qed
    then show ?thesis by (simp only: matches_sibling [OF False])
  qed
qed

lemma lookup_loop_found: "snd (lookup_loop t str found) = hd (lookup_all_loop t str [found])"
proof -
  have "snd (lookup_loop t str found) = hd (lookup_all_loop t str (found # fs))" for fs
    by (induction t str found arbitrary: fs rule: lookup_loop.induct) (auto split: option.splits)
  then show ?thesis .
qed

text \<open>When the string is used up, the last node that was passed is the one of the string.\<close>

lemma lookup_loop_exact: "tree_wf t \<Longrightarrow> str \<noteq> [] \<Longrightarrow> tree_map t str = Some d \<Longrightarrow> lookup_loop t str found = ([], d)"
proof (induction t arbitrary: str found)
  case (Tree tp ch nx dt)
  show ?case
  proof (cases "prefix tp str")
    case True
    then obtain r where r: "str = tp @ r" by (auto simp: prefix_def)
    show ?thesis
    proof (cases "r = []")
      case True
      then show ?thesis using Tree.prems r by (cases ch) auto
    next
      case False
      then show ?thesis using Tree.prems r Tree.IH(1) [of r] by auto
    qed
  qed (use Tree in auto)
qed simp

section \<open>Properties\<close>

text \<open>A tree built by insertions.\<close>

definition insert_all :: "(u8 list \<times> nat) list \<Rightarrow> prefix_tree" where
  "insert_all kvs = foldl (\<lambda>t (k, d). snd (gsk_prefix_tree_insert t k d)) Null kvs"

definition key_ok :: "u8 list \<Rightarrow> bool" where
  "key_ok k \<longleftrightarrow> k \<noteq> [] \<and> 0 \<notin> set k"

lemma insert_correct:
  assumes "tree_wf t" "key_ok k"
  shows "tree_wf (snd (gsk_prefix_tree_insert t k d))"
    "tree_map (snd (gsk_prefix_tree_insert t k d)) = (tree_map t)(k \<mapsto> d)"
    "fst (gsk_prefix_tree_insert t k d) = data_pointer (tree_map t k)"
proof -
  have "first_char k \<noteq> 0" using assms(2) by (cases k) (auto simp: key_ok_def first_char_def)
  then have "gsk_prefix_tree_insert t k d = insert_loop t k d" by (simp add: gsk_prefix_tree_insert_def)
  moreover obtain rv t' where "insert_loop t k d = (rv, t')" by fastforce
  ultimately show "tree_wf (snd (gsk_prefix_tree_insert t k d))"
    "tree_map (snd (gsk_prefix_tree_insert t k d)) = (tree_map t)(k \<mapsto> d)"
    "fst (gsk_prefix_tree_insert t k d) = data_pointer (tree_map t k)"
    using insert_loop_correct [OF assms(1), of k d rv t'] assms(2) by (auto simp: key_ok_def)
qed

lemma insert_all_snoc: "insert_all (kvs @ [(k, d)]) = snd (gsk_prefix_tree_insert (insert_all kvs) k d)"
  by (simp add: insert_all_def)

lemma insert_all_correct:
  "list_all (key_ok \<circ> fst) kvs \<Longrightarrow> tree_wf (insert_all kvs) \<and> tree_map (insert_all kvs) = map_of (rev kvs)"
proof (induction kvs rule: rev_induct)
  case Nil
  then show ?case by (auto simp: insert_all_def)
next
  case (snoc kd kvs)
  obtain k d where kd: "kd = (k, d)" by fastforce
  show ?case
    using snoc insert_correct [of "insert_all kvs" k d] by (simp add: kd insert_all_snoc)
qed

text \<open>C15: A prefix tree built by any insertions refines the map from keys to the data inserted
  last: inserting returns the data it replaces, the plain lookup finds the data of the
  longest key that is a prefix of the string (NULL if there is none), the lookup of all finds
  the data of all such keys, the longest first, and the exact lookup finds every key.\<close>

theorem prefix_tree_refines_map:
  assumes "list_all (key_ok \<circ> fst) kvs" "key_ok k"
  defines "t \<equiv> insert_all kvs" and "m \<equiv> map_of (rev kvs)"
  shows "fst (gsk_prefix_tree_insert t k d) = data_pointer (m k) \<and>
    gsk_prefix_tree_lookup_all t str = rev (List.map_filter m (prefixes str)) \<and>
    gsk_prefix_tree_lookup t str = last (0 # List.map_filter m (prefixes str)) \<and>
    (case m k of None \<Rightarrow> True | Some x \<Rightarrow> gsk_prefix_tree_lookup_exact t k = x)"
proof -
  have t: "tree_wf t" "tree_map t = m" using insert_all_correct [OF assms(1)] by (simp_all add: t_def m_def)
  have "gsk_prefix_tree_lookup_all t str = rev (List.map_filter m (prefixes str))"
    using lookup_all_loop_matches [OF t(1), of str "[]"] t(2)
    by (simp add: gsk_prefix_tree_lookup_all_def matches_def)
  moreover have "gsk_prefix_tree_lookup t str = hd (rev (0 # List.map_filter m (prefixes str)))"
    using lookup_loop_found [of t str 0] lookup_all_loop_matches [OF t(1), of str "[0]"] t(2)
    by (simp add: gsk_prefix_tree_lookup_def matches_def)
  then have "gsk_prefix_tree_lookup t str = last (0 # List.map_filter m (prefixes str))"
    by (simp only: hd_rev)
  moreover have "gsk_prefix_tree_lookup_exact t k = x" if "m k = Some x" for x
    using lookup_loop_exact [OF t(1), of k x 0] assms(2) that t(2)
    by (simp add: gsk_prefix_tree_lookup_exact_def key_ok_def)
  ultimately show ?thesis
    using insert_correct(3) [OF t(1) assms(2)] t(2) by (simp split: option.split)
qed

theorem prefix_tree_refines_map_witness:
  "gsk_prefix_tree_lookup (insert_all [([97], 1), ([97, 98, 99], 2), ([97, 98, 100], 3)]) [97, 98, 99, 120] = 2 \<and>
   gsk_prefix_tree_lookup_all (insert_all [([97], 1), ([97, 98, 99], 2), ([97, 98, 100], 3)]) [97, 98, 99, 120] = [2, 1]"
  using prefix_tree_refines_map [of "[([97], 1), ([97, 98, 99], 2), ([97, 98, 100], 3)]" "[97]" 0 "[97, 98, 99, 120]"]
  by (simp add: key_ok_def List.map_filter_simps)

text \<open>The exact lookup is not exact.  It returns the data of the longest key that is a
  prefix of the string whenever the nodes of the tree use the string up, also at a node
  without data: when a key splits at the end of the string, and a shorter key has data, the
  string is taken for the shorter key although it was never inserted.\<close>

theorem prefix_exact_finds_shorter_key:
  fixes x y z :: nat
  assumes "key_ok a" "key_ok b" "key_ok (c # cs)" "key_ok (e # es)" "c \<noteq> e"
  defines "t \<equiv> insert_all [(a, x), (a @ b @ c # cs, y), (a @ b @ e # es, z)]"
  shows "tree_map t (a @ b) = None \<and> gsk_prefix_tree_lookup_exact t (a @ b) = x"
proof -
  have "skip_common (b @ e # es) (b @ c # cs) = (e # es, c # cs)" using assms(5) by (induction b) auto
  moreover have "skip_common (a @ r) a = (r, [])" for r by (induction a) auto
  moreover have "first_char (a @ r) = hd a" "first_char a = hd a" "hd a \<noteq> 0" for r
    using assms(1) by (cases a; auto simp: key_ok_def first_char_def)+
  moreover have "first_char (b @ r) = hd b" for r
    using assms(2) by (cases b) (auto simp: key_ok_def first_char_def)
  ultimately have "t = Tree a (Tree b (Tree (c # cs) Null (Tree (e # es) Null Null (Some z)) (Some y)) Null None) Null (Some x)"
    using assms(1,2) unfolding t_def
    by (simp add: insert_all_def gsk_prefix_tree_insert_def tree_alloc_def tree_alloc_n_def key_ok_def)
  then show ?thesis
    using assms(1,2) by (auto simp: key_ok_def gsk_prefix_tree_lookup_exact_def)
qed

theorem prefix_exact_finds_shorter_key_witness:
  "gsk_prefix_tree_lookup_exact (insert_all [([97], 1), ([97, 98, 99], 2), ([97, 98, 100], 3)]) [97, 98] = 1"
  using prefix_exact_finds_shorter_key [of "[97]" "[98]" 99 "[]" 100 "[]" 1 2 3] by (simp add: key_ok_def)

end
