(* ===== verification/Gsk_Log_Ring.thy ===== *)
theory Gsk_Log_Ring
  imports Gsk_Prelude "HOL-Library.Monad_Syntax"
begin

text \<open>
  The ring buffer of log lines, \<^verbatim>\<open>src/src/gsklogringbuffer.c\<close>.  Positions are 32-bit words, the
  buffer is a block of memory, and a failed \<open>g_assert\<close> is None.  The lemmas show that the
  buffer holds the newest lines that fit, and that adding a line always returns.
\<close>

section \<open>Definitions\<close>

record log_ring_buffer =
  buffer_alloced :: u32
  buffer :: memory
  read_pos :: u32
  amount_buffered :: u32

abbreviation NEWLINE :: u8 where "NEWLINE \<equiv> 10"

text \<open>\<open>m\<close> is what the new block happens to contain.\<close>

definition gsk_log_ring_buffer_new :: "nat \<Rightarrow> memory \<Rightarrow> log_ring_buffer" where
  "gsk_log_ring_buffer_new sz m =
     \<lparr>buffer_alloced = of_nat sz, buffer = m, read_pos = 0, amount_buffered = 0\<rparr>"

text \<open>The length of the oldest line without its newline.\<close>

definition oldest_line_len :: "log_ring_buffer \<Rightarrow> u32 option" where
  "oldest_line_len b =
     (if read_pos b + amount_buffered b > buffer_alloced b then
        (let p1 = buffer_alloced b - read_pos b;
             p2 = amount_buffered b - p1
         in case memchr NEWLINE (mem_bytes (buffer b) (unat (read_pos b)) (unat p1)) of
              Some found \<Rightarrow> Some (of_nat found)
            | None \<Rightarrow>
                (case memchr NEWLINE (mem_bytes (buffer b) 0 (unat p2)) of
                   Some found \<Rightarrow> Some (of_nat found + p1)
                 | None \<Rightarrow> None))
      else
        (case memchr NEWLINE (mem_bytes (buffer b) (unat (read_pos b)) (unat (amount_buffered b))) of
           Some found \<Rightarrow> Some (of_nat found)
         | None \<Rightarrow> None))"

definition remove_start :: "u32 \<Rightarrow> log_ring_buffer \<Rightarrow> log_ring_buffer" where
  "remove_start line_len b =
     (let pos = read_pos b + line_len
      in b\<lparr>read_pos := (if pos \<ge> buffer_alloced b then pos - buffer_alloced b else pos),
           amount_buffered := amount_buffered b - line_len\<rparr>)"

text \<open>The loop that removes lines until the new one fits.\<close>

partial_function (option) make_room :: "u32 \<Rightarrow> log_ring_buffer \<Rightarrow> log_ring_buffer option" where
  "make_room app_len b =
     (if amount_buffered b + app_len > buffer_alloced b then
        oldest_line_len b \<bind> (\<lambda>line_len. make_room app_len (remove_start (line_len + 1) b))
      else Some b)"

text \<open>The text is copied in one or two pieces; the result is the block and the position of the
  newline.\<close>

definition write_line :: "u8 list \<Rightarrow> u32 \<Rightarrow> u32 \<Rightarrow> log_ring_buffer \<Rightarrow> memory \<times> u32" where
  "write_line line len write_pos b =
     (if write_pos + len > buffer_alloced b then
        (let p1 = buffer_alloced b - write_pos;
             p2 = len - p1
         in (memcpy (memcpy (buffer b) (unat write_pos) line (unat p1)) 0 (drop (unat p1) line) (unat p2), p2))
      else if write_pos + len = buffer_alloced b then
        (memcpy (buffer b) (unat write_pos) line (unat len), 0)
      else (memcpy (buffer b) (unat write_pos) line (unat len), write_pos + len))"

definition gsk_log_ring_buffer_add :: "log_ring_buffer \<Rightarrow> u8 list \<Rightarrow> log_ring_buffer option" where
  "gsk_log_ring_buffer_add b line =
     (let line_len = of_nat (length line);
          clamped_line_len = (if buffer_alloced b div 2 < line_len then buffer_alloced b div 2 else line_len);
          app_len = clamped_line_len + 1
      in make_room app_len b \<bind> (\<lambda>b.
         let write_pos = amount_buffered b + read_pos b;
             write_pos = (if write_pos \<ge> buffer_alloced b then write_pos - buffer_alloced b else write_pos);
             (m, write_pos) = write_line line clamped_line_len write_pos b
         in if write_pos < buffer_alloced b
            then Some (b\<lparr>buffer := m(unat write_pos := NEWLINE), amount_buffered := amount_buffered b + app_len\<rparr>)
            else None))"

text \<open>The string with its NUL.\<close>

definition gsk_log_ring_buffer_get :: "log_ring_buffer \<Rightarrow> u8 list" where
  "gsk_log_ring_buffer_get b =
     (if amount_buffered b + read_pos b > buffer_alloced b then
        (let p1 = buffer_alloced b - read_pos b;
             p2 = amount_buffered b - p1
         in mem_bytes (buffer b) (unat (read_pos b)) (unat p1) @ mem_bytes (buffer b) 0 (unat p2))
      else mem_bytes (buffer b) (unat (read_pos b)) (unat (amount_buffered b))) @ [0]"

section \<open>Positions in a ring\<close>

definition ring_bytes :: "memory \<Rightarrow> nat \<Rightarrow> nat \<Rightarrow> nat \<Rightarrow> u8 list" where
  "ring_bytes m N r a = map (\<lambda>i. m (if r + i < N then r + i else r + i - N)) [0..<a]"

lemma length_ring_bytes [simp]: "length (ring_bytes m N r a) = a"
  by (simp add: ring_bytes_def)

lemma nth_ring_bytes: "i < a \<Longrightarrow> ring_bytes m N r a ! i = m (if r + i < N then r + i else r + i - N)"
  by (simp add: ring_bytes_def)

lemma ring_bytes_flat: "r + a \<le> N \<Longrightarrow> ring_bytes m N r a = mem_bytes m r a"
  by (simp add: ring_bytes_def mem_bytes_def)

lemma ring_bytes_wrapped:
  "r \<le> N \<Longrightarrow> N < r + a \<Longrightarrow> a \<le> N \<Longrightarrow> ring_bytes m N r a = mem_bytes m r (N - r) @ mem_bytes m 0 (a - (N - r))"
  by (intro nth_equalityI) (auto simp: nth_ring_bytes nth_append nth_mem_bytes add.commute)

lemma drop_ring_bytes:
  "r < N \<Longrightarrow> l \<le> a \<Longrightarrow> a \<le> N \<Longrightarrow>
    drop l (ring_bytes m N r a) = ring_bytes m N (if N \<le> r + l then r + l - N else r + l) (a - l)"
  by (intro nth_equalityI) (auto simp: nth_ring_bytes intro!: arg_cong [where f = m])

text \<open>Writing \<open>xs\<close> behind the \<open>a\<close> bytes in the ring.\<close>

lemma ring_bytes_write:
  assumes "r < N" "a + length xs \<le> N"
    and w: "w = (if N \<le> a + r then a + r - N else a + r)"
    and m': "\<And>j. j < N \<Longrightarrow> m' j = (let d = (if w \<le> j then j - w else j + N - w) in if d < length xs then xs ! d else m j)"
  shows "ring_bytes m' N r (a + length xs) = ring_bytes m N r a @ xs"
proof (rule nth_equalityI)
  fix i
  assume "i < length (ring_bytes m' N r (a + length xs))"
  then have i: "i < a + length xs" by simp
  define j where "j = (if r + i < N then r + i else r + i - N)"
  have j: "j < N" using assms(1,2) i by (auto simp: j_def)
  have "(if w \<le> j then j - w else j + N - w) = (if i < a then N - a + i else i - a)"
    using assms(1,2) i by (auto simp: j_def w)
  then have "m' j = (if i < a then m j else xs ! (i - a))"
    using m' [OF j] i assms(2) by (auto simp: Let_def)
  then show "ring_bytes m' N r (a + length xs) ! i = (ring_bytes m N r a @ xs) ! i"
    using i by (simp add: nth_ring_bytes nth_append j_def)
qed simp

section \<open>The buffer as a text\<close>

definition log_text :: "log_ring_buffer \<Rightarrow> u8 list" where
  "log_text b = ring_bytes (buffer b) (unat (buffer_alloced b)) (unat (read_pos b)) (unat (amount_buffered b))"

text \<open>The positions are inside the buffer, and the text is empty or ends in a newline.\<close>

definition ring_ok :: "log_ring_buffer \<Rightarrow> bool" where
  "ring_ok b \<longleftrightarrow> unat (buffer_alloced b) < 2 ^ 31 \<and> unat (read_pos b) < unat (buffer_alloced b) \<and>
     unat (amount_buffered b) \<le> unat (buffer_alloced b) \<and> (log_text b = [] \<or> last (log_text b) = NEWLINE)"

lemma length_log_text [simp]: "length (log_text b) = unat (amount_buffered b)"
  by (simp add: log_text_def)

lemma unat_add_u32: "unat (x :: u32) + unat y < 2 ^ 32 \<Longrightarrow> unat (x + y) = unat x + unat y"
  by (intro unat_add_no_wrap) simp

lemma ring_ok_sum:
  "ring_ok b \<Longrightarrow> unat (read_pos b + amount_buffered b) = unat (read_pos b) + unat (amount_buffered b)"
  by (intro unat_add_u32) (auto simp: ring_ok_def)

lemma get_text: "ring_ok b \<Longrightarrow> gsk_log_ring_buffer_get b = log_text b @ [0]"
  using ring_ok_sum [of b]
  by (auto simp: ring_ok_def gsk_log_ring_buffer_get_def log_text_def word_less_nat_alt add.commute [of "amount_buffered b"]
      ring_bytes_flat ring_bytes_wrapped unat_sub_no_wrap Let_def)

lemma oldest_line_len_text:
  assumes "ring_ok b"
  shows "oldest_line_len b = map_option of_nat (memchr NEWLINE (log_text b))"
proof -
  let ?N = "unat (buffer_alloced b)" and ?r = "unat (read_pos b)" and ?a = "unat (amount_buffered b)"
  have ok: "?r < ?N" "?a \<le> ?N" using assms by (auto simp: ring_ok_def)
  have p1: "unat (buffer_alloced b - read_pos b) = ?N - ?r" using ok by (intro unat_sub_no_wrap) simp
  have p1': "of_nat (?N - ?r) = buffer_alloced b - read_pos b" using p1 [symmetric] by simp
  show ?thesis
  proof (cases "?N < ?r + ?a")
    case True
    then have p2: "unat (amount_buffered b - (buffer_alloced b - read_pos b)) = ?a - (?N - ?r)"
      using ok p1 by (subst unat_sub_no_wrap) auto
    show ?thesis
      using True ok p1 p2 p1' ring_ok_sum [OF assms] ring_bytes_wrapped [of ?r ?N ?a "buffer b"]
      by (auto simp: oldest_line_len_def log_text_def word_less_nat_alt Let_def memchr_append option.map_comp o_def
          add.commute split: option.split)
  next
    case False
    then show ?thesis
      using ok ring_ok_sum [OF assms] ring_bytes_flat [of ?r ?a ?N "buffer b"]
      by (auto simp: oldest_line_len_def log_text_def word_less_nat_alt split: option.split)
  qed
qed

lemma remove_start_text:
  assumes "ring_ok b" "unat l \<le> unat (amount_buffered b)" "drop (unat l) (log_text b) = [] \<or> last (log_text b) = NEWLINE"
  shows "log_text (remove_start l b) = drop (unat l) (log_text b)" "ring_ok (remove_start l b)"
    "buffer_alloced (remove_start l b) = buffer_alloced b"
    "unat (amount_buffered (remove_start l b)) = unat (amount_buffered b) - unat l"
proof -
  let ?N = "unat (buffer_alloced b)" and ?r = "unat (read_pos b)" and ?a = "unat (amount_buffered b)"
  have ok: "?r < ?N" "?a \<le> ?N" "?N < 2 ^ 31" using assms(1) by (auto simp: ring_ok_def)
  have s: "unat (read_pos b + l) = ?r + unat l" using ok assms(2) by (intro unat_add_u32) auto
  have pos: "unat (read_pos (remove_start l b)) = (if ?N \<le> ?r + unat l then ?r + unat l - ?N else ?r + unat l)"
    using s by (auto simp: remove_start_def Let_def word_le_nat_alt unat_sub_no_wrap)
  show am: "unat (amount_buffered (remove_start l b)) = ?a - unat l"
    using assms(2) by (simp add: remove_start_def Let_def unat_sub_no_wrap)
  show al: "buffer_alloced (remove_start l b) = buffer_alloced b" by (simp add: remove_start_def Let_def)
  show tx: "log_text (remove_start l b) = drop (unat l) (log_text b)"
    using drop_ring_bytes [of ?r ?N "unat l" ?a "buffer b"] ok assms(2) pos am al
    by (simp add: log_text_def remove_start_def Let_def)
  have "drop (unat l) (log_text b) = [] \<or> last (drop (unat l) (log_text b)) = NEWLINE"
    using assms(3) by (metis drop_eq_Nil last_drop not_le)
  then show "ring_ok (remove_start l b)"
    using ok pos am al assms(2) unfolding ring_ok_def tx by auto
qed

section \<open>Adding a line\<close>

text \<open>The oldest lines go until at most \<open>n\<close> bytes are left.\<close>

fun drop_line :: "u8 list \<Rightarrow> u8 list" where
  "drop_line [] = []"
| "drop_line (c # cs) = (if c = NEWLINE then cs else drop_line cs)"

lemma length_drop_line: "xs \<noteq> [] \<Longrightarrow> length (drop_line xs) < length xs"
proof (induction xs)
  case (Cons c cs)
  then show ?case by (cases "cs = []") auto
qed simp

function keep_newest :: "nat \<Rightarrow> u8 list \<Rightarrow> u8 list" where
  "keep_newest n xs = (if length xs \<le> n then xs else keep_newest n (drop_line xs))"
  by pat_completeness auto
termination
  by (relation "measure (length \<circ> snd)") (auto intro!: length_drop_line)

declare keep_newest.simps [simp del]

lemma drop_line_memchr: "memchr NEWLINE xs = Some i \<Longrightarrow> drop_line xs = drop (Suc i) xs"
  by (induction xs arbitrary: i) (auto split: if_splits)

text \<open>The text after a line has been added to a buffer of \<open>N\<close> bytes.\<close>

definition log_add :: "nat \<Rightarrow> u8 list \<Rightarrow> u8 list \<Rightarrow> u8 list" where
  "log_add N xs line = (let new = take (N div 2) line @ [NEWLINE] in keep_newest (N - length new) xs @ new)"

lemma make_room_text:
  assumes "ring_ok b" "unat app_len \<le> unat (buffer_alloced b)"
  shows "\<exists>b'. make_room app_len b = Some b' \<and> ring_ok b' \<and> buffer_alloced b' = buffer_alloced b \<and>
    log_text b' = keep_newest (unat (buffer_alloced b) - unat app_len) (log_text b) \<and>
    unat (amount_buffered b') + unat app_len \<le> unat (buffer_alloced b)"
  using assms
proof (induction "unat (amount_buffered b)" arbitrary: b rule: less_induct)
  case less
  let ?N = "unat (buffer_alloced b)" and ?a = "unat (amount_buffered b)"
  have ok: "?a \<le> ?N" "?N < 2 ^ 31" using less.prems(1) by (auto simp: ring_ok_def)
  have sum: "unat (amount_buffered b + app_len) = ?a + unat app_len"
    using ok less.prems(2) by (intro unat_add_u32) auto
  show ?case
  proof (cases "?N < ?a + unat app_len")
    case False
    then have "make_room app_len b = Some b" using sum by (subst make_room.simps) (simp add: word_less_nat_alt)
    moreover have "keep_newest (?N - unat app_len) (log_text b) = log_text b"
      using False by (subst keep_newest.simps) auto
    ultimately show ?thesis using less.prems False by auto
  next
    case True
    then have "log_text b \<noteq> []" using less.prems(2) by (metis length_log_text list.size(3) add_0 not_le)
    then have nl: "last (log_text b) = NEWLINE" "NEWLINE \<in> set (log_text b)"
      using less.prems(1) by (auto simp: ring_ok_def) (metis last_in_set)
    then obtain i where i: "memchr NEWLINE (log_text b) = Some i" using memchr_None_iff by fastforce
    then have "i < ?a" using memchr_SomeD [OF i] by simp
    then have l: "unat (of_nat i + 1 :: u32) = Suc i"
      using ok unat_of_nat_u32 [of "Suc i"] by (simp add: add.commute)
    define b' where "b' = remove_start (of_nat i + 1) b"
    have b': "log_text b' = drop_line (log_text b)" "ring_ok b'" "buffer_alloced b' = buffer_alloced b"
      "unat (amount_buffered b') = ?a - Suc i"
      using remove_start_text [OF less.prems(1), of "of_nat i + 1"] l \<open>i < ?a\<close> nl drop_line_memchr [OF i]
      by (simp_all add: b'_def)
    have "make_room app_len b = make_room app_len b'"
      using True sum oldest_line_len_text [OF less.prems(1)] i
      by (subst make_room.simps) (simp add: word_less_nat_alt b'_def)
    moreover have "keep_newest (?N - unat app_len) (log_text b) = keep_newest (?N - unat app_len) (log_text b')"
      using True less.prems(2) b'(1) keep_newest.simps [of "?N - unat app_len" "log_text b"] by auto
    ultimately show ?thesis using less.hyps [of b'] b' less.prems(2) \<open>i < ?a\<close> by auto
  qed
qed

text \<open>The block after the copy, byte by byte: the distance of a position from \<open>write_pos\<close>
  decides what is there.\<close>

lemma write_line_bytes:
  assumes "unat (buffer_alloced b) < 2 ^ 31" "unat wp < unat (buffer_alloced b)" "unat len < unat (buffer_alloced b)"
    and "unat len \<le> length line" "write_line line len wp b = (m, np)"
  defines "N \<equiv> unat (buffer_alloced b)" and "w \<equiv> unat wp" and "xs \<equiv> take (unat len) line @ [NEWLINE]"
  shows "np < buffer_alloced b"
    "j < N \<Longrightarrow> (m(unat np := NEWLINE)) j =
      (let d = (if w \<le> j then j - w else j + N - w) in if d < length xs then xs ! d else buffer b j)"
proof -
  have s: "unat (wp + len) = w + unat len" using assms(1-3) by (subst unat_add_u32) (auto simp: w_def)
  have p1: "unat (buffer_alloced b - wp) = N - w" using assms(2) by (simp add: N_def w_def unat_sub_no_wrap)
  consider "N < w + unat len" | "w + unat len = N" | "w + unat len < N" by linarith
  then have "unat np < N \<and> (j < N \<longrightarrow> (m(unat np := NEWLINE)) j =
      (let d = (if w \<le> j then j - w else j + N - w) in if d < length xs then xs ! d else buffer b j))"
  proof cases
    case 1
    then have "unat (len - (buffer_alloced b - wp)) = unat len - (N - w)"
      using p1 by (subst unat_sub_no_wrap) auto
    moreover have "write_line line len wp b =
      (memcpy (memcpy (buffer b) w line (N - w)) 0 (drop (N - w) line) (unat (len - (buffer_alloced b - wp))),
       len - (buffer_alloced b - wp))"
      using 1 s p1 by (simp add: write_line_def word_less_nat_alt N_def w_def Let_def)
    ultimately have "m = memcpy (memcpy (buffer b) w line (N - w)) 0 (drop (N - w) line) (unat len - (N - w))"
      "unat np = unat len - (N - w)" using assms(5) by auto
    then show ?thesis
      using 1 assms(2-4) by (auto simp: memcpy_def xs_def N_def w_def nth_append Let_def add.commute)
  next
    case 2
    then have "wp + len = buffer_alloced b" using s by (simp add: word_unat_eq_iff N_def)
    then have "m = memcpy (buffer b) w line (unat len)" "np = 0"
      using assms(5) by (auto simp: write_line_def w_def)
    then show ?thesis
      using 2 assms(2-4) by (auto simp: memcpy_def xs_def N_def w_def nth_append Let_def)
  next
    case 3
    then have "m = memcpy (buffer b) w line (unat len)" "unat np = w + unat len"
      using assms(5) s by (auto simp: write_line_def w_def N_def word_less_nat_alt split: if_splits)
    then show ?thesis
      using 3 assms(2-4) by (auto simp: memcpy_def xs_def N_def w_def nth_append Let_def)
  qed
  then show "np < buffer_alloced b"
    "j < N \<Longrightarrow> (m(unat np := NEWLINE)) j =
      (let d = (if w \<le> j then j - w else j + N - w) in if d < length xs then xs ! d else buffer b j)"
    by (auto simp: word_less_nat_alt N_def)
qed

lemma add_text:
  assumes "ring_ok b" "length line < 2 ^ 32"
  shows "\<exists>b'. gsk_log_ring_buffer_add b line = Some b' \<and> ring_ok b' \<and> buffer_alloced b' = buffer_alloced b \<and>
    log_text b' = log_add (unat (buffer_alloced b)) (log_text b) line"
proof -
  define N where "N = unat (buffer_alloced b)"
  define len where "len = (if buffer_alloced b div 2 < of_nat (length line) then buffer_alloced b div 2
    else (of_nat (length line) :: u32))"
  define xs where "xs = take (N div 2) line @ [NEWLINE]"
  have N: "0 < N" "N < 2 ^ 31" using assms(1) by (auto simp: ring_ok_def N_def)
  have ll: "unat (of_nat (length line) :: u32) = length line" using assms(2) by (intro unat_of_nat_u32) simp
  have len: "unat len = min (length line) (N div 2)"
    unfolding len_def unat_min_word ll by (simp add: N_def unat_div)
  have lxs: "length xs = unat len + 1" "take (unat len) line = take (N div 2) line"
    unfolding xs_def len by (auto simp: min_def)
  have app: "unat (len + 1) = length xs" using N len lxs unat_add_u32 [of len 1] by auto
  have fits: "length xs \<le> N" "unat len < N" using N len lxs by auto
  obtain b' where b': "make_room (len + 1) b = Some b'" "ring_ok b'" "buffer_alloced b' = buffer_alloced b"
    "log_text b' = keep_newest (N - length xs) (log_text b)" "unat (amount_buffered b') + length xs \<le> N"
    using make_room_text [OF assms(1), of "len + 1"] app fits by (auto simp: N_def)
  let ?r = "unat (read_pos b')" and ?a = "unat (amount_buffered b')"
  define wp where "wp = (if amount_buffered b' + read_pos b' \<ge> buffer_alloced b'
    then amount_buffered b' + read_pos b' - buffer_alloced b' else amount_buffered b' + read_pos b')"
  have r: "?r < N" using b'(2,3) by (simp add: ring_ok_def N_def)
  have wp: "unat wp = (if N \<le> ?a + ?r then ?a + ?r - N else ?a + ?r)"
    using ring_ok_sum [OF b'(2)] b'(3) by (auto simp: wp_def word_le_nat_alt N_def add.commute unat_sub_no_wrap)
  obtain m np where m: "write_line line len wp b' = (m, np)" by fastforce
  have N': "unat (buffer_alloced b') = N" using b'(3) by (simp add: N_def)
  have wpN: "unat wp < N" using wp r b'(5) lxs by auto
  note W = write_line_bytes [OF _ _ _ _ m, unfolded N' lxs(2), folded xs_def]
  have np: "np < buffer_alloced b'" using W(1) N wpN fits len by simp
  define b'' where "b'' = b'\<lparr>buffer := m(unat np := NEWLINE), amount_buffered := amount_buffered b' + (len + 1)\<rparr>"
  have res: "gsk_log_ring_buffer_add b line = Some b''"
    unfolding gsk_log_ring_buffer_add_def Let_def len_def [symmetric] b'(1)
    using np by (simp add: wp_def [symmetric] m b''_def)
  have am: "unat (amount_buffered b'') = ?a + length xs"
    using unat_add_u32 [of "amount_buffered b'" "len + 1"] app b'(5) N by (simp add: b''_def)
  have "ring_bytes (m(unat np := NEWLINE)) N ?r (?a + length xs) = ring_bytes (buffer b') N ?r ?a @ xs"
    by (rule ring_bytes_write [OF r b'(5) wp], rule W(2)) (use N wpN fits len in auto)
  then have tx: "log_text b'' = log_text b' @ xs" using am N' by (simp add: log_text_def b''_def)
  have "log_text b'' = log_add N (log_text b) line"
    unfolding tx b'(4) by (simp add: log_add_def xs_def Let_def)
  moreover have "ring_ok b''"
    using b'(2,5) am N' unfolding ring_ok_def tx by (simp add: b''_def xs_def)
  ultimately show ?thesis using res b'(3) by (auto simp: b''_def N_def)
qed

section \<open>Properties\<close>

fun add_lines :: "log_ring_buffer \<Rightarrow> u8 list list \<Rightarrow> log_ring_buffer option" where
  "add_lines b [] = Some b"
| "add_lines b (line # lines) = gsk_log_ring_buffer_add b line \<bind> (\<lambda>b. add_lines b lines)"

lemma add_lines_text:
  "ring_ok b \<Longrightarrow> list_all (\<lambda>l. length l < 2 ^ 32) lines \<Longrightarrow>
    \<exists>b'. add_lines b lines = Some b' \<and> ring_ok b' \<and> log_text b' = foldl (log_add (unat (buffer_alloced b))) (log_text b) lines"
proof (induction lines arbitrary: b)
  case (Cons line lines)
  then obtain b' where b': "gsk_log_ring_buffer_add b line = Some b'" "ring_ok b'" "buffer_alloced b' = buffer_alloced b"
    "log_text b' = log_add (unat (buffer_alloced b)) (log_text b) line"
    using add_text [OF Cons.prems(1), of line] by auto
  show ?case using Cons.IH [OF b'(2)] Cons.prems(2) b' by simp
qed simp

text \<open>C18: Adding lines to a new ring buffer always returns, without a failed assertion, and
  keeps the newest lines: the text is the one obtained by dropping the oldest lines until the
  new line, cut to half the buffer, fits behind the rest.  A buffer of no bytes fails the
  assertion at its first line.\<close>

theorem log_ring_keeps_newest:
  assumes "0 < n" "n < 2 ^ 31" "list_all (\<lambda>l. length l < 2 ^ 32) lines"
  shows "(\<exists>b. add_lines (gsk_log_ring_buffer_new n m) lines = Some b \<and>
      gsk_log_ring_buffer_get b = foldl (log_add n) [] lines @ [0]) \<and>
    gsk_log_ring_buffer_add (gsk_log_ring_buffer_new 0 m) [] = None"
proof -
  have n: "unat (of_nat n :: u32) = n" using assms(2) by (intro unat_of_nat_u32) simp
  have "log_text (gsk_log_ring_buffer_new n m) = []" by (simp add: log_text_def gsk_log_ring_buffer_new_def ring_bytes_def)
  moreover from this have "ring_ok (gsk_log_ring_buffer_new n m)"
    using assms(1,2) n unfolding ring_ok_def by (simp add: gsk_log_ring_buffer_new_def)
  moreover have "gsk_log_ring_buffer_add (gsk_log_ring_buffer_new 0 m) [] = None"
    unfolding gsk_log_ring_buffer_add_def gsk_log_ring_buffer_new_def
    by (subst make_room.simps) (simp add: oldest_line_len_def Let_def)
  ultimately show ?thesis
    using add_lines_text [OF _ assms(3)] get_text n by (fastforce simp: gsk_log_ring_buffer_new_def)
qed

theorem log_ring_keeps_newest_witness:
  "\<exists>b. add_lines (gsk_log_ring_buffer_new 6 (\<lambda>_. 0)) [[97, 98], [99], [100, 101, 102, 103]] = Some b \<and>
     gsk_log_ring_buffer_get b = [99, 10, 100, 101, 102, 10, 0]"
proof -
  have "foldl (log_add 6) [] [[97, 98], [99], [100, 101, 102, 103]] = [99, 10, 100, 101, 102, 10]"
    by (simp add: log_add_def keep_newest.simps)
  then show ?thesis
    using log_ring_keeps_newest [of 6 "[[97, 98], [99], [100, 101, 102, 103]]" "\<lambda>_. 0"] by auto
qed

end
