(* ===== verification/Gsk_List_Macros.thy ===== *)
theory Gsk_List_Macros
  imports Gsk_Prelude "HOL-Library.Monad_Syntax" "HOL-Library.Multiset"
begin

text \<open>
  The stacks, queues and doubly linked lists of \<^verbatim>\<open>src/src/gsklistmacros.h\<close>, on an explicit heap:
  nodes are addresses, a link field is a function from nodes to nodes, and None is NULL.  A
  loop that runs along links may not end on a heap with cycles, so the loops are partial
  functions; following a NULL pointer, or writing behind an array, is None as well.  The
  lemmas show that on well-formed structures all of them return and refine lists, and that
  the sort is the stable sort.
\<close>

type_synonym node = nat
type_synonym links = "node \<Rightarrow> node option"

section \<open>Stacks\<close>

definition GSK_STACK_PUSH :: "links \<Rightarrow> node option \<Rightarrow> node \<Rightarrow> links \<times> node option" where
  "GSK_STACK_PUSH nx tos node = (nx(node := tos), Some node)"

definition GSK_STACK_POP :: "links \<Rightarrow> node option \<Rightarrow> (node \<times> node option) option" where
  "GSK_STACK_POP nx tos = (case tos of None \<Rightarrow> None | Some n \<Rightarrow> Some (n, nx n))"

definition GSK_STACK_INSERT_AFTER :: "links \<Rightarrow> node \<Rightarrow> node \<Rightarrow> links" where
  "GSK_STACK_INSERT_AFTER nx above_node new = (nx(new := nx above_node))(above_node := Some new)"

definition GSK_STACK_IS_EMPTY :: "node option \<Rightarrow> bool" where
  "GSK_STACK_IS_EMPTY tos \<longleftrightarrow> tos = None"

partial_function (option) reverse_loop :: "links \<Rightarrow> node option \<Rightarrow> node option \<Rightarrow> (links \<times> node option) option" where
  "reverse_loop nx prev at =
     (case at of None \<Rightarrow> Some (nx, prev) | Some a \<Rightarrow> reverse_loop (nx(a := prev)) (Some a) (nx a))"

definition GSK_STACK_REVERSE :: "links \<Rightarrow> node option \<Rightarrow> (links \<times> node option) option" where
  "GSK_STACK_REVERSE nx tos = reverse_loop nx None tos"

partial_function (option) bottom_loop :: "links \<Rightarrow> node \<Rightarrow> node option" where
  "bottom_loop nx n = (case nx n of None \<Rightarrow> Some n | Some n' \<Rightarrow> bottom_loop nx n')"

definition GSK_STACK_GET_BOTTOM :: "links \<Rightarrow> node option \<Rightarrow> node option option" where
  "GSK_STACK_GET_BOTTOM nx tos = (case tos of None \<Rightarrow> Some None | Some n \<Rightarrow> map_option Some (bottom_loop nx n))"

section \<open>Sorting\<close>

text \<open>\<open>GSK_LOG2_MAX_LIST_SIZE\<close> for a \<open>size_t\<close> of 8 bytes.\<close>

definition LOG2_MAX_LIST_SIZE :: nat where
  "LOG2_MAX_LIST_SIZE = 64"

type_synonym comparator = "node \<Rightarrow> node \<Rightarrow> int"

partial_function (option) merge_loop ::
  "comparator \<Rightarrow> links \<Rightarrow> node option \<Rightarrow> node option \<Rightarrow> node \<Rightarrow> links option" where
  "merge_loop cmp nx a b out_at =
     (case a of
        None \<Rightarrow> Some (nx(out_at := b))
      | Some x \<Rightarrow>
          (case b of
             None \<Rightarrow> Some (nx(out_at := a))
           | Some y \<Rightarrow>
               if cmp x y \<le> 0
               then merge_loop cmp (nx(out_at := Some x)) ((nx(out_at := Some x)) x) b x
               else merge_loop cmp (nx(out_at := Some y)) a ((nx(out_at := Some y)) y) y))"

definition MERGE_NONEMPTY_LISTS :: "comparator \<Rightarrow> links \<Rightarrow> node \<Rightarrow> node \<Rightarrow> (links \<times> node) option" where
  "MERGE_NONEMPTY_LISTS cmp nx a b =
     (if cmp a b \<le> 0
      then merge_loop cmp nx (nx a) (Some b) a \<bind> (\<lambda>nx. Some (nx, a))
      else merge_loop cmp nx (Some a) (nx b) b \<bind> (\<lambda>nx. Some (nx, b)))"

text \<open>The next one or two elements as a sorted list: the links, its head, and what follows.\<close>

definition take_run :: "comparator \<Rightarrow> links \<Rightarrow> node \<Rightarrow> links \<times> node \<times> node option" where
  "take_run cmp nx a =
     (case nx a of
        Some b \<Rightarrow>
          (if cmp a b > 0 then ((nx(b := Some a))(a := None), b, nx b)
           else (nx(b := None), a, nx b))
      | None \<Rightarrow> (nx(a := None), a, None))"

text \<open>Merging a list up the array, from index \<open>i\<close> on.\<close>

fun merge_up :: "comparator \<Rightarrow> nat \<Rightarrow> links \<Rightarrow> node \<Rightarrow> node option list \<Rightarrow> (links \<times> node option list) option" where
  "merge_up cmp i nx cur [] = (if i < LOG2_MAX_LIST_SIZE then Some (nx, [Some cur]) else None)"
| "merge_up cmp i nx cur (None # st) = Some (nx, Some cur # st)"
| "merge_up cmp i nx cur (Some l # st) =
     MERGE_NONEMPTY_LISTS cmp nx l cur \<bind> (\<lambda>(nx, cur).
     merge_up cmp (Suc i) nx cur st \<bind> (\<lambda>(nx, st). Some (nx, None # st)))"

partial_function (option) sort_loop ::
  "comparator \<Rightarrow> links \<Rightarrow> node option \<Rightarrow> node option list \<Rightarrow> (links \<times> node option list) option" where
  "sort_loop cmp nx at st =
     (case at of
        None \<Rightarrow> Some (nx, st)
      | Some a \<Rightarrow>
          (case take_run cmp nx a of (nx, cur, at) \<Rightarrow>
             merge_up cmp 0 nx cur st \<bind> (\<lambda>r. case r of (nx, st) \<Rightarrow> sort_loop cmp nx at st)))"

fun combine :: "comparator \<Rightarrow> links \<Rightarrow> node option \<Rightarrow> node option list \<Rightarrow> (links \<times> node option) option" where
  "combine cmp nx tos [] = Some (nx, tos)"
| "combine cmp nx tos (None # st) = combine cmp nx tos st"
| "combine cmp nx None (Some l # st) = combine cmp nx (Some l) st"
| "combine cmp nx (Some t) (Some l # st) =
     MERGE_NONEMPTY_LISTS cmp nx l t \<bind> (\<lambda>(nx, new_top). combine cmp nx (Some new_top) st)"

definition GSK_STACK_SORT :: "comparator \<Rightarrow> links \<Rightarrow> node option \<Rightarrow> (links \<times> node option) option" where
  "GSK_STACK_SORT cmp nx tos = sort_loop cmp nx tos [] \<bind> (\<lambda>(nx, st). combine cmp nx None st)"

section \<open>Queues\<close>

record gqueue =
  q_next :: links
  q_head :: "node option"
  q_tail :: "node option"

definition GSK_QUEUE_ENQUEUE :: "gqueue \<Rightarrow> node \<Rightarrow> gqueue" where
  "GSK_QUEUE_ENQUEUE q node =
     (let q = (case q_tail q of
                 Some t \<Rightarrow> q\<lparr>q_next := (q_next q)(t := Some node)\<rparr>
               | None \<Rightarrow> q\<lparr>q_head := Some node\<rparr>);
          q = q\<lparr>q_tail := Some node\<rparr>
      in q\<lparr>q_next := (q_next q)(node := None)\<rparr>)"

definition GSK_QUEUE_DEQUEUE :: "gqueue \<Rightarrow> node option \<times> gqueue" where
  "GSK_QUEUE_DEQUEUE q =
     (q_head q,
      case q_head q of
        None \<Rightarrow> q
      | Some h \<Rightarrow>
          (let q = q\<lparr>q_head := q_next q h\<rparr>
           in if q_head q = None then q\<lparr>q_tail := None\<rparr> else q))"

definition GSK_QUEUE_PREPEND :: "gqueue \<Rightarrow> node \<Rightarrow> gqueue" where
  "GSK_QUEUE_PREPEND q node =
     (let q = q\<lparr>q_next := (q_next q)(node := q_head q), q_head := Some node\<rparr>
      in if q_tail q = None then q\<lparr>q_tail := q_head q\<rparr> else q)"

definition GSK_QUEUE_IS_EMPTY :: "gqueue \<Rightarrow> bool" where
  "GSK_QUEUE_IS_EMPTY q \<longleftrightarrow> q_head q = None"

definition GSK_QUEUE_REVERSE :: "gqueue \<Rightarrow> gqueue option" where
  "GSK_QUEUE_REVERSE q =
     GSK_STACK_REVERSE (q_next q) (q_head q) \<bind> (\<lambda>(nx, head).
     Some (q\<lparr>q_next := nx, q_head := head, q_tail := q_head q\<rparr>))"

definition GSK_QUEUE_SORT :: "comparator \<Rightarrow> gqueue \<Rightarrow> gqueue option" where
  "GSK_QUEUE_SORT cmp q =
     GSK_STACK_SORT cmp (q_next q) (q_head q) \<bind> (\<lambda>(nx, head).
     GSK_STACK_GET_BOTTOM nx head \<bind> (\<lambda>tail.
     Some (q\<lparr>q_next := nx, q_head := head, q_tail := tail\<rparr>)))"

section \<open>Doubly linked lists\<close>

record glist =
  l_first :: "node option"
  l_last :: "node option"
  l_prev :: links
  l_next :: links

text \<open>The same list seen from its other end.\<close>

definition flip :: "glist \<Rightarrow> glist" where
  "flip l = \<lparr>l_first = l_last l, l_last = l_first l, l_prev = l_next l, l_next = l_prev l\<rparr>"

definition GSK_LIST_PREPEND :: "glist \<Rightarrow> node \<Rightarrow> glist" where
  "GSK_LIST_PREPEND l node =
     (let l = (case l_first l of
                 Some f \<Rightarrow> l\<lparr>l_prev := (l_prev l)(f := Some node)\<rparr>
               | None \<Rightarrow> l\<lparr>l_last := Some node\<rparr>)
      in l\<lparr>l_next := (l_next l)(node := l_first l), l_prev := (l_prev l)(node := None), l_first := Some node\<rparr>)"

definition GSK_LIST_APPEND :: "glist \<Rightarrow> node \<Rightarrow> glist" where
  "GSK_LIST_APPEND l node = flip (GSK_LIST_PREPEND (flip l) node)"

definition GSK_LIST_REMOVE_FIRST :: "glist \<Rightarrow> glist option" where
  "GSK_LIST_REMOVE_FIRST l =
     l_first l \<bind> (\<lambda>f.
     Some (case l_next l f of
             None \<Rightarrow> l\<lparr>l_first := None, l_last := None\<rparr>
           | Some f' \<Rightarrow> l\<lparr>l_first := Some f', l_prev := (l_prev l)(f' := None)\<rparr>))"

definition GSK_LIST_REMOVE_LAST :: "glist \<Rightarrow> glist option" where
  "GSK_LIST_REMOVE_LAST l = map_option flip (GSK_LIST_REMOVE_FIRST (flip l))"

definition GSK_LIST_REMOVE :: "glist \<Rightarrow> node \<Rightarrow> glist" where
  "GSK_LIST_REMOVE l node =
     (let l = (case l_prev l node of
                 Some p \<Rightarrow> l\<lparr>l_next := (l_next l)(p := l_next l node)\<rparr>
               | None \<Rightarrow> l\<lparr>l_first := l_next l node\<rparr>)
      in case l_next l node of
           Some n \<Rightarrow> l\<lparr>l_prev := (l_prev l)(n := l_prev l node)\<rparr>
         | None \<Rightarrow> l\<lparr>l_last := l_prev l node\<rparr>)"

definition GSK_LIST_INSERT_AFTER :: "glist \<Rightarrow> node \<Rightarrow> node \<Rightarrow> glist" where
  "GSK_LIST_INSERT_AFTER l at node =
     (let l = l\<lparr>l_prev := (l_prev l)(node := Some at), l_next := (l_next l)(node := l_next l at)\<rparr>;
          l = (case l_next l node of
                 Some n \<Rightarrow> l\<lparr>l_prev := (l_prev l)(n := Some node)\<rparr>
               | None \<Rightarrow> l\<lparr>l_last := Some node\<rparr>)
      in l\<lparr>l_next := (l_next l)(at := Some node)\<rparr>)"

definition GSK_LIST_INSERT_BEFORE :: "glist \<Rightarrow> node \<Rightarrow> node \<Rightarrow> glist" where
  "GSK_LIST_INSERT_BEFORE l at node = flip (GSK_LIST_INSERT_AFTER (flip l) at node)"

definition GSK_LIST_IS_EMPTY :: "glist \<Rightarrow> bool" where
  "GSK_LIST_IS_EMPTY l \<longleftrightarrow> l_first l = None"

partial_function (option) list_reverse_loop :: "links \<Rightarrow> links \<Rightarrow> node option \<Rightarrow> (links \<times> links) option" where
  "list_reverse_loop pv nx at =
     (case at of
        None \<Rightarrow> Some (pv, nx)
      | Some a \<Rightarrow> list_reverse_loop (pv(a := nx a)) (nx(a := pv a)) (nx a))"

definition GSK_LIST_REVERSE :: "glist \<Rightarrow> glist option" where
  "GSK_LIST_REVERSE l =
     list_reverse_loop (l_prev l) (l_next l) (l_first l) \<bind> (\<lambda>(pv, nx).
     Some \<lparr>l_first = l_last l, l_last = l_first l, l_prev = pv, l_next = nx\<rparr>)"

partial_function (option) set_prev_loop :: "links \<Rightarrow> links \<Rightarrow> node option \<Rightarrow> node option \<Rightarrow> (links \<times> node option) option" where
  "set_prev_loop nx pv prev at =
     (if at = None then Some (pv, prev)
      else set_prev_loop nx (pv(the at := prev)) at (nx (the at)))"

definition GSK_LIST_SORT :: "comparator \<Rightarrow> glist \<Rightarrow> glist option" where
  "GSK_LIST_SORT cmp l =
     GSK_STACK_SORT cmp (l_next l) (l_first l) \<bind> (\<lambda>(nx, first).
     set_prev_loop nx (l_prev l) None first \<bind> (\<lambda>(pv, last).
     Some \<lparr>l_first = first, l_last = last, l_prev = pv, l_next = nx\<rparr>))"

section \<open>Chains of links\<close>

fun chain :: "links \<Rightarrow> node option \<Rightarrow> node list \<Rightarrow> bool" where
  "chain nx p [] \<longleftrightarrow> p = None"
| "chain nx p (x # xs) \<longleftrightarrow> p = Some x \<and> chain nx (nx x) xs"

lemma chain_frame [simp]: "z \<notin> set xs \<Longrightarrow> chain (nx(z := v)) p xs = chain nx p xs"
  by (induction xs arbitrary: p) auto

lemma chain_agree: "(\<And>x. x \<in> set xs \<Longrightarrow> nx' x = nx x) \<Longrightarrow> chain nx' p xs = chain nx p xs"
  by (induction xs arbitrary: p) auto

lemma chain_None [simp]: "chain nx None xs \<longleftrightarrow> xs = []"
  by (cases xs) auto

lemma chain_Some: "chain nx (Some x) xs \<longleftrightarrow> (\<exists>ys. xs = x # ys \<and> chain nx (nx x) ys)"
  by (cases xs) auto

lemma reverse_loop_chain:
  "chain nx at xs \<Longrightarrow> chain nx prev ys \<Longrightarrow> distinct (xs @ ys) \<Longrightarrow>
    \<exists>nx' tos. reverse_loop nx prev at = Some (nx', tos) \<and> chain nx' tos (rev xs @ ys)"
proof (induction xs arbitrary: nx at prev ys)
  case Nil
  then show ?case by (subst reverse_loop.simps) simp
next
  case (Cons x xs)
  then have "chain (nx(x := prev)) (nx x) xs" "chain (nx(x := prev)) (Some x) (x # ys)" "distinct (xs @ x # ys)" by auto
  from Cons.IH [OF this] Cons.prems(1) show ?case by (simp add: reverse_loop.simps [of _ _ "Some x"] fun_upd_def)
qed

lemma bottom_loop_chain: "chain nx (Some n) xs \<Longrightarrow> bottom_loop nx n = Some (last xs)"
proof (induction xs arbitrary: n)
  case (Cons x xs)
  show ?case
  proof (cases xs)
    case Nil
    then show ?thesis using Cons.prems by (subst bottom_loop.simps) simp
  next
    case (Cons y ys)
    then show ?thesis using Cons.IH [of y] Cons.prems by (subst bottom_loop.simps) auto
  qed
qed simp

lemma get_bottom_chain: "chain nx p xs \<Longrightarrow> GSK_STACK_GET_BOTTOM nx p = Some (if xs = [] then None else Some (last xs))"
  by (cases p) (auto simp: GSK_STACK_GET_BOTTOM_def bottom_loop_chain)

section \<open>Merging\<close>

fun merge_by :: "('a \<Rightarrow> int) \<Rightarrow> 'a list \<Rightarrow> 'a list \<Rightarrow> 'a list" where
  "merge_by key [] ys = ys"
| "merge_by key xs [] = xs"
| "merge_by key (x # xs) (y # ys) =
     (if key x \<le> key y then x # merge_by key xs (y # ys) else y # merge_by key (x # xs) ys)"

lemma merge_by_Nil [simp]: "merge_by key xs [] = xs"
  by (cases xs) auto

lemma mset_merge_by [simp]: "mset (merge_by key xs ys) = mset xs + mset ys"
  by (induction key xs ys rule: merge_by.induct) auto

lemma set_merge_by [simp]: "set (merge_by key xs ys) = set xs \<union> set ys"
  by (metis mset_merge_by set_mset_mset set_mset_union)

lemma sorted_merge_by:
  "sorted (map key xs) \<Longrightarrow> sorted (map key ys) \<Longrightarrow> sorted (map key (merge_by key xs ys))"
  by (induction key xs ys rule: merge_by.induct) (auto simp: not_le intro: order_trans less_imp_le)

lemma filter_merge_by:
  "sorted (map key xs) \<Longrightarrow> sorted (map key ys) \<Longrightarrow>
    filter (\<lambda>z. key z = k) (merge_by key xs ys) = filter (\<lambda>z. key z = k) xs @ filter (\<lambda>z. key z = k) ys"
proof (induction key xs ys rule: merge_by.induct)
  case (3 key x xs y ys)
  show ?case
  proof (cases "key x \<le> key y")
    case False
    have "filter (\<lambda>z. key z = k) (x # xs) = []" if "key y = k"
      using False that 3(3) by (auto simp: filter_empty_conv)
    then show ?thesis using 3 False by auto
  qed (use 3 in auto)
qed auto

text \<open>Merging sorted lists is the stable sort of the two behind each other.\<close>

lemma sort_key_Nil_iff [simp]: "sort_key key xs = [] \<longleftrightarrow> xs = []"
  by (metis length_0_conv length_sort)

lemma merge_by_sort: "merge_by key (sort_key key xs) (sort_key key ys) = sort_key key (xs @ ys)"
proof (rule sym, rule properties_for_sort_key)
  fix k
  have "filter (\<lambda>z. key k = key z) zs = filter (\<lambda>z. key z = key k) zs" for zs by (metis (mono_tags))
  moreover have "filter (\<lambda>z. key z = key k) (sort_key key zs) = filter (\<lambda>z. key z = key k) zs" for zs
    by (rule sort_key_stable)
  ultimately show "filter (\<lambda>z. key k = key z) (merge_by key (sort_key key xs) (sort_key key ys)) =
      filter (\<lambda>z. key k = key z) (xs @ ys)"
    by (simp add: filter_merge_by)
qed (simp_all add: sorted_merge_by)

definition orders :: "comparator \<Rightarrow> (node \<Rightarrow> int) \<Rightarrow> bool" where
  "orders cmp key \<longleftrightarrow> (\<forall>a b. cmp a b \<le> 0 \<longleftrightarrow> key a \<le> key b)"

lemma merge_loop_chain:
  "orders cmp key \<Longrightarrow> chain nx a xs \<Longrightarrow> chain nx b ys \<Longrightarrow> distinct (out # xs @ ys) \<Longrightarrow>
    \<exists>nx'. merge_loop cmp nx a b out = Some nx' \<and> chain nx' (nx' out) (merge_by key xs ys) \<and>
      (\<forall>z. z \<notin> set (out # xs @ ys) \<longrightarrow> nx' z = nx z)"
proof (induction key xs ys arbitrary: nx a b out rule: merge_by.induct)
  case (1 key ys)
  then show ?case by (auto simp: merge_loop.simps [of _ _ None])
next
  case (2 key x xs)
  then show ?case by (auto simp: merge_loop.simps [of _ _ "Some x"])
next
  case (3 key x xs y ys)
  have ab: "a = Some x" "b = Some y" using 3(4,5) by auto
  show ?case
  proof (cases "key x \<le> key y")
    case True
    then have "cmp x y \<le> 0" using 3(3) by (simp add: orders_def)
    then have step: "merge_loop cmp nx a b out = merge_loop cmp (nx(out := Some x)) (nx x) (Some y) x"
      using 3(6) ab by (simp add: merge_loop.simps [of _ _ "Some x"])
    have "chain (nx(out := Some x)) (nx x) xs" "chain (nx(out := Some x)) (Some y) (y # ys)" "distinct (x # xs @ y # ys)"
      using 3(4-6) by auto
    from 3(1) [OF True 3(3) this] 3(6) True show ?thesis unfolding step by fastforce
  next
    case False
    then have "\<not> cmp x y \<le> 0" using 3(3) by (simp add: orders_def)
    then have step: "merge_loop cmp nx a b out = merge_loop cmp (nx(out := Some y)) (Some x) (nx y) y"
      using 3(6) ab by (simp add: merge_loop.simps [of _ _ "Some x"])
    have "chain (nx(out := Some y)) (Some x) (x # xs)" "chain (nx(out := Some y)) (nx y) ys" "distinct (y # (x # xs) @ ys)"
      using 3(4-6) by auto
    from 3(2) [OF False 3(3) this] 3(6) False show ?thesis unfolding step by fastforce
  qed
qed

lemma merge_nonempty_chain:
  assumes "orders cmp key" "chain nx (Some a) xs" "chain nx (Some b) ys" "distinct (xs @ ys)"
  shows "\<exists>nx' out. MERGE_NONEMPTY_LISTS cmp nx a b = Some (nx', out) \<and> chain nx' (Some out) (merge_by key xs ys) \<and>
    (\<forall>z. z \<notin> set (xs @ ys) \<longrightarrow> nx' z = nx z)"
proof -
  obtain xs' ys' where xy: "xs = a # xs'" "ys = b # ys'" "chain nx (nx a) xs'" "chain nx (nx b) ys'"
    using assms(2,3) by (auto simp: chain_Some)
  show ?thesis
  proof (cases "key a \<le> key b")
    case True
    then have "cmp a b \<le> 0" using assms(1) by (simp add: orders_def)
    then show ?thesis
      using merge_loop_chain [OF assms(1) xy(3) assms(3), of a] assms(4) xy(1,2) True
      by (fastforce simp: MERGE_NONEMPTY_LISTS_def)
  next
    case False
    then have "\<not> cmp a b \<le> 0" using assms(1) by (simp add: orders_def)
    then show ?thesis
      using merge_loop_chain [OF assms(1,2) xy(4), of b] assms(4) xy(1,2) False
      by (fastforce simp: MERGE_NONEMPTY_LISTS_def)
  qed
qed

section \<open>The sort\<close>

text \<open>The array of sorted lists stands for consecutive segments of the input, the last segment
  first; a segment at index \<open>i\<close> has at least \<open>2 ^ i\<close> elements.\<close>

fun array_rep :: "(node \<Rightarrow> int) \<Rightarrow> nat \<Rightarrow> links \<Rightarrow> node option list \<Rightarrow> node list list \<Rightarrow> bool" where
  "array_rep key i nx [] [] = True"
| "array_rep key i nx (p # st) (s # segs) \<longleftrightarrow>
     chain nx p (sort_key key s) \<and> (s = [] \<or> 2 ^ i \<le> length s) \<and> array_rep key (Suc i) nx st segs"
| "array_rep key i nx st segs = False"

lemma array_rep_agree:
  "(\<And>x. x \<in> set (concat segs) \<Longrightarrow> nx' x = nx x) \<Longrightarrow> array_rep key i nx st segs \<Longrightarrow> array_rep key i nx' st segs"
proof (induction key i nx st segs rule: array_rep.induct)
  case (2 key i nx p st s segs)
  then show ?case using chain_agree [of "sort_key key s" nx' nx p] by auto
qed auto

lemma merge_up_array:
  "orders cmp key \<Longrightarrow> array_rep key i nx st segs \<Longrightarrow> chain nx (Some cur) (sort_key key s) \<Longrightarrow>
   distinct (concat (rev segs) @ s) \<Longrightarrow> 2 ^ i \<le> length s \<Longrightarrow> length (concat (rev segs) @ s) < 2 ^ 64 \<Longrightarrow>
    \<exists>nx' st' segs'. merge_up cmp i nx cur st = Some (nx', st') \<and> array_rep key i nx' st' segs' \<and>
      concat (rev segs') = concat (rev segs) @ s \<and> (\<forall>z. z \<notin> set (concat (rev segs) @ s) \<longrightarrow> nx' z = nx z)"
proof (induction cmp i nx cur st arbitrary: segs s rule: merge_up.induct)
  case (1 cmp i nx cur)
  then have "segs = []" by (cases segs) auto
  then have "(2::nat) ^ i < 2 ^ 64" using 1(5,6) by simp
  then have "i < 64" using power_less_imp_less_exp [of "2::nat" i 64] by simp
  then show ?case
    using 1 \<open>segs = []\<close> by (intro exI [of _ nx] exI [of _ "[Some cur]"] exI [of _ "[s]"]) (simp add: LOG2_MAX_LIST_SIZE_def)
next
  case (2 cmp i nx cur st)
  then obtain segs' where "segs = [] # segs'" by (cases segs) auto
  then show ?case
    using 2 by (intro exI [of _ nx] exI [of _ "Some cur # st"] exI [of _ "s # segs'"]) simp
next
  case (3 cmp i nx cur l st)
  obtain s0 segs0 where segs: "segs = s0 # segs0" using 3(3) by (cases segs) auto
  have l: "chain nx (Some l) (sort_key key s0)" "array_rep key (Suc i) nx st segs0" "2 ^ i \<le> length s0"
    using 3(3) segs by auto
  have d: "distinct (sort_key key s0 @ sort_key key s)" using 3(5) segs by auto
  obtain nx1 out where m: "MERGE_NONEMPTY_LISTS cmp nx l cur = Some (nx1, out)"
    "chain nx1 (Some out) (sort_key key (s0 @ s))" "\<And>z. z \<notin> set s0 \<union> set s \<Longrightarrow> nx1 z = nx z"
    using merge_nonempty_chain [OF 3(2) l(1) 3(4) d] by (auto simp: merge_by_sort)
  have "array_rep key (Suc i) nx1 st segs0"
    using 3(5) segs by (intro array_rep_agree [OF m(3) l(2)]) auto
  moreover have "distinct (concat (rev segs0) @ s0 @ s)" "2 ^ Suc i \<le> length (s0 @ s)"
    "length (concat (rev segs0) @ s0 @ s) < 2 ^ 64"
    using 3(5-7) l(3) segs by auto
  ultimately obtain nx' st' segs' where r: "merge_up cmp (Suc i) nx1 out st = Some (nx', st')"
    "array_rep key (Suc i) nx' st' segs'" "concat (rev segs') = concat (rev segs0) @ s0 @ s"
    "\<forall>z. z \<notin> set (concat (rev segs0) @ s0 @ s) \<longrightarrow> nx' z = nx1 z"
    using 3(1) [of "(nx1, out)" nx1 out segs0 "s0 @ s"] 3(2) m by fastforce
  show ?case
    using m r segs by (intro exI [of _ nx'] exI [of _ "None # st'"] exI [of _ "[] # segs'"]) auto
qed

lemma take_run_chain:
  assumes "orders cmp key" "chain nx (Some a) ys" "distinct ys" "take_run cmp nx a = (nx', cur, at)"
  shows "\<exists>s ys'. ys = s @ ys' \<and> s \<noteq> [] \<and> chain nx' (Some cur) (sort_key key s) \<and> chain nx' at ys' \<and>
    (\<forall>z. z \<notin> set s \<longrightarrow> nx' z = nx z)"
proof -
  obtain zs where zs: "ys = a # zs" "chain nx (nx a) zs" using assms(2) by (auto simp: chain_Some)
  show ?thesis
  proof (cases zs)
    case Nil
    then show ?thesis using zs assms(4) by (intro exI [of _ "[a]"] exI [of _ "[]"]) (auto simp: take_run_def)
  next
    case (Cons b ws)
    have "0 < cmp a b \<longleftrightarrow> key b < key a" using assms(1) by (metis orders_def not_le)
    then show ?thesis
      using zs Cons assms(3,4) by (intro exI [of _ "[a, b]"] exI [of _ ws]) (auto simp: take_run_def split: if_splits)
  qed
qed

lemma sort_loop_array:
  assumes "orders cmp key"
  shows "array_rep key 0 nx st segs \<Longrightarrow> chain nx at ys \<Longrightarrow> distinct (concat (rev segs) @ ys) \<Longrightarrow>
   length (concat (rev segs) @ ys) < 2 ^ 64 \<Longrightarrow>
    \<exists>nx' st' segs'. sort_loop cmp nx at st = Some (nx', st') \<and> array_rep key 0 nx' st' segs' \<and>
      concat (rev segs') = concat (rev segs) @ ys"
proof (induction "length ys" arbitrary: nx st segs at ys rule: less_induct)
  case less
  show ?case
  proof (cases at)
    case None
    then show ?thesis using less.prems by (auto simp: sort_loop.simps [of _ _ None])
  next
    case (Some a)
    obtain nx1 cur at' where run: "take_run cmp nx a = (nx1, cur, at')" by (metis prod_cases3)
    obtain s ys' where s: "ys = s @ ys'" "s \<noteq> []" "chain nx1 (Some cur) (sort_key key s)" "chain nx1 at' ys'"
      "\<And>z. z \<notin> set s \<Longrightarrow> nx1 z = nx z"
      using take_run_chain [OF assms _ _ run, of ys] less.prems Some by auto
    have "array_rep key 0 nx1 st segs"
      using less.prems(3) s(1) by (intro array_rep_agree [OF s(5) less.prems(1)]) auto
    moreover have "distinct (concat (rev segs) @ s)" "length (concat (rev segs) @ s) < 2 ^ 64" "2 ^ 0 \<le> length s"
      using less.prems(3,4) s(1,2) by (auto simp: Suc_le_eq)
    ultimately obtain nx2 st2 segs2 where m: "merge_up cmp 0 nx1 cur st = Some (nx2, st2)"
      "array_rep key 0 nx2 st2 segs2" "concat (rev segs2) = concat (rev segs) @ s"
      "\<And>z. z \<notin> set (concat (rev segs) @ s) \<Longrightarrow> nx2 z = nx1 z"
      using merge_up_array [OF assms _ s(3), of 0 st segs] by metis
    have "chain nx2 at' ys'"
      using less.prems(3) s(1) chain_agree [of ys' nx2 nx1, OF m(4)] s(4) by fastforce
    moreover have "length ys' < length ys" using s(1,2) by simp
    moreover have "concat (rev segs2) @ ys' = concat (rev segs) @ ys" using m(3) s(1) by simp
    ultimately show ?thesis
      using less.hyps [OF _ m(2), of ys' at'] less.prems(3,4) run m(1) Some
      by (auto simp: sort_loop.simps [of _ _ "Some a"])
  qed
qed

lemma combine_chain:
  "orders cmp key \<Longrightarrow> array_rep key i nx st segs \<Longrightarrow> chain nx tos (sort_key key s) \<Longrightarrow> distinct (concat (rev segs) @ s) \<Longrightarrow>
    \<exists>nx' tos'. combine cmp nx tos st = Some (nx', tos') \<and> chain nx' tos' (sort_key key (concat (rev segs) @ s))"
proof (induction cmp nx tos st arbitrary: i segs s rule: combine.induct)
  case (1 cmp nx tos)
  then show ?case by (cases segs) auto
next
  case (2 cmp nx tos st)
  then obtain segs' where "segs = [] # segs'" by (cases segs) auto
  then show ?case using 2 by auto
next
  case (3 cmp nx l st)
  then obtain s0 segs' where "segs = s0 # segs'" by (cases segs) auto
  then show ?case using 3(1) [of "Suc i" segs' s0] 3(2-) by auto
next
  case (4 cmp nx t l st)
  obtain s0 segs' where segs: "segs = s0 # segs'" using 4(3) by (cases segs) auto
  have l: "chain nx (Some l) (sort_key key s0)" "array_rep key (Suc i) nx st segs'" using 4(3) segs by auto
  have d: "distinct (sort_key key s0 @ sort_key key s)" using 4(5) segs by auto
  obtain nx1 out where m: "MERGE_NONEMPTY_LISTS cmp nx l t = Some (nx1, out)"
    "chain nx1 (Some out) (sort_key key (s0 @ s))" "\<And>z. z \<notin> set s0 \<union> set s \<Longrightarrow> nx1 z = nx z"
    using merge_nonempty_chain [OF 4(2) l(1) 4(4) d] by (auto simp: merge_by_sort)
  have "array_rep key (Suc i) nx1 st segs'"
    using 4(5) segs by (intro array_rep_agree [OF m(3) l(2)]) auto
  then show ?case using 4(1) [of "(nx1, out)" nx1 out "Suc i" segs' "s0 @ s"] 4(2,5) m segs by auto
qed

lemma stack_sort_chain:
  assumes "orders cmp key" "chain nx tos xs" "distinct xs" "length xs < 2 ^ 64"
  shows "\<exists>nx' tos'. GSK_STACK_SORT cmp nx tos = Some (nx', tos') \<and> chain nx' tos' (sort_key key xs)"
proof -
  obtain nx1 st segs where s: "sort_loop cmp nx tos [] = Some (nx1, st)" "array_rep key 0 nx1 st segs" "concat (rev segs) = xs"
    using sort_loop_array [OF assms(1), of nx "[]" "[]" tos xs] assms(2-4) by auto
  then show ?thesis
    using combine_chain [OF assms(1) s(2), of None "[]"] assms(3) by (auto simp: GSK_STACK_SORT_def)
qed

section \<open>Doubly linked lists as lists\<close>

fun path :: "links \<Rightarrow> node option \<Rightarrow> node list \<Rightarrow> node option \<Rightarrow> bool" where
  "path nx p [] q \<longleftrightarrow> p = q"
| "path nx p (x # xs) q \<longleftrightarrow> p = Some x \<and> path nx (nx x) xs q"

lemma path_frame [simp]: "z \<notin> set xs \<Longrightarrow> path (nx(z := v)) p xs q = path nx p xs q"
  by (induction xs arbitrary: p) auto

lemma chain_append: "chain nx p (xs @ y # ys) \<longleftrightarrow> path nx p xs (Some y) \<and> chain nx (nx y) ys"
  by (induction xs arbitrary: p) auto

lemma path_snoc: "path nx p (xs @ [x]) q \<longleftrightarrow> path nx p xs (Some x) \<and> nx x = q"
  by (induction xs arbitrary: p) auto

definition is_list :: "glist \<Rightarrow> node list \<Rightarrow> bool" where
  "is_list l xs \<longleftrightarrow> chain (l_next l) (l_first l) xs \<and> chain (l_prev l) (l_last l) (rev xs) \<and> distinct xs"

lemma is_list_flip: "is_list (flip l) xs = is_list l (rev xs)"
  by (auto simp: is_list_def flip_def)

lemma prepend_list:
  assumes "is_list l xs" "n \<notin> set xs"
  shows "is_list (GSK_LIST_PREPEND l n) (n # xs)"
proof (cases xs)
  case (Cons f ys)
  then have "l_first l = Some f" using assms(1) by (simp add: is_list_def)
  then show ?thesis
    using assms Cons by (auto simp: is_list_def GSK_LIST_PREPEND_def chain_append)
qed (use assms in \<open>auto simp: is_list_def GSK_LIST_PREPEND_def\<close>)

lemma append_list: "is_list l xs \<Longrightarrow> n \<notin> set xs \<Longrightarrow> is_list (GSK_LIST_APPEND l n) (xs @ [n])"
  using prepend_list [of "flip l" "rev xs" n] by (simp add: GSK_LIST_APPEND_def is_list_flip)

lemma remove_first_list:
  assumes "is_list l (x # xs)"
  shows "\<exists>l'. GSK_LIST_REMOVE_FIRST l = Some l' \<and> is_list l' xs"
proof (cases xs)
  case Nil
  then show ?thesis using assms by (auto simp: is_list_def GSK_LIST_REMOVE_FIRST_def)
next
  case (Cons y ys)
  then show ?thesis using assms by (auto simp: is_list_def GSK_LIST_REMOVE_FIRST_def chain_append path_snoc)
qed

lemma remove_last_list:
  assumes "is_list l (xs @ [x])"
  shows "\<exists>l'. GSK_LIST_REMOVE_LAST l = Some l' \<and> is_list l' xs"
  using remove_first_list [of "flip l" x "rev xs"] assms
  by (auto simp: GSK_LIST_REMOVE_LAST_def is_list_flip)

lemma remove_list:
  assumes "is_list l (ys @ n # zs)"
  shows "is_list (GSK_LIST_REMOVE l n) (ys @ zs)"
proof -
  have n: "chain (l_next l) (l_first l) (ys @ n # zs)" "chain (l_prev l) (l_last l) (rev zs @ n # rev ys)"
    "distinct (ys @ n # zs)" using assms by (simp_all add: is_list_def)
  show ?thesis
  proof (cases ys rule: rev_cases)
    case Nil
    then show ?thesis
      using n by (cases zs) (auto simp: is_list_def GSK_LIST_REMOVE_def chain_append path_snoc)
  next
    case (snoc ys' p)
    show ?thesis
    proof (cases zs)
      case Nil
      then show ?thesis
        using n snoc by (auto simp: is_list_def GSK_LIST_REMOVE_def chain_append path_snoc)
    next
      case (Cons z zs')
      then show ?thesis
        using n snoc by (auto simp: is_list_def GSK_LIST_REMOVE_def chain_append path_snoc)
    qed
  qed
qed

lemma insert_after_list:
  assumes "is_list l (ys @ at # zs)" "n \<notin> set (ys @ at # zs)"
  shows "is_list (GSK_LIST_INSERT_AFTER l at n) (ys @ at # n # zs)"
proof -
  have l: "chain (l_next l) (l_first l) (ys @ at # zs)" "chain (l_prev l) (l_last l) (rev zs @ at # rev ys)"
    "distinct (ys @ at # zs)" using assms(1) by (simp_all add: is_list_def)
  show ?thesis
  proof (cases zs)
    case Nil
    then show ?thesis
      using l assms(2) by (auto simp: is_list_def GSK_LIST_INSERT_AFTER_def chain_append)
  next
    case (Cons z zs')
    then show ?thesis
      using l assms(2) by (auto simp: is_list_def GSK_LIST_INSERT_AFTER_def chain_append path_snoc)
  qed
qed

lemma insert_before_list:
  assumes "is_list l (ys @ at # zs)" "n \<notin> set (ys @ at # zs)"
  shows "is_list (GSK_LIST_INSERT_BEFORE l at n) (ys @ n # at # zs)"
  using insert_after_list [of "flip l" "rev zs" at "rev ys" n] assms
  by (simp add: GSK_LIST_INSERT_BEFORE_def is_list_flip)

lemma list_reverse_loop_swaps:
  "chain nx at xs \<Longrightarrow> distinct xs \<Longrightarrow>
    list_reverse_loop pv nx at =
      Some (\<lambda>z. if z \<in> set xs then nx z else pv z, \<lambda>z. if z \<in> set xs then pv z else nx z)"
proof (induction xs arbitrary: pv nx at)
  case Nil
  then show ?case by (simp add: list_reverse_loop.simps [of _ _ None])
next
  case (Cons x xs)
  then have "chain (nx(x := pv x)) (nx x) xs" "distinct xs" by auto
  note IH = Cons.IH [OF this, of "pv(x := nx x)"]
  have "list_reverse_loop pv nx at = list_reverse_loop (pv(x := nx x)) (nx(x := pv x)) (nx x)"
    using Cons.prems(1) by (simp add: list_reverse_loop.simps [of _ _ "Some x"])
  also note IH
  finally show ?case using Cons.prems(2) by (simp add: fun_eq_iff)
qed

lemma reverse_list:
  assumes "is_list l xs"
  shows "\<exists>l'. GSK_LIST_REVERSE l = Some l' \<and> is_list l' (rev xs)"
proof -
  let ?nx = "\<lambda>z. if z \<in> set xs then l_prev l z else l_next l z"
  let ?pv = "\<lambda>z. if z \<in> set xs then l_next l z else l_prev l z"
  have "chain ?nx (l_last l) (rev xs)" "chain ?pv (l_first l) xs"
    using assms chain_agree [of "rev xs" ?nx "l_prev l"] chain_agree [of xs ?pv "l_next l"]
    by (simp_all add: is_list_def)
  moreover have "GSK_LIST_REVERSE l = Some \<lparr>l_first = l_last l, l_last = l_first l, l_prev = ?pv, l_next = ?nx\<rparr>"
    using assms list_reverse_loop_swaps [of "l_next l" "l_first l" xs "l_prev l"]
    by (simp add: is_list_def GSK_LIST_REVERSE_def)
  ultimately show ?thesis using assms by (simp add: is_list_def)
qed

lemma set_prev_loop_chain:
  "chain nx at ys \<Longrightarrow> chain pv prev rs \<Longrightarrow> distinct (ys @ rs) \<Longrightarrow>
    \<exists>pv' last. set_prev_loop nx pv prev at = Some (pv', last) \<and> chain pv' last (rev ys @ rs)"
proof (induction ys arbitrary: at pv prev rs)
  case Nil
  then show ?case by (simp add: set_prev_loop.simps [of _ _ _ None])
next
  case (Cons y ys)
  then have "chain nx (nx y) ys" "chain (pv(y := prev)) (Some y) (y # rs)" "distinct (ys @ y # rs)" by auto
  from Cons.IH [OF this] Cons.prems(1) show ?case
    by (simp add: set_prev_loop.simps [of _ _ _ "Some y"] fun_upd_def)
qed

lemma sort_list:
  assumes "orders cmp key" "is_list l xs" "length xs < 2 ^ 64"
  shows "\<exists>l'. GSK_LIST_SORT cmp l = Some l' \<and> is_list l' (sort_key key xs)"
proof -
  obtain nx first where s: "GSK_STACK_SORT cmp (l_next l) (l_first l) = Some (nx, first)" "chain nx first (sort_key key xs)"
    using stack_sort_chain [OF assms(1), of "l_next l" "l_first l" xs] assms(2,3) by (auto simp: is_list_def)
  have d: "distinct (sort_key key xs)" using assms(2) by (simp add: is_list_def)
  show ?thesis
    using set_prev_loop_chain [OF s(2), of "l_prev l" None "[]"] s d by (auto simp: GSK_LIST_SORT_def is_list_def)
qed

section \<open>Queues as lists\<close>

definition is_queue :: "gqueue \<Rightarrow> node list \<Rightarrow> bool" where
  "is_queue q xs \<longleftrightarrow> chain (q_next q) (q_head q) xs \<and> distinct xs \<and>
     q_tail q = (if xs = [] then None else Some (last xs))"

lemma enqueue_queue:
  assumes "is_queue q xs" "n \<notin> set xs"
  shows "is_queue (GSK_QUEUE_ENQUEUE q n) (xs @ [n])"
proof (cases xs rule: rev_cases)
  case (snoc ys y)
  then show ?thesis
    using assms by (auto simp: is_queue_def GSK_QUEUE_ENQUEUE_def Let_def chain_append path_snoc)
qed (use assms in \<open>auto simp: is_queue_def GSK_QUEUE_ENQUEUE_def Let_def\<close>)

lemma dequeue_queue:
  "is_queue q [] \<Longrightarrow> GSK_QUEUE_DEQUEUE q = (None, q)"
  "is_queue q (x # xs) \<Longrightarrow> fst (GSK_QUEUE_DEQUEUE q) = Some x \<and> is_queue (snd (GSK_QUEUE_DEQUEUE q)) xs"
  by (cases xs; auto simp: is_queue_def GSK_QUEUE_DEQUEUE_def Let_def)+

lemma prepend_queue: "is_queue q xs \<Longrightarrow> n \<notin> set xs \<Longrightarrow> is_queue (GSK_QUEUE_PREPEND q n) (n # xs)"
  by (auto simp: is_queue_def GSK_QUEUE_PREPEND_def Let_def)

lemma reverse_queue:
  assumes "is_queue q xs"
  shows "\<exists>q'. GSK_QUEUE_REVERSE q = Some q' \<and> is_queue q' (rev xs)"
proof -
  obtain nx h where "GSK_STACK_REVERSE (q_next q) (q_head q) = Some (nx, h)" "chain nx h (rev xs)"
    using reverse_loop_chain [of "q_next q" "q_head q" xs None "[]"] assms
    by (auto simp: is_queue_def GSK_STACK_REVERSE_def)
  moreover have "q_head q = (if xs = [] then None else Some (hd xs))"
    using assms by (cases xs) (auto simp: is_queue_def)
  ultimately show ?thesis using assms by (auto simp: is_queue_def GSK_QUEUE_REVERSE_def last_rev)
qed

lemma sort_queue:
  assumes "orders cmp key" "is_queue q xs" "length xs < 2 ^ 64"
  shows "\<exists>q'. GSK_QUEUE_SORT cmp q = Some q' \<and> is_queue q' (sort_key key xs)"
proof -
  obtain nx h where "GSK_STACK_SORT cmp (q_next q) (q_head q) = Some (nx, h)" "chain nx h (sort_key key xs)"
    using stack_sort_chain [OF assms(1), of "q_next q" "q_head q" xs] assms(2,3) by (auto simp: is_queue_def)
  then show ?thesis
    using get_bottom_chain [of nx h "sort_key key xs"] assms(2) by (auto simp: is_queue_def GSK_QUEUE_SORT_def)
qed

section \<open>Sequences of operations\<close>

datatype list_op = Prepend node | Append node | Remove_First | Remove_Last | Remove node
  | Insert_After node node | Insert_Before node node | Reverse | Sort

text \<open>The operations on lists; None where the macro may not be used.\<close>

fun spec_op :: "(node \<Rightarrow> int) \<Rightarrow> list_op \<Rightarrow> node list \<Rightarrow> node list option" where
  "spec_op key (Prepend n) xs = (if n \<in> set xs then None else Some (n # xs))"
| "spec_op key (Append n) xs = (if n \<in> set xs then None else Some (xs @ [n]))"
| "spec_op key Remove_First xs = (if xs = [] then None else Some (tl xs))"
| "spec_op key Remove_Last xs = (if xs = [] then None else Some (butlast xs))"
| "spec_op key (Remove n) xs = (if n \<in> set xs then Some (remove1 n xs) else None)"
| "spec_op key (Insert_After at n) xs =
     (if at \<in> set xs \<and> n \<notin> set xs
      then Some (takeWhile (\<lambda>x. x \<noteq> at) xs @ at # n # tl (dropWhile (\<lambda>x. x \<noteq> at) xs)) else None)"
| "spec_op key (Insert_Before at n) xs =
     (if at \<in> set xs \<and> n \<notin> set xs
      then Some (takeWhile (\<lambda>x. x \<noteq> at) xs @ n # dropWhile (\<lambda>x. x \<noteq> at) xs) else None)"
| "spec_op key Reverse xs = Some (rev xs)"
| "spec_op key Sort xs = Some (sort_key key xs)"

fun apply_op :: "comparator \<Rightarrow> list_op \<Rightarrow> glist \<Rightarrow> glist option" where
  "apply_op cmp (Prepend n) l = Some (GSK_LIST_PREPEND l n)"
| "apply_op cmp (Append n) l = Some (GSK_LIST_APPEND l n)"
| "apply_op cmp Remove_First l = GSK_LIST_REMOVE_FIRST l"
| "apply_op cmp Remove_Last l = GSK_LIST_REMOVE_LAST l"
| "apply_op cmp (Remove n) l = Some (GSK_LIST_REMOVE l n)"
| "apply_op cmp (Insert_After at n) l = Some (GSK_LIST_INSERT_AFTER l at n)"
| "apply_op cmp (Insert_Before at n) l = Some (GSK_LIST_INSERT_BEFORE l at n)"
| "apply_op cmp Reverse l = GSK_LIST_REVERSE l"
| "apply_op cmp Sort l = GSK_LIST_SORT cmp l"

fun run :: "('op \<Rightarrow> 's \<Rightarrow> 's option) \<Rightarrow> 'op list \<Rightarrow> 's \<Rightarrow> 's option" where
  "run step [] s = Some s"
| "run step (op # ops) s = step op s \<bind> (\<lambda>s. run step ops s)"

lemma split_at:
  assumes "at \<in> set xs"
  obtains ys zs where "xs = ys @ at # zs" "takeWhile (\<lambda>x. x \<noteq> at) xs = ys" "dropWhile (\<lambda>x. x \<noteq> at) xs = at # zs"
    "remove1 at xs = ys @ zs"
proof -
  obtain ys zs where s: "xs = ys @ at # zs" "at \<notin> set ys" using split_list_first [OF assms] by blast
  from s(2) have "takeWhile (\<lambda>x. x \<noteq> at) (ys @ at # zs) = ys" "dropWhile (\<lambda>x. x \<noteq> at) (ys @ at # zs) = at # zs"
    "remove1 at (ys @ at # zs) = ys @ zs"
    by (induction ys) auto
  then show thesis using that [of ys zs] s(1) by simp
qed

lemma list_op_refines:
  assumes "orders cmp key" "is_list l xs" "spec_op key op xs = Some ys" "length xs < 2 ^ 64"
  shows "(\<exists>l'. apply_op cmp op l = Some l' \<and> is_list l' ys) \<and> length ys \<le> Suc (length xs)"
proof (cases op)
  case Remove_First
  then show ?thesis using assms(2,3) remove_first_list by (cases xs) auto
next
  case Remove_Last
  then show ?thesis using assms(2,3) remove_last_list by (cases xs rule: rev_cases) auto
next
  case (Remove n)
  then have "n \<in> set xs" "ys = remove1 n xs" using assms(3) by (auto split: if_splits)
  moreover from split_at [OF this(1)] obtain as bs where "xs = as @ n # bs" "remove1 n xs = as @ bs" by metis
  ultimately show ?thesis using Remove assms(2) remove_list [of l as n bs] by simp
next
  case (Insert_After at n)
  then have "at \<in> set xs" "n \<notin> set xs" using assms(3) by (auto split: if_splits)
  moreover from split_at [OF this(1)] obtain as bs where "xs = as @ at # bs"
    "takeWhile (\<lambda>x. x \<noteq> at) xs = as" "dropWhile (\<lambda>x. x \<noteq> at) xs = at # bs" by metis
  ultimately show ?thesis using Insert_After assms(2,3) insert_after_list [of l as at bs n] by auto
next
  case (Insert_Before at n)
  then have "at \<in> set xs" "n \<notin> set xs" using assms(3) by (auto split: if_splits)
  moreover from split_at [OF this(1)] obtain as bs where "xs = as @ at # bs"
    "takeWhile (\<lambda>x. x \<noteq> at) xs = as" "dropWhile (\<lambda>x. x \<noteq> at) xs = at # bs" by metis
  ultimately show ?thesis using Insert_Before assms(2,3) insert_before_list [of l as at bs n] by auto
qed (use assms prepend_list append_list reverse_list sort_list in \<open>auto split: if_splits\<close>)

lemma run_refines:
  assumes "orders cmp key"
  shows "is_list l xs \<Longrightarrow> length xs + length ops < 2 ^ 64 \<Longrightarrow> run (spec_op key) ops xs = Some ys \<Longrightarrow>
    \<exists>l'. run (apply_op cmp) ops l = Some l' \<and> is_list l' ys"
proof (induction ops arbitrary: l xs)
  case (Cons op ops)
  then obtain zs where zs: "spec_op key op xs = Some zs" "run (spec_op key) ops zs = Some ys"
    by (auto simp: bind_eq_Some_conv)
  with list_op_refines [OF assms Cons.prems(1) zs(1)] Cons.prems(2)
  obtain l' where "apply_op cmp op l = Some l'" "is_list l' zs" "length zs \<le> Suc (length xs)" by auto
  then show ?case using Cons.IH [OF _ _ zs(2)] Cons.prems(2) by auto
qed auto

datatype gqueue_op = Enqueue node | Dequeue | Push_Front node | Reverse_Queue | Sort_Queue

text \<open>A queue with what was taken out of it.\<close>

fun spec_queue_op :: "(node \<Rightarrow> int) \<Rightarrow> gqueue_op \<Rightarrow> node list \<times> node option list \<Rightarrow> (node list \<times> node option list) option" where
  "spec_queue_op key (Enqueue n) (xs, out) = (if n \<in> set xs then None else Some (xs @ [n], out))"
| "spec_queue_op key Dequeue (xs, out) =
     Some (case xs of [] \<Rightarrow> (xs, out @ [None]) | x # ys \<Rightarrow> (ys, out @ [Some x]))"
| "spec_queue_op key (Push_Front n) (xs, out) = (if n \<in> set xs then None else Some (n # xs, out))"
| "spec_queue_op key Reverse_Queue (xs, out) = Some (rev xs, out)"
| "spec_queue_op key Sort_Queue (xs, out) = Some (sort_key key xs, out)"

fun apply_queue_op :: "comparator \<Rightarrow> gqueue_op \<Rightarrow> gqueue \<times> node option list \<Rightarrow> (gqueue \<times> node option list) option" where
  "apply_queue_op cmp (Enqueue n) (q, out) = Some (GSK_QUEUE_ENQUEUE q n, out)"
| "apply_queue_op cmp Dequeue (q, out) = (let (n, q) = GSK_QUEUE_DEQUEUE q in Some (q, out @ [n]))"
| "apply_queue_op cmp (Push_Front n) (q, out) = Some (GSK_QUEUE_PREPEND q n, out)"
| "apply_queue_op cmp Reverse_Queue (q, out) = map_option (\<lambda>q. (q, out)) (GSK_QUEUE_REVERSE q)"
| "apply_queue_op cmp Sort_Queue (q, out) = map_option (\<lambda>q. (q, out)) (GSK_QUEUE_SORT cmp q)"

lemma queue_op_refines:
  assumes "orders cmp key" "is_queue q xs" "spec_queue_op key op (xs, out) = Some (ys, out')" "length xs < 2 ^ 64"
  shows "(\<exists>q'. apply_queue_op cmp op (q, out) = Some (q', out') \<and> is_queue q' ys) \<and> length ys \<le> Suc (length xs)"
proof (cases op)
  case Dequeue
  then show ?thesis
    using assms(2,3) dequeue_queue(1) [of q] dequeue_queue(2) [of q]
    by (cases xs; cases "GSK_QUEUE_DEQUEUE q") auto
next
  case Reverse_Queue
  then show ?thesis using assms(2,3) reverse_queue by fastforce
next
  case Sort_Queue
  then show ?thesis using assms sort_queue [OF assms(1,2,4)] by auto
qed (use assms enqueue_queue prepend_queue in \<open>auto split: if_splits\<close>)

lemma run_queue_refines:
  assumes "orders cmp key"
  shows "is_queue q xs \<Longrightarrow> length xs + length ops < 2 ^ 64 \<Longrightarrow> run (spec_queue_op key) ops (xs, out) = Some (ys, out') \<Longrightarrow>
    \<exists>q'. run (apply_queue_op cmp) ops (q, out) = Some (q', out') \<and> is_queue q' ys"
proof (induction ops arbitrary: q xs out)
  case (Cons op ops)
  then obtain zs o1 where zs: "spec_queue_op key op (xs, out) = Some (zs, o1)" "run (spec_queue_op key) ops (zs, o1) = Some (ys, out')"
    by (auto simp: bind_eq_Some_conv)
  with queue_op_refines [OF assms Cons.prems(1) zs(1)] Cons.prems(2)
  obtain q' where "apply_queue_op cmp op (q, out) = Some (q', o1)" "is_queue q' zs" "length zs \<le> Suc (length xs)" by auto
  then show ?case using Cons.IH [OF _ _ zs(2)] Cons.prems(2) by auto
qed auto

section \<open>Properties\<close>

text \<open>C16: Sorting a stack of fewer than \<open>2 ^ 64\<close> nodes returns: the loops along the links end and
  the array of 64 entries is large enough.  The result is the stable sort of the nodes by the
  order of the comparator, and the links of all its nodes form that list.\<close>

theorem stack_sort_returns_stable:
  assumes "orders cmp key" "chain nx tos xs" "distinct xs" "length xs < 2 ^ 64"
  shows "\<exists>nx' tos'. GSK_STACK_SORT cmp nx tos = Some (nx', tos') \<and> chain nx' tos' (sort_key key xs)"
  using stack_sort_chain [OF assms] .

theorem stack_sort_returns_stable_witness:
  "\<exists>nx' tos'. GSK_STACK_SORT (\<lambda>a b. int (a div 10) - int (b div 10))
      ((\<lambda>_. None)(31 := Some 12, 12 := Some 30, 30 := Some 11)) (Some 31) = Some (nx', tos') \<and>
    chain nx' tos' [12, 11, 31, 30]"
proof -
  have "orders (\<lambda>a b. int (a div 10) - int (b div 10)) (\<lambda>a. int (a div 10))" by (simp add: orders_def)
  from stack_sort_returns_stable [OF this, of "(\<lambda>_. None)(31 := Some 12, 12 := Some 30, 30 := Some 11)" "Some 31" "[31, 12, 30, 11]"]
  show ?thesis by (simp add: sort_key_def insort_key.simps)
qed

text \<open>C17: Doubly linked lists and queues refine lists of nodes.  Whatever sequence of operations
  is applied to an empty list, whatever its links contain, as long as each operation may be
  used (a node is not inserted twice, a position is in the list, a list is not empty), all
  operations return, both directions of the links describe the list, and a queue hands out
  the nodes in the order of the list.\<close>

theorem lists_and_queues_refine:
  assumes "orders cmp key" "length ops < 2 ^ 64" "run (spec_op key) ops [] = Some xs"
    and "length qops < 2 ^ 64" "run (spec_queue_op key) qops ([], []) = Some (ys, out)"
  shows "(\<exists>l. run (apply_op cmp) ops \<lparr>l_first = None, l_last = None, l_prev = pv, l_next = nx\<rparr> = Some l \<and>
      chain (l_next l) (l_first l) xs \<and> chain (l_prev l) (l_last l) (rev xs)) \<and>
    (\<exists>q. run (apply_queue_op cmp) qops (\<lparr>q_next = nx, q_head = None, q_tail = None\<rparr>, []) = Some (q, out) \<and>
      chain (q_next q) (q_head q) ys)"
proof -
  have "is_list \<lparr>l_first = None, l_last = None, l_prev = pv, l_next = nx\<rparr> []"
    "is_queue \<lparr>q_next = nx, q_head = None, q_tail = None\<rparr> []" by (simp_all add: is_list_def is_queue_def)
  from run_refines [OF assms(1) this(1) _ assms(3)] run_queue_refines [OF assms(1) this(2) _ assms(5)] assms(2,4)
  show ?thesis by (auto simp: is_list_def is_queue_def)
qed

theorem lists_and_queues_refine_witness:
  "\<exists>l. run (apply_op (\<lambda>a b. int a - int b)) [Append 3, Prepend 5, Insert_After 5 4, Sort, Remove 4, Reverse]
      \<lparr>l_first = None, l_last = None, l_prev = (\<lambda>_. None), l_next = (\<lambda>_. None)\<rparr> = Some l \<and>
    chain (l_next l) (l_first l) [5, 3] \<and> chain (l_prev l) (l_last l) [3, 5]"
proof -
  have "orders (\<lambda>a b. int a - int b) int" by (simp add: orders_def)
  from lists_and_queues_refine [OF this, of "[Append 3, Prepend 5, Insert_After 5 4, Sort, Remove 4, Reverse]" "[5, 3]"
      "[Enqueue 1, Dequeue]" "[]" "[Some 1]" "\<lambda>_. None" "\<lambda>_. None"]
  show ?thesis by (simp add: sort_key_def)
qed

end
