(* ===== verification/Gsk_Url_Code.thy ===== *)
theory Gsk_Url_Code
  imports Gsk_Cstring
begin

text \<open>
  The percent encodings of \<^verbatim>\<open>src/src/url/gskurl.c\<close>.  Each function counts the bytes it needs in a
  first loop, in an \<open>int\<close> or a \<open>guint\<close>, allocates a block, and writes in a second loop.  Results
  are the bytes written before the final NUL; None is a signed overflow of the count or a write
  behind the block.  The lemmas show that the decoders invert the encoders, that an encoded text
  has no reserved characters, and for which texts the blocks are large enough.
\<close>

section \<open>Hexadecimal numbers\<close>

definition is_xdigit :: "u8 \<Rightarrow> bool" where
  "is_xdigit c \<longleftrightarrow> is_digit c \<or> (65 \<le> c \<and> c \<le> 70) \<or> (97 \<le> c \<and> c \<le> 102)"

definition xdigit_value :: "u8 \<Rightarrow> nat" where
  "xdigit_value c = (if is_digit c then unat (c - 48) else unat (to_lower c - 97) + 10)"

text \<open>\<open>strtol (s, NULL, 16)\<close>: white space, a sign, an optional \<open>0x\<close> before a digit, digits.\<close>

definition xdigits_value :: "u8 list \<Rightarrow> nat" where
  "xdigits_value = foldl (\<lambda>n d. n * 16 + xdigit_value d) 0"

definition skip_0x :: "u8 list \<Rightarrow> u8 list" where
  "skip_0x s = (case s of z # x # d # r \<Rightarrow> if z = 48 \<and> to_lower x = 120 \<and> is_xdigit d then d # r else s | _ \<Rightarrow> s)"

definition strtol16 :: "u8 list \<Rightarrow> int" where
  "strtol16 s =
     (let t = dropWhile is_space s;
          neg = (t \<noteq> [] \<and> hd t = 45);
          u = (if t \<noteq> [] \<and> (hd t = 45 \<or> hd t = 43) then tl t else t);
          v = int (xdigits_value (takeWhile is_xdigit (skip_0x u)))
      in max (- (2 ^ 63)) (min (2 ^ 63 - 1) (if neg then - v else v)))"

section \<open>Encoding\<close>

definition should_be_escaped_data :: "u8 list" where
  "should_be_escaped_data =
     [0xff, 0xff, 0xff, 0xff, 0x7d, 0x98, 0x00, 0xfc,
      0x01, 0x00, 0x00, 0x78, 0x01, 0x00, 0x00, 0xb8]"

definition should_be_escaped :: "u8 \<Rightarrow> bool" where
  "should_be_escaped c \<longleftrightarrow>
     (if c AND 0x80 \<noteq> 0 then True
      else should_be_escaped_data ! unat (drop_bit 3 c) AND push_bit (unat (7 AND c)) 1 \<noteq> 0)"

definition hex_characters :: "u8 list" where
  "hex_characters = [48, 49, 50, 51, 52, 53, 54, 55, 56, 57, 97, 98, 99, 100, 101, 102]"

definition percent :: "u8 \<Rightarrow> u8 list" where
  "percent c = [37, hex_characters ! unat (drop_bit 4 c), hex_characters ! unat (c AND 0xf)]"

text \<open>A string written with its NUL to a block of \<open>n\<close> bytes.\<close>

definition in_block :: "nat \<Rightarrow> u8 list \<Rightarrow> u8 list option" where
  "in_block n s = (if length s < n then Some s else None)"

text \<open>The second loop of \<open>gsk_url_encode\<close> and of \<open>gsk_url_encode_http_binary\<close>.\<close>

fun url_encode_bytes :: "u8 list \<Rightarrow> u8 list" where
  "url_encode_bytes [] = []"
| "url_encode_bytes (c # r) = (if should_be_escaped c then percent c else [c]) @ url_encode_bytes r"

text \<open>The first loop: \<open>length\<close> is an \<open>int\<close>.\<close>

fun url_encode_length :: "u8 list \<Rightarrow> int \<Rightarrow> int option" where
  "url_encode_length [] len = Some len"
| "url_encode_length (c # r) len =
     (let len = len + (if should_be_escaped c then 3 else 1)
      in if len \<le> 2147483647 then url_encode_length r len else None)"

definition gsk_url_encode :: "u8 list \<Rightarrow> u8 list option" where
  "gsk_url_encode raw =
     (case url_encode_length raw 0 of
        None \<Rightarrow> None
      | Some len \<Rightarrow> if len = 2147483647 then None else in_block (nat (len + 1)) (url_encode_bytes raw))"

text \<open>\<open>len\<close> is a \<open>guint\<close>, and \<open>len + 1\<close> is computed in 32 bits.\<close>

fun encode_http_length :: "u8 list \<Rightarrow> u32" where
  "encode_http_length [] = 0"
| "encode_http_length (c # r) = (if c \<noteq> 32 \<and> should_be_escaped c then 3 else 1) + encode_http_length r"

fun encode_http_bytes :: "u8 list \<Rightarrow> u8 list" where
  "encode_http_bytes [] = []"
| "encode_http_bytes (c # r) =
     (if c = 32 then [43] else if should_be_escaped c then percent c else [c]) @ encode_http_bytes r"

definition gsk_url_encode_http :: "u8 list \<Rightarrow> u8 list option" where
  "gsk_url_encode_http decoded = in_block (unat (encode_http_length decoded + 1)) (encode_http_bytes decoded)"

fun http_binary_length :: "u8 list \<Rightarrow> u32 \<Rightarrow> u32" where
  "http_binary_length [] rv_len = rv_len"
| "http_binary_length (c # r) rv_len = http_binary_length r (if should_be_escaped c then rv_len + 2 else rv_len)"

definition gsk_url_encode_http_binary :: "u8 list \<Rightarrow> u8 list option" where
  "gsk_url_encode_http_binary decoded =
     in_block (unat (http_binary_length decoded (of_nat (length decoded)) + 1)) (url_encode_bytes decoded)"

section \<open>Decoding\<close>

definition byte_of_hex :: "u8 \<Rightarrow> u8 \<Rightarrow> u8" where
  "byte_of_hex a b = word_of_int (strtol16 [a, b])"

text \<open>The first loop counts in an \<open>int\<close> and rejects a percent sign without two characters behind
  it: the inner None is the result NULL.\<close>

fun url_decode_length :: "u8 list \<Rightarrow> int \<Rightarrow> int option option" where
  "url_decode_length [] len = Some (Some len)"
| "url_decode_length (c # r) len =
     (if c = 37 then
        (case r of
           a # b # r' \<Rightarrow> if len = 2147483647 then None else url_decode_length r' (len + 1)
         | _ \<Rightarrow> Some None)
      else if len = 2147483647 then None else url_decode_length r (len + 1))"

text \<open>The second loop counts the unescaped characters in \<open>length\<close> once more.\<close>

fun url_decode_loop :: "u8 list \<Rightarrow> int \<Rightarrow> u8 list option option" where
  "url_decode_loop [] len = Some (Some [])"
| "url_decode_loop (c # r) len =
     (if c = 37 then
        (case r of
           a # b # r' \<Rightarrow> map_option (map_option ((#) (byte_of_hex a b))) (url_decode_loop r' len)
         | _ \<Rightarrow> Some None)
      else if len = 2147483647 then None else map_option (map_option ((#) c)) (url_decode_loop r (len + 1)))"

definition gsk_url_decode :: "u8 list \<Rightarrow> u8 list option option" where
  "gsk_url_decode encoded =
     (case url_decode_length encoded 0 of
        None \<Rightarrow> None
      | Some None \<Rightarrow> Some None
      | Some (Some len) \<Rightarrow>
          if len = 2147483647 then None
          else
            (case url_decode_loop encoded len of
               None \<Rightarrow> None
             | Some None \<Rightarrow> Some None
             | Some (Some s) \<Rightarrow> map_option Some (in_block (nat (len + 1)) s)))"

text \<open>The first loop, in a \<open>guint\<close>; None for a percent sign without two digits.\<close>

fun decode_http_length :: "u8 list \<Rightarrow> u32 option" where
  "decode_http_length [] = Some 0"
| "decode_http_length (c # r) =
     (if c = 37 then
        (case r of
           a # b # r' \<Rightarrow> if is_xdigit a \<and> is_xdigit b then map_option ((+) 1) (decode_http_length r') else None
         | _ \<Rightarrow> None)
      else map_option ((+) 1) (decode_http_length r))"

fun decode_http_loop :: "u8 list \<Rightarrow> u8 list" where
  "decode_http_loop [] = []"
| "decode_http_loop (c # r) =
     (if c = 37 then (case r of a # b # r' \<Rightarrow> byte_of_hex a b # decode_http_loop r' | _ \<Rightarrow> [])
      else (if c = 43 then 32 else c) # decode_http_loop r)"

definition gsk_url_decode_http :: "u8 list \<Rightarrow> u8 list option" where
  "gsk_url_decode_http encoded =
     (case decode_http_length encoded of
        None \<Rightarrow> Some []
      | Some len \<Rightarrow> in_block (unat (len + 1)) (decode_http_loop encoded))"

section \<open>Form data\<close>

datatype form_state = START | GOT_OTHER | GOT_EQUALS | INVALID

text \<open>The first scan; its condition for an equals sign tests the constant \<open>GOT_OTHER\<close>, which
  is not zero, and not the state.\<close>

fun count_pairs :: "form_state \<Rightarrow> u8 list \<Rightarrow> u32" where
  "count_pairs state [] = (if state = GOT_EQUALS then 1 else 0)"
| "count_pairs state (c # r) =
     (if c = 38 then (if state = GOT_EQUALS then 1 else 0) + count_pairs START r
      else if c = 61 then count_pairs GOT_EQUALS r
      else count_pairs (if state = START then GOT_OTHER else state) r)"

text \<open>The second scan, with the bytes behind \<open>name\<close> and \<open>value\<close> so far.\<close>

definition decode_pair :: "form_state \<Rightarrow> u8 list \<Rightarrow> u8 list \<Rightarrow> u8 list list option" where
  "decode_pair state name val =
     (if state = GOT_EQUALS
      then do { n \<leftarrow> gsk_url_decode_http name; v \<leftarrow> gsk_url_decode_http val; Some [n, v] }
      else Some [])"

fun split_loop :: "form_state \<Rightarrow> u8 list \<Rightarrow> u8 list \<Rightarrow> u8 list \<Rightarrow> u8 list list option" where
  "split_loop state name val [] = decode_pair state name val"
| "split_loop state name val (c # r) =
     (if c = 38 then
        do { strs \<leftarrow> decode_pair state name val; rest \<leftarrow> split_loop START name val r; Some (strs @ rest) }
      else if c = 61 then
        (if state = GOT_OTHER then split_loop GOT_EQUALS name [] r else split_loop INVALID name val r)
      else
        (case state of
           START \<Rightarrow> split_loop GOT_OTHER [c] val r
         | GOT_OTHER \<Rightarrow> split_loop GOT_OTHER (name @ [c]) val r
         | GOT_EQUALS \<Rightarrow> split_loop GOT_EQUALS name (val @ [c]) r
         | INVALID \<Rightarrow> split_loop INVALID name val r))"

text \<open>The number of pointers is computed in 32 bits; None when the strings and the final NULL are
  written behind the array.\<close>

definition gsk_url_split_form_urlencoded :: "u8 list \<Rightarrow> u8 list list option" where
  "gsk_url_split_form_urlencoded encoded_query = do {
     strs \<leftarrow> split_loop START [] [] encoded_query;
     if length strs < unat (push_bit 1 (count_pairs START encoded_query) + 1) then Some strs else None }"

section \<open>Hexadecimal digits\<close>

lemma hex_characters_all:
  "list_all (\<lambda>n. is_xdigit (hex_characters ! n) \<and> xdigit_value (hex_characters ! n) = n \<and>
     \<not> should_be_escaped (hex_characters ! n) \<and> \<not> is_space (hex_characters ! n) \<and>
     hex_characters ! n \<noteq> 45 \<and> hex_characters ! n \<noteq> 43) [0..<16]"
  by code_simp

lemma hex_character:
  assumes "n < 16"
  shows "is_xdigit (hex_characters ! n)" "xdigit_value (hex_characters ! n) = n"
    "\<not> should_be_escaped (hex_characters ! n)" "\<not> is_space (hex_characters ! n)"
    "hex_characters ! n \<noteq> 45" "hex_characters ! n \<noteq> 43"
  using hex_characters_all assms by (auto simp: list_all_iff)

lemma escaped_specials: "should_be_escaped 37" "should_be_escaped 43" "should_be_escaped 32"
  by code_simp+

lemma nibbles: "unat (drop_bit 4 (c :: u8)) = unat c div 16" "unat (c AND 0xf) = unat c mod 16"
proof -
  show "unat (drop_bit 4 c) = unat c div 16" by (simp add: drop_bit_eq_div unat_div)
  have "c AND 0xf = take_bit 4 c" by (simp add: take_bit_eq_mask mask_eq_exp_minus_1)
  then show "unat (c AND 0xf) = unat c mod 16" by (simp add: take_bit_eq_mod unat_mod)
qed

lemma uint_lt2p_u8: "0 \<le> uint (c :: u8) \<and> uint c < 256"
  using unsigned_less [of c, where 'a = int] by simp

lemma byte_of_hex_percent:
  "byte_of_hex (hex_characters ! unat (drop_bit 4 c)) (hex_characters ! unat (c AND 0xf)) = c"
proof -
  have d: "unat c div 16 < 16" "unat c mod 16 < 16" by (simp_all add: div_less_iff_less_mult)
  have "unat c div 16 * 16 + unat c mod 16 = unat c" by (rule div_mult_mod_eq)
  moreover have "max (- (2 ^ 63)) (min (2 ^ 63 - 1) (uint c)) = uint c"
  proof -
    have b: "0 \<le> uint c" "uint c < 256" using uint_lt2p_u8 [of c] by blast+
    have "uint c \<le> 2 ^ 63 - 1" using b(2) by simp
    moreover have "- (2 ^ 63) \<le> uint c" by (rule order_trans [OF _ b(1)]) simp
    ultimately show ?thesis by (simp only: min_absorb2 max_absorb2)
  qed
  ultimately have "strtol16 [hex_characters ! (unat c div 16), hex_characters ! (unat c mod 16)] = int (unat c)"
    using hex_character [OF d(1)] hex_character [OF d(2)] unat_u8_bound [of c]
    by (simp add: strtol16_def skip_0x_def xdigits_value_def Let_def flip: of_nat_mult of_nat_add)
  then show ?thesis by (simp add: byte_of_hex_def nibbles)
qed

lemma percent_parts:
  obtains a b where "percent c = [37, a, b]" "byte_of_hex a b = c" "is_xdigit a" "is_xdigit b"
    "\<not> should_be_escaped a" "\<not> should_be_escaped b"
proof -
  have d: "unat c div 16 < 16" "unat c mod 16 < 16" by (simp_all add: div_less_iff_less_mult)
  show thesis
    by (rule that [OF percent_def byte_of_hex_percent])
      (use hex_character [OF d(1)] hex_character [OF d(2)] in \<open>simp_all add: nibbles\<close>)
qed

section \<open>The counts and the blocks\<close>

lemma unat_Suc_of_nat: "unat (of_nat n + 1 :: u32) = Suc n mod 4294967296"
proof -
  have "of_nat n + 1 = (of_nat (Suc n) :: u32)" by (simp add: add.commute)
  moreover have "unat (of_nat k :: u32) = k mod 4294967296" for k by (simp add: unat_of_nat)
  ultimately show ?thesis by (simp only:)
qed

text \<open>A block of one byte more than the string, computed in 32 bits, holds it below \<open>2 ^ 32 - 1\<close> bytes.\<close>

lemma in_block_u32:
  "in_block (unat (of_nat (length s) + 1 :: u32)) s = (if length s < 4294967295 then Some s else None)"
proof (cases "length s < 4294967295")
  case False
  have "Suc (length s) mod 4294967296 \<le> length s"
  proof (cases "length s = 4294967295")
    case False
    have "Suc (length s) mod 4294967296 < 4294967296" by simp
    then show ?thesis using False \<open>\<not> length s < 4294967295\<close> by linarith
  qed simp
  then show ?thesis using False by (simp add: in_block_def unat_Suc_of_nat)
qed (simp add: in_block_def unat_Suc_of_nat)

lemma url_encode_length_exact:
  "url_encode_length s len =
     (if len + int (length (url_encode_bytes s)) \<le> 2147483647 \<or> s = [] then Some (len + int (length (url_encode_bytes s))) else None)"
  by (induction s arbitrary: len) (auto simp: percent_def Let_def)

lemma gsk_url_encode_block:
  "gsk_url_encode s = (if length (url_encode_bytes s) < 2147483647 then Some (url_encode_bytes s) else None)"
  by (auto simp: gsk_url_encode_def url_encode_length_exact in_block_def)

lemma encode_http_length_exact: "encode_http_length s = of_nat (length (encode_http_bytes s))"
  by (induction s) (auto simp: percent_def)

lemma gsk_url_encode_http_block:
  "gsk_url_encode_http s = (if length (encode_http_bytes s) < 4294967295 then Some (encode_http_bytes s) else None)"
  by (simp add: gsk_url_encode_http_def encode_http_length_exact in_block_u32)

lemma http_binary_length_exact:
  "http_binary_length s w + of_nat (length s) = w + of_nat (length (url_encode_bytes s))"
proof (induction s arbitrary: w)
  case (Cons c s)
  show ?case using Cons [of w] Cons [of "w + 2"] by (auto simp: percent_def algebra_simps)
qed simp

lemma gsk_url_encode_http_binary_block:
  "gsk_url_encode_http_binary s = (if length (url_encode_bytes s) < 4294967295 then Some (url_encode_bytes s) else None)"
proof -
  have "http_binary_length s (of_nat (length s)) = of_nat (length (url_encode_bytes s))"
    using http_binary_length_exact [of s "of_nat (length s)"] by simp
  then show ?thesis by (simp add: gsk_url_encode_http_binary_def in_block_u32)
qed

lemma encoded_length: "length (url_encode_bytes s) \<le> 3 * length s" "length (encode_http_bytes s) \<le> 3 * length s"
  by (induction s) (simp_all add: percent_def)

lemma decode_http_length_exact:
  "decode_http_length e = Some len \<Longrightarrow> len = of_nat (length (decode_http_loop e))"
  by (induction e arbitrary: len rule: decode_http_length.induct) (auto split: if_splits list.splits)

lemma decode_http_loop_length: "length (decode_http_loop e) \<le> length e"
  by (induction e rule: decode_http_loop.induct) (fastforce split: list.splits)+

lemma gsk_url_decode_http_block:
  "length e < 4294967295 \<Longrightarrow>
   gsk_url_decode_http e = Some (if decode_http_length e = None then [] else decode_http_loop e)"
  using decode_http_loop_length [of e]
  by (auto simp: gsk_url_decode_http_def in_block_u32 dest: decode_http_length_exact split: option.splits)

section \<open>Decoding what was encoded\<close>

lemma unescaped_not_special: "\<not> should_be_escaped c \<Longrightarrow> c \<noteq> 37 \<and> c \<noteq> 43 \<and> c \<noteq> 32"
  using escaped_specials by auto

lemma decode_length_encode:
  "len + int (length s) \<le> 2147483647 \<Longrightarrow> url_decode_length (url_encode_bytes s) len = Some (Some (len + int (length s)))"
proof (induction s arbitrary: len)
  case (Cons c s)
  obtain a b where "percent c = [37, a, b]" using percent_parts by metis
  then show ?case using Cons.IH [of "len + 1"] Cons.prems unescaped_not_special [of c] by auto
qed simp

lemma decode_loop_encode:
  "len + int (length s) \<le> 2147483647 \<Longrightarrow> url_decode_loop (url_encode_bytes s) len = Some (Some s)"
proof (induction s arbitrary: len)
  case (Cons c s)
  obtain a b where "percent c = [37, a, b]" "byte_of_hex a b = c" using percent_parts by metis
  then show ?case using Cons.IH [of "len + 1"] Cons.IH [of len] Cons.prems unescaped_not_special [of c] by auto
qed simp

lemma gsk_url_decode_encode:
  assumes "length s < 1073741824"
  shows "gsk_url_decode (url_encode_bytes s) = Some (Some s)"
  using assms decode_length_encode [of 0 s] decode_loop_encode [of "int (length s)" s]
  by (simp add: gsk_url_decode_def in_block_def)

lemma decode_http_encode_bytes:
  "decode_http_length (encode_http_bytes s) \<noteq> None \<and> decode_http_loop (encode_http_bytes s) = s"
proof (induction s)
  case (Cons c s)
  obtain a b where "percent c = [37, a, b]" "byte_of_hex a b = c" "is_xdigit a" "is_xdigit b"
    using percent_parts by metis
  then show ?case using Cons unescaped_not_special [of c] by auto
qed simp

lemma decode_http_url_bytes:
  "decode_http_length (url_encode_bytes s) \<noteq> None \<and> decode_http_loop (url_encode_bytes s) = s"
proof (induction s)
  case (Cons c s)
  obtain a b where "percent c = [37, a, b]" "byte_of_hex a b = c" "is_xdigit a" "is_xdigit b"
    using percent_parts by metis
  then show ?case using Cons unescaped_not_special [of c] by auto
qed simp

lemma decode_http_encode:
  "length (encode_http_bytes s) < 4294967295 \<Longrightarrow> gsk_url_decode_http (encode_http_bytes s) = Some s"
  "length (url_encode_bytes s) < 4294967295 \<Longrightarrow> gsk_url_decode_http (url_encode_bytes s) = Some s"
  using decode_http_encode_bytes [of s] decode_http_url_bytes [of s] by (auto simp: gsk_url_decode_http_block)

lemma encode_http_chars: "c \<in> set (encode_http_bytes s) \<Longrightarrow> c = 37 \<or> c = 43 \<or> \<not> should_be_escaped c"
proof (induction s)
  case (Cons x s)
  obtain a b where "percent x = [37, a, b]" "\<not> should_be_escaped a" "\<not> should_be_escaped b"
    using percent_parts by metis
  then show ?case using Cons by (auto split: if_splits)
qed simp

lemma encode_chars: "c \<in> set (url_encode_bytes s) \<Longrightarrow> c = 37 \<or> \<not> should_be_escaped c"
proof (induction s)
  case (Cons x s)
  obtain a b where "percent x = [37, a, b]" "\<not> should_be_escaped a" "\<not> should_be_escaped b"
    using percent_parts by metis
  then show ?case using Cons by (auto split: if_splits)
qed simp

section \<open>Form data of encoded pairs\<close>

fun form_encode :: "(u8 list \<times> u8 list) list \<Rightarrow> u8 list" where
  "form_encode [] = []"
| "form_encode [(k, v)] = encode_http_bytes k @ 61 # encode_http_bytes v"
| "form_encode ((k, v) # kvs) = encode_http_bytes k @ 61 # encode_http_bytes v @ 38 # form_encode kvs"

lemma escaped_separators: "should_be_escaped 38" "should_be_escaped 61"
  by code_simp+

lemma encode_http_no_separator: "38 \<notin> set (encode_http_bytes s)" "61 \<notin> set (encode_http_bytes s)"
  using encode_http_chars [of 38 s] encode_http_chars [of 61 s] escaped_separators by auto

lemma split_loop_name:
  "38 \<notin> set xs \<Longrightarrow> 61 \<notin> set xs \<Longrightarrow> split_loop GOT_OTHER name val (xs @ r) = split_loop GOT_OTHER (name @ xs) val r"
  by (induction xs arbitrary: name) auto

lemma split_loop_val:
  "38 \<notin> set xs \<Longrightarrow> 61 \<notin> set xs \<Longrightarrow> split_loop GOT_EQUALS name val (xs @ r) = split_loop GOT_EQUALS name (val @ xs) r"
  by (induction xs arbitrary: val) auto

lemma split_loop_pair:
  assumes "k \<noteq> []"
  shows "split_loop START n w (encode_http_bytes k @ 61 # encode_http_bytes v @ r) =
    split_loop GOT_EQUALS (encode_http_bytes k) (encode_http_bytes v) r"
proof -
  obtain c cs where "encode_http_bytes k = c # cs"
    using assms by (cases k; cases "encode_http_bytes k") (auto simp: percent_def split: if_splits)
  moreover from this have "c \<noteq> 38" "c \<noteq> 61" "38 \<notin> set cs" "61 \<notin> set cs"
    using encode_http_no_separator [of k] by auto
  ultimately show ?thesis
    using split_loop_name [of cs "[c]" w "61 # encode_http_bytes v @ r"]
      split_loop_val [OF encode_http_no_separator, of "c # cs" "[]" v r] by simp
qed

lemma decode_pair_encoded:
  "length (encode_http_bytes k) < 4294967295 \<Longrightarrow> length (encode_http_bytes v) < 4294967295 \<Longrightarrow>
   decode_pair GOT_EQUALS (encode_http_bytes k) (encode_http_bytes v) = Some [k, v]"
  by (simp add: decode_pair_def decode_http_encode)

lemma split_form_encode:
  "list_all (\<lambda>(k, v). k \<noteq> []) kvs \<Longrightarrow> length (form_encode kvs) < 4294967295 \<Longrightarrow>
   split_loop START n w (form_encode kvs) = Some (concat (map (\<lambda>(k, v). [k, v]) kvs))"
proof (induction kvs arbitrary: n w rule: form_encode.induct)
  case (2 k v)
  then show ?case using split_loop_pair [of k n w v "[]"] by (simp add: decode_pair_encoded)
next
  case (3 k v kv kvs)
  then show ?case
    using split_loop_pair [of k n w v "38 # form_encode (kv # kvs)"] by (simp add: decode_pair_encoded)
qed (simp add: decode_pair_def)

text \<open>The pairs of the first scan as a natural number.\<close>

fun pairs :: "form_state \<Rightarrow> u8 list \<Rightarrow> nat" where
  "pairs state [] = (if state = GOT_EQUALS then 1 else 0)"
| "pairs state (c # r) =
     (if c = 38 then (if state = GOT_EQUALS then 1 else 0) + pairs START r
      else if c = 61 then pairs GOT_EQUALS r
      else pairs (if state = START then GOT_OTHER else state) r)"

lemma count_pairs_pairs: "count_pairs state q = of_nat (pairs state q)"
  by (induction state q rule: pairs.induct) auto

lemma pairs_le: "2 * pairs state q \<le> length q + (if state = GOT_EQUALS then 2 else 1)"
  by (induction state q rule: pairs.induct) (auto split: if_splits)

lemma decode_pair_Some:
  "length name < 4294967295 \<Longrightarrow> length val < 4294967295 \<Longrightarrow>
   \<exists>strs. decode_pair state name val = Some strs \<and> length strs = (if state = GOT_EQUALS then 2 else 0)"
  by (simp add: decode_pair_def gsk_url_decode_http_block)

text \<open>The first scan may be ahead of the second one: it accepts an equals sign in every state.\<close>

lemma split_loop_fits:
  assumes "s = s' \<or> s' = GOT_EQUALS" "length name + length val + length q < 4294967295"
  shows "\<exists>strs. split_loop s name val q = Some strs \<and> length strs \<le> 2 * pairs s' q"
  using assms
proof (induction q arbitrary: s s' name val)
  case Nil
  obtain strs where "decode_pair s name val = Some strs" "length strs = (if s = GOT_EQUALS then 2 else 0)"
    using decode_pair_Some [of name val s] Nil(2) by auto
  then show ?case using Nil(1) by auto
next
  case (Cons c q)
  show ?case
  proof (cases "c = 38")
    case True
    obtain strs where strs: "decode_pair s name val = Some strs" "length strs = (if s = GOT_EQUALS then 2 else 0)"
      using decode_pair_Some [of name val s] Cons.prems(2) by auto
    obtain rest where "split_loop START name val q = Some rest" "length rest \<le> 2 * pairs START q"
      using Cons.IH [of START START name val] Cons.prems(2) by auto
    then show ?thesis using True strs Cons.prems(1) by auto
  next
    case False
    have IH: "length n + length w + length q < 4294967295 \<Longrightarrow>
        \<exists>strs. split_loop t n w q = Some strs \<and> length strs \<le> 2 * pairs u q" if "t = u \<or> u = GOT_EQUALS" for t u n w
      using Cons.IH that by blast
    show ?thesis
    proof (cases "c = 61")
      case True
      then show ?thesis
        using IH [of GOT_EQUALS GOT_EQUALS name "[]"] IH [of INVALID GOT_EQUALS name val] Cons.prems(2) by simp
    next
      case other: False
      show ?thesis
        using False other Cons.prems IH [of GOT_OTHER _ "[c]" val] IH [of GOT_OTHER _ "name @ [c]" val]
          IH [of GOT_EQUALS _ name "val @ [c]"] IH [of INVALID _ name val]
        by (cases s) auto
    qed
  qed
qed

lemma gsk_url_split_form_fits:
  assumes "length q < 4294967294"
  shows "\<exists>strs. gsk_url_split_form_urlencoded q = Some strs \<and> split_loop START [] [] q = Some strs \<and>
    length strs \<le> 2 * unat (count_pairs START q)"
proof -
  have n: "2 * pairs START q < 4294967295" using pairs_le [of START q] assms by simp
  then have c: "unat (count_pairs START q) = pairs START q"
    using unat_of_nat_u32 [of "pairs START q"] by (simp add: count_pairs_pairs)
  have "push_bit 1 (count_pairs START q) = of_nat (2 * pairs START q)"
    by (simp add: count_pairs_pairs push_bit_eq_mult)
  then have "unat (push_bit 1 (count_pairs START q) + 1) = Suc (2 * pairs START q)"
    using n unat_Suc_of_nat [of "2 * pairs START q"] by simp
  then show ?thesis
    using split_loop_fits [of START START "[]" "[]" q] assms c by (auto simp: gsk_url_split_form_urlencoded_def)
qed

text \<open>The query of \<open>n\<close> pairs \<open>a=&\<close>.\<close>

definition many_pairs :: "nat \<Rightarrow> u8 list" where
  "many_pairs n = concat (replicate n [97, 61, 38])"

lemma many_pairs_split:
  "split_loop START name val (many_pairs n) = Some (concat (replicate n [[97], []]))"
proof (induction n arbitrary: name val)
  case (Suc n)
  have "decode_pair GOT_EQUALS [97] [] = Some [[97], []]" by code_simp
  then show ?case using Suc [of "[97]" "[]"] by (simp add: many_pairs_def)
qed (simp add: many_pairs_def decode_pair_def)

lemma many_pairs_count: "count_pairs START (many_pairs n) = of_nat n"
  by (induction n) (simp_all add: many_pairs_def)

lemma many_pairs_overflow: "gsk_url_split_form_urlencoded (many_pairs (2 ^ 31)) = None"
proof -
  have "push_bit 1 (count_pairs START (many_pairs (2 ^ 31))) = 0"
    by (simp add: many_pairs_count push_bit_eq_mult)
  moreover have "length (concat (replicate n [[97 :: u8], []])) = 2 * n" for n by (induction n) simp_all
  ultimately show ?thesis by (simp only: gsk_url_split_form_urlencoded_def many_pairs_split) simp
qed

section \<open>Properties\<close>

text \<open>C19: The URL encodings round-trip: a text of which three times the length is below
  \<open>2 ^ 31 - 1\<close> is encoded, the block allocated holds the encoding, the text consists of
  unreserved characters, percent signs and (for HTTP) plus signs, and it is decoded to the
  text again.  For every text, the block holds the encoding exactly when the encoding is shorter
  than \<open>2 ^ 31 - 1\<close> bytes (\<open>gsk_url_encode\<close>, whose count is an \<open>int\<close>) or \<open>2 ^ 32 - 1\<close> bytes (the
  HTTP encoders; the binary one takes data of less than \<open>2 ^ 32\<close> bytes).  Splitting the form data of encoded pairs with non-empty names gives the
  pairs back.\<close>

theorem url_codes_roundtrip:
  assumes "3 * length s < 2147483647"
    and "list_all (\<lambda>(k, v). k \<noteq> []) kvs" "length (form_encode kvs) < 4294967294"
  shows "(\<exists>e. gsk_url_encode s = Some e \<and> gsk_url_decode e = Some (Some s) \<and>
      (\<forall>c \<in> set e. c = 37 \<or> \<not> should_be_escaped c)) \<and>
    (\<exists>h. gsk_url_encode_http s = Some h \<and> gsk_url_decode_http h = Some s \<and>
      (\<forall>c \<in> set h. c = 37 \<or> c = 43 \<or> \<not> should_be_escaped c)) \<and>
    (\<exists>b. gsk_url_encode_http_binary s = Some b \<and> gsk_url_decode_http b = Some s) \<and>
    (gsk_url_encode t = None \<longleftrightarrow> 2147483647 \<le> length (url_encode_bytes t)) \<and>
    (gsk_url_encode_http t = None \<longleftrightarrow> 4294967295 \<le> length (encode_http_bytes t)) \<and>
    (gsk_url_encode_http_binary t = None \<longleftrightarrow> 4294967295 \<le> length (url_encode_bytes t)) \<and>
    gsk_url_split_form_urlencoded (form_encode kvs) = Some (concat (map (\<lambda>(k, v). [k, v]) kvs))"
proof -
  have "length (url_encode_bytes s) < 2147483647" "length (encode_http_bytes s) < 2147483647"
    using encoded_length [of s] assms(1) by linarith+
  then show ?thesis
    using gsk_url_decode_encode [of s] decode_http_encode [of s] encode_chars encode_http_chars assms(1)
      gsk_url_split_form_fits [OF assms(3)] split_form_encode [OF assms(2), of "[]" "[]"] assms(3)
    by (auto simp: gsk_url_encode_block gsk_url_encode_http_block gsk_url_encode_http_binary_block)
qed

theorem url_codes_roundtrip_witness:
  "(\<exists>h. gsk_url_encode_http [97, 32, 255] = Some h \<and> gsk_url_decode_http h = Some [97, 32, 255]) \<and>
   gsk_url_split_form_urlencoded (form_encode [([97], [98, 61]), ([99], [])]) = Some [[97], [98, 61], [99], []]"
proof -
  have "length (form_encode [([97], [98, 61]), ([99], [])]) < 4294967294" by (simp add: percent_def)
  then show ?thesis
    using url_codes_roundtrip [of "[97, 32, 255]" "[([97], [98, 61]), ([99], [])]" "[]"] by auto
qed

text \<open>C20: For every query of less than \<open>2 ^ 32 - 2\<close> bytes, malformed ones included, splitting form
  data stores no more strings than were counted, and they fit the array allocated, although
  the first scan counts pairs that the second one does not accept.  The size of the array is
  computed in 32 bits: \<open>2 ^ 31\<close> pairs are written behind it.\<close>

theorem split_form_fits:
  assumes "length q < 4294967294"
  shows "(\<exists>strs. gsk_url_split_form_urlencoded q = Some strs \<and> length strs \<le> 2 * unat (count_pairs START q)) \<and>
    gsk_url_split_form_urlencoded (many_pairs (2 ^ 31)) = None"
  using gsk_url_split_form_fits [OF assms] many_pairs_overflow by blast

theorem split_form_fits_witness:
  "\<exists>strs. gsk_url_split_form_urlencoded [97, 61, 61, 38, 61] = Some strs \<and> length strs \<le> 4"
proof -
  have "count_pairs START [97, 61, 61, 38, 61] = 2" by code_simp
  then show ?thesis using split_form_fits [of "[97, 61, 61, 38, 61]"] by simp
qed

end
