(* ===== verification/Gsk_Escape.thy ===== *)
theory Gsk_Escape
  imports Gsk_Url_Code
begin

text \<open>
  The textual dumps of \<^verbatim>\<open>src/src/gskutils.c\<close>: C escapes and hexadecimal.  Errors are values of a
  sum type.  The hexadecimal dump round-trips; the C escapes do not, and the lemmas show where.
\<close>

section \<open>C escapes\<close>

datatype unescape_error = Bad_Backslashed | Expected_Double_Quote | Invalid_Hex_Char | Odd_Nibbles | Reads_Behind

definition is_print :: "u8 \<Rightarrow> bool" where
  "is_print c \<longleftrightarrow> 32 \<le> c \<and> c \<le> 126"

fun octal :: "nat \<Rightarrow> u8 list" where
  "octal n = (if n < 8 then [48 + of_nat n] else octal (n div 8) @ [48 + of_nat (n mod 8)])"

declare octal.simps [simp del]

text \<open>One byte of the block \<open>data\<close>; the digit test looks at \<open>data[1]\<close>, as the code does.\<close>

definition escape_byte :: "u8 list \<Rightarrow> nat \<Rightarrow> u8 list" where
  "escape_byte data i =
     (let c = data ! i
      in if \<not> is_print c \<or> c \<le> 27 \<or> c = 34 \<or> c = 92 then
           (if c = 9 then [92, 116]
            else if c = 13 then [92, 114]
            else if c = 10 then [92, 110]
            else if c = 92 then [92, 92]
            else if c = 34 then [92, 34]
            else if i + 1 < length data \<and> is_digit (data ! 1) then 92 # pad_left 48 3 (octal (unat c))
            else 92 # octal (unat c))
         else [c])"

definition gsk_escape_memory :: "u8 list \<Rightarrow> u8 list" where
  "gsk_escape_memory data = concat (map (escape_byte data) [0..<length data])"

text \<open>\<open>strtoul (v, NULL, 8)\<close> on a text of decimal digits.\<close>

definition strtoul8 :: "u8 list \<Rightarrow> nat" where
  "strtoul8 v = foldl (\<lambda>n d. n * 8 + unat (d - 48)) 0 (takeWhile (\<lambda>d. 48 \<le> d \<and> d \<le> 55) v)"

text \<open>The loop: the bytes decoded and the text that is left.  Behind a letter the pointer is
  not advanced.\<close>

fun unescape_loop :: "u8 list \<Rightarrow> u8 list \<Rightarrow> unescape_error + u8 list \<times> u8 list" where
  "unescape_loop acc [] = Inr (acc, [])"
| "unescape_loop acc (c # r) =
     (if c = 34 then Inr (acc, c # r)
      else if c = 92 then
        (case r of
           [] \<Rightarrow> Inl Bad_Backslashed
         | d # _ \<Rightarrow>
             if is_alpha d then
               (if d = 114 then unescape_loop (acc @ [13]) r
                else if d = 110 then unescape_loop (acc @ [10]) r
                else if d = 116 then unescape_loop (acc @ [9]) r
                else Inl Bad_Backslashed)
             else if is_digit d then
               (let v = takeWhile is_digit (take 3 r)
                in unescape_loop (acc @ [of_nat (strtoul8 v)]) (drop (length v) r))
             else Inl Bad_Backslashed)
      else unescape_loop (acc @ [c]) r)"

definition gsk_unescape_memory :: "u8 list \<Rightarrow> bool \<Rightarrow> unescape_error + u8 list \<times> u8 list" where
  "gsk_unescape_memory quoted has_quote_marks =
     (if has_quote_marks then
        (case quoted of
           c # r \<Rightarrow>
             if c \<noteq> 34 then Inl Expected_Double_Quote
             else
               (case unescape_loop [] r of
                  Inl e \<Rightarrow> Inl e
                | Inr (s, q # rest) \<Rightarrow> if q \<noteq> 34 then Inl Expected_Double_Quote else Inr (s, rest)
                | Inr (s, []) \<Rightarrow> Inl Expected_Double_Quote)
         | [] \<Rightarrow> Inl Expected_Double_Quote)
      else unescape_loop [] quoted)"

section \<open>Hexadecimal\<close>

text \<open>The bytes allocated, computed in 32 bits, and the text.\<close>

definition escape_hex_alloc :: "nat \<Rightarrow> u32" where
  "escape_hex_alloc len = of_nat len * 2 + 1"

definition value_to_hex :: "u8 list" where
  "value_to_hex = [48, 49, 50, 51, 52, 53, 54, 55, 56, 57, 97, 98, 99, 100, 101, 102]"

definition gsk_escape_memory_hex :: "u8 list \<Rightarrow> u8 list" where
  "gsk_escape_memory_hex data =
     concat (map (\<lambda>i. [value_to_hex ! unat (drop_bit 4 i), value_to_hex ! unat (i AND 0xf)]) data)"

definition IS_HEX_CHAR :: "u8 \<Rightarrow> bool" where
  "IS_HEX_CHAR c \<longleftrightarrow> (48 \<le> c \<and> c \<le> 57) \<or> (97 \<le> c \<and> c \<le> 102) \<or> (65 \<le> c \<and> c \<le> 70)"

definition HEX_VALUE :: "u8 \<Rightarrow> int" where
  "HEX_VALUE c =
     (if sint c \<le> 57 then sint c - 48 else if sint c \<le> 70 then sint c - 65 + 10 else sint c - 97 + 10)"

text \<open>The two checking loops: the length, or None for a character that is not a digit.  The index
  of the second one is 32 bits wide: it stands for the loop on texts shorter than \<open>2 ^ 32\<close>
  bytes.\<close>

fun hex_scan :: "nat \<Rightarrow> nat \<Rightarrow> u8 list \<Rightarrow> int \<Rightarrow> int option" where
  "hex_scan i n [] len = (if i < n then Some (int i) else Some len)"
| "hex_scan i n (c # r) len =
     (if i < n then (if c = 0 then Some (int i) else if IS_HEX_CHAR c then hex_scan (Suc i) n r len else None)
      else Some len)"

fun hex_scan_all :: "nat \<Rightarrow> u8 list \<Rightarrow> int option" where
  "hex_scan_all i [] = Some (int i)"
| "hex_scan_all i (c # r) =
     (if c = 0 then Some (int i) else if IS_HEX_CHAR c then hex_scan_all (Suc i) r else None)"

fun hex_bytes :: "u8 list \<Rightarrow> nat \<Rightarrow> u8 list option" where
  "hex_bytes str 0 = Some []"
| "hex_bytes (a # b # r) (Suc n) = map_option ((#) (word_of_int (HEX_VALUE a * 16 + HEX_VALUE b))) (hex_bytes r n)"
| "hex_bytes str (Suc n) = None"

definition gsk_unescape_memory_hex :: "u8 list \<Rightarrow> int \<Rightarrow> unescape_error + u8 list" where
  "gsk_unescape_memory_hex str len =
     (case (if len \<ge> 0 then hex_scan 0 (unat (word_of_int len :: u32)) str len else hex_scan_all 0 str) of
        None \<Rightarrow> Inl Invalid_Hex_Char
      | Some len \<Rightarrow>
          if len mod 2 = 1 then Inl Odd_Nibbles
          else
            (case hex_bytes str (unat (word_of_int (len div 2) :: u32)) of
               None \<Rightarrow> Inl Reads_Behind
             | Some rv \<Rightarrow> Inr rv))"

section \<open>The hexadecimal round trip\<close>

lemma hex_character_value: "n < 16 \<Longrightarrow> IS_HEX_CHAR (value_to_hex ! n) \<and> HEX_VALUE (value_to_hex ! n) = int n"
proof -
  have "list_all (\<lambda>n. IS_HEX_CHAR (value_to_hex ! n) \<and> HEX_VALUE (value_to_hex ! n) = int n) [0..<16]" by code_simp
  then show "n < 16 \<Longrightarrow> IS_HEX_CHAR (value_to_hex ! n) \<and> HEX_VALUE (value_to_hex ! n) = int n"
    by (auto simp: list_all_iff)
qed

lemma IS_HEX_CHAR_0: "\<not> IS_HEX_CHAR 0"
  by (simp add: IS_HEX_CHAR_def)

lemma escape_hex_Cons:
  obtains a b where "gsk_escape_memory_hex (c # data) = a # b # gsk_escape_memory_hex data"
    "IS_HEX_CHAR a" "IS_HEX_CHAR b" "word_of_int (HEX_VALUE a * 16 + HEX_VALUE b) = c"
proof -
  have d: "unat c div 16 < 16" "unat c mod 16 < 16" by (simp_all add: div_less_iff_less_mult)
  note h = hex_character_value [OF d(1)] hex_character_value [OF d(2)]
  have "int (unat c div 16) * 16 + int (unat c mod 16) = int (unat c)"
    by (metis div_mult_mod_eq of_nat_add of_nat_mult of_nat_numeral)
  then have "word_of_int (int (unat c div 16) * 16 + int (unat c mod 16)) = c" by simp
  then show thesis
    by (intro that [of "value_to_hex ! (unat c div 16)" "value_to_hex ! (unat c mod 16)"])
      (use h in \<open>auto simp: gsk_escape_memory_hex_def nibbles simp del: of_int_add of_int_mult\<close>)
qed

lemma length_escape_hex [simp]: "length (gsk_escape_memory_hex data) = 2 * length data"
  by (induction data) (auto simp: gsk_escape_memory_hex_def)

lemma hex_chars_escape: "\<forall>c \<in> set (gsk_escape_memory_hex data). IS_HEX_CHAR c"
proof (induction data)
  case (Cons c data)
  obtain a b where "gsk_escape_memory_hex (c # data) = a # b # gsk_escape_memory_hex data" "IS_HEX_CHAR a" "IS_HEX_CHAR b"
    using escape_hex_Cons by metis
  then show ?case using Cons by simp
qed (simp add: gsk_escape_memory_hex_def)

lemma hex_bytes_escape: "hex_bytes (gsk_escape_memory_hex data) (length data) = Some data"
proof (induction data)
  case (Cons c data)
  obtain a b where "gsk_escape_memory_hex (c # data) = a # b # gsk_escape_memory_hex data"
    "word_of_int (HEX_VALUE a * 16 + HEX_VALUE b) = c"
    using escape_hex_Cons by metis
  then show ?case using Cons by (simp del: of_int_add of_int_mult)
qed (simp add: gsk_escape_memory_hex_def)

lemma hex_scan_all_ok: "\<forall>c \<in> set str. IS_HEX_CHAR c \<Longrightarrow> hex_scan_all i str = Some (int (i + length str))"
  by (induction str arbitrary: i) (use IS_HEX_CHAR_0 in auto)

lemma hex_scan_ok: "\<forall>c \<in> set str. IS_HEX_CHAR c \<Longrightarrow> hex_scan i (i + length str) str len = Some len"
proof (induction str arbitrary: i)
  case (Cons c str)
  then show ?case using Cons.IH [of "Suc i"] IS_HEX_CHAR_0 by auto
qed simp

lemma hex_scan_all_bad: "0 \<notin> set str \<Longrightarrow> \<exists>c \<in> set str. \<not> IS_HEX_CHAR c \<Longrightarrow> hex_scan_all i str = None"
  by (induction str arbitrary: i) auto

section \<open>Properties\<close>

text \<open>C21: A hexadecimal dump of less than \<open>2 ^ 31\<close> bytes is read back, with the length given or up
  to the NUL; an odd number of digits and a character that is not a digit are reported as
  errors.  The size of the dump is computed in 32 bits and wraps for longer data: for
  \<open>2 ^ 31\<close> bytes one byte is allocated.\<close>

theorem hex_dump_roundtrip:
  assumes "length data < 2 ^ 31" "0 \<notin> set str" "length str < 2 ^ 32"
  shows "gsk_unescape_memory_hex (gsk_escape_memory_hex data) (- 1) = Inr data \<and>
    gsk_unescape_memory_hex (gsk_escape_memory_hex data) (2 * int (length data)) = Inr data \<and>
    ((\<exists>c \<in> set str. \<not> IS_HEX_CHAR c) \<longrightarrow> gsk_unescape_memory_hex str (- 1) = Inl Invalid_Hex_Char) \<and>
    ((\<forall>c \<in> set str. IS_HEX_CHAR c) \<and> odd (length str) \<longrightarrow> gsk_unescape_memory_hex str (- 1) = Inl Odd_Nibbles) \<and>
    unat (escape_hex_alloc (length data)) = 2 * length data + 1 \<and> escape_hex_alloc (2 ^ 31) = 1"
proof -
  have n: "unat (word_of_int (int (length data)) :: u32) = length data"
    "unat (word_of_int (2 * int (length data)) :: u32) = 2 * length data"
    using assms(1) unat_of_nat_u32 [of "length data"] unat_of_nat_u32 [of "2 * length data"]
    by (simp_all add: of_nat_mult)
  have scan: "hex_scan 0 (2 * length data) (gsk_escape_memory_hex data) len = Some len" for len
    using hex_scan_ok [OF hex_chars_escape, of 0 data len] by simp
  have "unat (of_nat (2 * length data + 1) :: u32) = 2 * length data + 1"
    using assms(1) by (intro unat_of_nat_u32) simp
  then have "unat (escape_hex_alloc (length data)) = 2 * length data + 1"
    by (simp add: escape_hex_alloc_def algebra_simps)
  moreover have "escape_hex_alloc (2 ^ 31) = 1" by (simp add: escape_hex_alloc_def)
  moreover have "int (length str) mod 2 = 1" if "odd (length str)"
    using that by (metis even_of_nat odd_iff_mod_2_eq_one)
  ultimately show ?thesis
    using n scan hex_scan_all_ok [OF hex_chars_escape, of 0 data] hex_bytes_escape hex_scan_all_bad [OF assms(2), of 0]
      hex_scan_all_ok [of str 0]
    by (auto simp: gsk_unescape_memory_hex_def)
qed

theorem hex_dump_roundtrip_witness:
  "gsk_unescape_memory_hex (gsk_escape_memory_hex [0, 171, 255]) (- 1) = Inr [0, 171, 255] \<and>
   gsk_unescape_memory_hex [48, 49, 97] (- 1) = Inl Odd_Nibbles"
  using hex_dump_roundtrip [of "[0, 171, 255]" "[48, 49, 97]"] by (simp add: IS_HEX_CHAR_def)

definition plain :: "u8 \<Rightarrow> bool" where
  "plain c \<longleftrightarrow> is_print c \<and> \<not> c \<le> 27 \<and> c \<noteq> 34 \<and> c \<noteq> 92"

lemma unescape_plain: "list_all plain s \<Longrightarrow> unescape_loop acc (s @ r) = unescape_loop (acc @ s) r"
  by (induction s arbitrary: acc) (auto simp: plain_def)

lemma escape_plain_prefix:
  assumes "list_all plain pre"
  shows "gsk_escape_memory (pre @ post) = pre @ concat (map (escape_byte (pre @ post)) [length pre..<length (pre @ post)])"
proof -
  have "concat (map (escape_byte (pre @ post)) [0..<length pre]) = concat (map (\<lambda>i. [pre ! i]) [0..<length pre])"
    using assms by (intro arg_cong [where f = concat] map_cong refl)
      (auto simp: escape_byte_def nth_append plain_def list_all_length)
  also have "\<dots> = pre" by (simp add: concat_map_singleton map_nth)
  finally have "concat (map (escape_byte (pre @ post)) [0..<length pre]) = pre" .
  then show ?thesis
    using upt_add_eq_append [of 0 "length pre" "length post"] by (simp add: gsk_escape_memory_def)
qed

text \<open>C40: The C escapes do not round-trip.  Plain text does.  A text that ends in a newline comes
  back with the letter of the escape behind the newline; a quotation mark or a backslash,
  which the encoder writes with a backslash, is rejected by the decoder; and two different
  byte strings have the same escapes, because the encoder looks for a digit at the second byte
  of the data and not behind the byte it escapes.\<close>

theorem c_escapes_do_not_roundtrip:
  assumes "list_all plain pre" "c = 34 \<or> c = 92" "plain a" "plain b" "\<not> is_digit b"
  shows "gsk_unescape_memory (gsk_escape_memory pre) False = Inr (pre, []) \<and>
    gsk_unescape_memory (gsk_escape_memory (pre @ [10])) False = Inr (pre @ [10, 110], []) \<and>
    gsk_unescape_memory (gsk_escape_memory (pre @ c # post)) False = Inl Bad_Backslashed \<and>
    gsk_escape_memory [a, b, 1, 48] = gsk_escape_memory [a, b, 8]"
proof -
  have p: "gsk_unescape_memory (gsk_escape_memory pre) False = Inr (pre, [])"
    using escape_plain_prefix [OF assms(1), of "[]"] unescape_plain [OF assms(1), of "[]" "[]"]
    by (simp add: gsk_unescape_memory_def)
  have "escape_byte (pre @ [10]) (length pre) = [92, 110]" by (simp add: escape_byte_def is_print_def)
  then have nl: "gsk_unescape_memory (gsk_escape_memory (pre @ [10])) False = Inr (pre @ [10, 110], [])"
    using escape_plain_prefix [OF assms(1), of "[10]"] unescape_plain [OF assms(1), of "[]" "[92, 110]"]
    by (simp add: gsk_unescape_memory_def is_alpha_def is_lower_def)
  have "escape_byte (pre @ c # post) (length pre) = [92, c]" using assms(2) by (auto simp: escape_byte_def is_print_def)
  then have "gsk_escape_memory (pre @ c # post) = pre @ 92 # c # concat (map (escape_byte (pre @ c # post)) [Suc (length pre)..<length (pre @ c # post)])"
    using escape_plain_prefix [OF assms(1), of "c # post"] by (simp add: upt_conv_Cons del: upt_Suc)
  then have bad: "gsk_unescape_memory (gsk_escape_memory (pre @ c # post)) False = Inl Bad_Backslashed"
    using assms(2) unescape_plain [OF assms(1), of "[]"]
    by (auto simp: gsk_unescape_memory_def is_alpha_def is_lower_def is_upper_def is_digit_def)
  have "gsk_escape_memory [a, b, 1, 48] = gsk_escape_memory [a, b, 8]"
    using assms(3-5) by (simp add: gsk_escape_memory_def escape_byte_def plain_def is_print_def octal.simps upt_rec)
  with p nl bad show ?thesis by blast
qed

theorem c_escapes_do_not_roundtrip_witness:
  "gsk_unescape_memory (gsk_escape_memory [97, 10]) False = Inr ([97, 10, 110], []) \<and>
   gsk_unescape_memory (gsk_escape_memory [97, 34]) False = Inl Bad_Backslashed"
  using c_escapes_do_not_roundtrip [of "[97]" 34 97 97 "[]"] by (simp add: plain_def is_print_def is_digit_def)

end
