(* ===== verification/Gsk_Ipv4.thy ===== *)
theory Gsk_Ipv4
  imports Gsk_Cstring
begin

text \<open>
  The dotted decimal parser of \<^verbatim>\<open>src/src/gskipv4.c\<close>.  The output array is part of the result,
  since the code writes the octets it has read before it finds an error.  None is a write outside
  the array.
\<close>

definition gsk_ipv4_ip_address_any :: "u8 list" where
  "gsk_ipv4_ip_address_any = [0, 0, 0, 0]"

definition gsk_ipv4_ip_address_loopback :: "u8 list" where
  "gsk_ipv4_ip_address_loopback = [127, 0, 0, 1]"

text \<open>\<open>strchr (str, '.')\<close> as an offset.\<close>

definition strchr_dot :: "u8 list \<Rightarrow> nat option" where
  "strchr_dot str =
     (let k = length (takeWhile (\<lambda>c. c \<noteq> 46) str) in if k < length str then Some k else None)"

text \<open>\<open>ip_addr_out[i] = n\<close>.\<close>

definition store_octet :: "u8 list \<Rightarrow> nat \<Rightarrow> u64 \<Rightarrow> u8 list option" where
  "store_octet out i n = (if i < length out then Some (out[i := ucast n]) else None)"

text \<open>The loop over the first three octets: whether it ended without an error, the rest of the
  string and the array.\<close>

function ipv4_loop :: "nat \<Rightarrow> u8 list \<Rightarrow> u8 list \<Rightarrow> (bool \<times> u8 list \<times> u8 list) option" where
  "ipv4_loop i str out =
     (if i < 3 then
        (case strchr_dot str of
           None \<Rightarrow> Some (False, str, out)
         | Some dot \<Rightarrow>
             (case strtoul str of (n, endp) \<Rightarrow>
                if endp \<noteq> dot then Some (False, str, out)
                else if n > 255 then Some (False, str, out)
                else
                  (case store_octet out i n of
                     None \<Rightarrow> None
                   | Some out \<Rightarrow> ipv4_loop (Suc i) (drop (dot + 1) str) out)))
      else Some (True, str, out))"
  by pat_completeness auto
termination by (relation "measure (\<lambda>(i, str, out). 3 - i)") auto

declare ipv4_loop.simps [simp del]

definition gsk_ipv4_parse :: "u8 list \<Rightarrow> u8 list \<Rightarrow> (bool \<times> u8 list) option" where
  "gsk_ipv4_parse str out =
     (case ipv4_loop 0 str out of
        None \<Rightarrow> None
      | Some (False, _, out) \<Rightarrow> Some (False, out)
      | Some (True, str, out) \<Rightarrow>
          (case strtoul str of (n, endp) \<Rightarrow>
             if endp = 0 \<or> endp < length str then Some (False, out)
             else if n > 255 then Some (False, out)
             else map_option (\<lambda>out. (True, out)) (store_octet out 3 n)))"

section \<open>Dots\<close>

lemma strchr_dot_Some:
  assumes "strchr_dot str = Some dot"
  shows "dot < length str" "str ! dot = 46" "46 \<notin> set (take dot str)"
proof -
  have k: "dot = length (takeWhile (\<lambda>c. c \<noteq> 46) str)" "dot < length str"
    using assms by (auto simp: strchr_dot_def Let_def split: if_splits)
  then show "dot < length str" "str ! dot = 46" using nth_length_takeWhile by auto
  have "take dot str = takeWhile (\<lambda>c. c \<noteq> 46) str" unfolding k(1) by (rule takeWhile_eq_take [symmetric])
  then show "46 \<notin> set (take dot str)" by (auto dest: set_takeWhileD)
qed

lemma strchr_dot_block: "46 \<notin> set ds \<Longrightarrow> strchr_dot (ds @ 46 # rest) = Some (length ds)"
proof -
  assume "46 \<notin> set ds"
  then have "takeWhile (\<lambda>c. c \<noteq> 46) (ds @ 46 # rest) = ds" by (intro takeWhile_block) auto
  then show ?thesis by (simp add: strchr_dot_def)
qed

lemma count_dots_split: "strchr_dot str = Some dot \<Longrightarrow> count_list str 46 = Suc (count_list (drop (dot + 1) str) 46)"
proof -
  assume d: "strchr_dot str = Some dot"
  note f = strchr_dot_Some [OF d]
  have "str = take dot str @ 46 # drop (dot + 1) str" using f(1,2) by (metis Suc_eq_plus1 id_take_nth_drop)
  then have "count_list str 46 = count_list (take dot str @ 46 # drop (dot + 1) str) 46"
    by (rule arg_cong [where f = "\<lambda>s. count_list s 46"])
  then show ?thesis using f(3) by (simp add: count_notin)
qed

lemma strto_scan_no_dot:
  assumes "strto_scan s = (neg, ds, k)" "k + length ds = length s"
  shows "46 \<notin> set s"
proof -
  let ?w = "takeWhile is_space s" and ?t = "dropWhile is_space s"
  have sp: "46 \<notin> set ?w" by (auto dest: set_takeWhileD simp: is_space_def word_le_nat_alt)
  have dg: "46 \<notin> set (takeWhile is_digit r)" for r by (auto dest: set_takeWhileD simp: is_digit_def word_le_nat_alt)
  have t: "drop (length ?w) s = ?t" by (simp add: dropWhile_eq_drop)
  have ls: "length s = length ?w + length ?t" by (metis length_append takeWhile_dropWhile_id)
  have all: "takeWhile is_digit r = r" if "length (takeWhile is_digit r) = length r" for r
    using that by (metis takeWhile_eq_take take_all_iff order_refl)
  have "46 \<notin> set ?t"
  proof (cases ?t)
    case (Cons c r)
    then show ?thesis
      using assms ls t all [of r] all [of "c # r"] dg [of r] dg [of "c # r"]
      by (auto simp: strto_scan_def Let_def is_digit_def split: if_splits)
  next
    case Nil
    show ?thesis unfolding Nil by simp
  qed
  with sp show ?thesis by (metis Un_iff set_append takeWhile_dropWhile_id)
qed

lemma strtoul_no_dot: "strtoul s = (n, length s) \<Longrightarrow> s \<noteq> [] \<Longrightarrow> 46 \<notin> set s"
  by (auto simp: strtoul_def Let_def split: prod.splits if_splits dest: strto_scan_no_dot)

lemma strtoul_le: "snd (strtoul s) \<le> length s"
proof -
  let ?w = "takeWhile is_space s" and ?t = "dropWhile is_space s"
  have ls: "length s = length ?w + length ?t" by (metis length_append takeWhile_dropWhile_id)
  have t: "drop (length ?w) s = ?t" by (simp add: dropWhile_eq_drop)
  show ?thesis
  proof (cases ?t)
    case Nil
    show ?thesis unfolding strtoul_def strto_scan_def Let_def t Nil by simp
  next
    case (Cons c r)
    then show ?thesis
      using ls length_takeWhile_le [of is_digit r] by (simp add: strtoul_def strto_scan_def Let_def t)
  qed
qed

lemma ipv4_loop_end: "ipv4_loop 3 str out = Some (True, str, out)"
  by (subst ipv4_loop.simps) simp

lemma ipv4_loop_facts:
  assumes "length out = 4" "i \<le> 3"
  shows "\<exists>ok rest out'. ipv4_loop i str out = Some (ok, rest, out') \<and> length out' = 4 \<and>
    (ok \<longrightarrow> count_list str 46 = (3 - i) + count_list rest 46)"
  using assms
proof (induction i str out rule: ipv4_loop.induct)
  case (1 i str out)
  show ?case
  proof (cases "ipv4_loop i str out = Some (False, str, out)")
    case True
    then show ?thesis using 1(2) by (intro exI [of _ False] exI [of _ str] exI [of _ out]) simp
  next
    case False
    show ?thesis
    proof (cases "i < 3")
      case True
      then obtain dot n where d: "strchr_dot str = Some dot" "strtoul str = (n, dot)" "\<not> n > 255"
        using False by (subst (asm) ipv4_loop.simps) (auto split: option.splits prod.splits if_splits)
      let ?out = "out[i := ucast n]"
      have st: "store_octet out i n = Some ?out" using True 1(2) by (simp add: store_octet_def)
      have "ipv4_loop i str out = ipv4_loop (Suc i) (drop (dot + 1) str) ?out"
        using True d st by (subst ipv4_loop.simps) simp
      moreover have "\<exists>ok rest out'. ipv4_loop (Suc i) (drop (dot + 1) str) ?out = Some (ok, rest, out') \<and>
          length out' = 4 \<and> (ok \<longrightarrow> count_list (drop (dot + 1) str) 46 = (3 - Suc i) + count_list rest 46)"
        using 1(1) [OF True d(1) d(2) [symmetric] _ d(3) st] 1(2) True by simp
      ultimately show ?thesis using True count_dots_split [OF d(1)] by auto
    next
      case i: False
      then have "i = 3" using 1(3) by simp
      then show ?thesis
        using 1(2) ipv4_loop_end by (intro exI [of _ True] exI [of _ str] exI [of _ out]) simp
    qed
  qed
qed

section \<open>Properties\<close>

lemma decimal_byte:
  fixes a :: u8
  assumes "rest = [] \<or> hd rest = 46"
  shows "strtoul (decimal (unat a) @ rest) = (ucast a, length (decimal (unat a)))"
    and "46 \<notin> set (decimal (unat a))"
proof -
  have "unat a < 2 ^ 64" using unat_u8_bound [of a] by (simp del: unat_u8_bound)
  then show "strtoul (decimal (unat a) @ rest) = (ucast a, length (decimal (unat a)))"
    using strtoul_digits [OF decimal_digits decimal_not_Nil, of rest "unat a"] assms
    by (auto simp: digits_value_decimal is_digit_def)
  show "46 \<notin> set (decimal (unat a))" using decimal_digits [of "unat a"] by (auto simp: is_digit_def)
qed

lemma octet_word [simp]: "\<not> 255 < (ucast (a :: u8) :: u64)" "ucast (ucast (a :: u8) :: u64) = a"
proof -
  have "unat (ucast a :: u64) = unat a"
    using unat_u8_bound [of a] by (simp add: unsigned_ucast_eq take_bit_nat_eq_self del: unat_u8_bound)
  then show "\<not> 255 < (ucast a :: u64)"
    using unat_u8_bound [of a] by (simp add: word_less_nat_alt del: unat_u8_bound)
  show "ucast (ucast a :: u64) = a"
    by (rule bit_word_eqI) (simp add: bit_simps)
qed

lemma ipv4_octet:
  "i < 3 \<Longrightarrow> i < length out \<Longrightarrow>
   ipv4_loop i (decimal (unat a) @ 46 # rest) out = ipv4_loop (Suc i) rest (out[i := a])"
  using decimal_byte [of "46 # rest" a] strchr_dot_block [of "decimal (unat a)" rest]
  by (subst ipv4_loop.simps) (simp add: store_octet_def)

lemma ipv4_empty_octet:
  "i < 3 \<Longrightarrow> i < length out \<Longrightarrow> ipv4_loop i (46 # rest) out = ipv4_loop (Suc i) rest (out[i := 0])"
proof -
  assume "i < 3" "i < length out"
  moreover have "strtoul (46 # rest) = (0, 0)" by (simp add: strtoul_def strto_scan_def is_space_def is_digit_def)
  ultimately show ?thesis using strchr_dot_block [of "[]" rest] by (subst ipv4_loop.simps) (simp add: store_octet_def)
qed

lemma ipv4_last: "strtoul (decimal (unat (a :: u8))) = (ucast a, length (decimal (unat a)))"
  using decimal_byte(1) [of "[]" a] by simp

lemma ipv4_dotted:
  fixes d :: u8
  assumes "3 \<le> length out"
  shows "gsk_ipv4_parse (decimal (unat a) @ 46 # decimal (unat b) @ 46 # decimal (unat c) @ 46 # decimal (unat d)) out
      = map_option (\<lambda>out. (True, out)) (store_octet (out[0 := a, 1 := b, 2 := c]) 3 (ucast d))"
    and "gsk_ipv4_parse (46 # 46 # 46 # decimal (unat d)) out
      = map_option (\<lambda>out. (True, out)) (store_octet (out[0 := 0, 1 := 0, 2 := 0]) 3 (ucast d))"
proof -
  obtain x y z r where "out = x # y # z # r" using assms by (auto simp: numeral_3_eq_3 Suc_le_length_iff)
  moreover have "ipv4_loop (Suc (Suc (Suc 0))) str out = Some (True, str, out)" for str out
    using ipv4_loop_end by (simp add: numeral_3_eq_3)
  ultimately show "gsk_ipv4_parse (decimal (unat a) @ 46 # decimal (unat b) @ 46 # decimal (unat c) @ 46 # decimal (unat d)) out
      = map_option (\<lambda>out. (True, out)) (store_octet (out[0 := a, 1 := b, 2 := c]) 3 (ucast d))"
    and "gsk_ipv4_parse (46 # 46 # 46 # decimal (unat d)) out
      = map_option (\<lambda>out. (True, out)) (store_octet (out[0 := 0, 1 := 0, 2 := 0]) 3 (ucast d))"
    by (simp_all add: gsk_ipv4_parse_def ipv4_octet ipv4_empty_octet ipv4_last)
qed

lemma ipv4_parse_inside:
  assumes "length out = 4"
  shows "\<exists>ok out'. gsk_ipv4_parse str out = Some (ok, out') \<and> length out' = 4 \<and> (ok \<longrightarrow> count_list str 46 = 3)"
proof -
  obtain ok rest out' where l: "ipv4_loop 0 str out = Some (ok, rest, out')" "length out' = 4"
    "ok \<longrightarrow> count_list str 46 = 3 + count_list rest 46"
    using ipv4_loop_facts [OF assms, of 0 str] by auto
  obtain n endp where n: "strtoul rest = (n, endp)" by (cases "strtoul rest")
  show ?thesis
  proof (cases "ok \<and> endp \<noteq> 0 \<and> \<not> endp < length rest")
    case True
    then have "46 \<notin> set rest" using n strtoul_le [of rest] strtoul_no_dot [of rest n] by fastforce
    then show ?thesis using True l n by (auto simp: gsk_ipv4_parse_def store_octet_def count_notin)
  next
    case False
    then show ?thesis using l n by (cases ok) (auto simp: gsk_ipv4_parse_def)
  qed
qed

text \<open>C22: The parser accepts the dotted decimal text of every address and stores its four octets.
  With an array of four bytes no text makes it write outside the array, and it accepts only
  texts with exactly three dots; with an array of three bytes the last octet of an address is
  written outside.  The first three octets may be empty, though: they are read as 0.\<close>

theorem ipv4_parse_dotted:
  assumes "length out = 4" "length short = 3"
  shows "gsk_ipv4_parse (decimal (unat a) @ 46 # decimal (unat b) @ 46 # decimal (unat c) @ 46 # decimal (unat d)) out
      = Some (True, [a, b, c, d]) \<and>
    (\<exists>ok out'. gsk_ipv4_parse str out = Some (ok, out') \<and> length out' = 4 \<and> (ok \<longrightarrow> count_list str 46 = 3)) \<and>
    gsk_ipv4_parse (decimal (unat a) @ 46 # decimal (unat b) @ 46 # decimal (unat c) @ 46 # decimal (unat d)) short = None \<and>
    gsk_ipv4_parse (46 # 46 # 46 # decimal (unat d)) out = Some (True, [0, 0, 0, d])"
proof -
  obtain x y z w where "out = [x, y, z, w]"
    using assms(1) by (auto simp: numeral_eq_Suc length_Suc_conv)
  then show ?thesis
    using assms ipv4_parse_inside [OF assms(1), of str] by (simp add: ipv4_dotted store_octet_def numeral_3_eq_3 numeral_2_eq_2)
qed

theorem ipv4_parse_dotted_witness:
  "gsk_ipv4_parse [49, 50, 55, 46, 48, 46, 48, 46, 49] [0, 0, 0, 0] = Some (True, gsk_ipv4_ip_address_loopback) \<and>
   gsk_ipv4_parse [49, 50, 55, 46, 48, 46, 48, 46, 49] [0, 0, 0] = None"
  using ipv4_parse_dotted [of "[0, 0, 0, 0]" "[0, 0, 0]" 127 0 0 1 "[]"]
  by (simp add: decimal.simps gsk_ipv4_ip_address_loopback_def)

end
