(* ===== verification/Gsk_Simple_Filter.thy ===== *)
theory Gsk_Simple_Filter
  imports Gsk_Buffer
begin

text \<open>
  The filter stream of \<^verbatim>\<open>src/src/gsksimplefilter.c\<close>: bytes written to the stream go into a write
  buffer, the \<open>process\<close> method of the class moves them to the read buffer, and \<open>flush\<close> is
  called when the write side is shut down.  The methods are arguments of the operations.  The
  notifications sent to the stream's hooks are recorded in order.

  The locale \<open>stream_filter\<close> is the contract of the methods: what \<open>process\<close> does to the
  contents of the buffers, and that the result does not depend on how the input is divided.
  Its lemmas show what a client of a filter then gets for every sequence of reads and writes.
\<close>

section \<open>Operations\<close>

definition DEFAULT_MAX_READ_BUFFER_SIZE :: u32 where
  "DEFAULT_MAX_READ_BUFFER_SIZE = 8192"

definition DEFAULT_MAX_WRITE_BUFFER_SIZE :: u32 where
  "DEFAULT_MAX_WRITE_BUFFER_SIZE = 8192"

text \<open>A method gets the fields of the subclass, \<open>dst\<close> and \<open>src\<close>; it returns whether it
  succeeded.  None is a failed assertion.\<close>

type_synonym 'f filter_method =
  "'f \<Rightarrow> gsk_buffer \<Rightarrow> gsk_buffer \<Rightarrow> allocator \<Rightarrow> (bool \<times> 'f \<times> gsk_buffer \<times> gsk_buffer \<times> allocator) option"

datatype io_notice =
    Notify_Read_Shutdown
  | Notify_Write_Shutdown
  | Set_Idle_Notify_Read bool
  | Set_Idle_Notify_Write bool
  | Lingering_Data u32

record 'f simple_filter =
  priv :: 'f
  read_buffer :: gsk_buffer
  write_buffer :: gsk_buffer
  max_read_buffer_size :: u32
  max_write_buffer_size :: u32
  notices :: "io_notice list"

definition gsk_simple_filter_init :: "'f \<Rightarrow> 'f simple_filter" where
  "gsk_simple_filter_init f =
     \<lparr>priv = f, read_buffer = gsk_buffer_construct, write_buffer = gsk_buffer_construct,
      max_read_buffer_size = DEFAULT_MAX_READ_BUFFER_SIZE,
      max_write_buffer_size = DEFAULT_MAX_WRITE_BUFFER_SIZE, notices = []\<rparr>"

text \<open>\<open>writable\<close> is the state of the write hook, \<open>gsk_io_get_is_writable\<close>.\<close>

definition update_idle_notification :: "bool \<Rightarrow> 'f simple_filter \<Rightarrow> 'f simple_filter" where
  "update_idle_notification writable flt =
     flt\<lparr>notices := notices flt @
       (if \<not> writable \<and> bsize (read_buffer flt) = 0 then [Notify_Read_Shutdown]
        else
          [Set_Idle_Notify_Read (bsize (read_buffer flt) > 0),
           Set_Idle_Notify_Write
             (bsize (write_buffer flt) < max_write_buffer_size flt \<and>
              bsize (read_buffer flt) < max_read_buffer_size flt)])\<rparr>"

text \<open>A call of a method with the two buffers of the filter.\<close>

definition call_method ::
  "'f filter_method \<Rightarrow> 'f simple_filter \<Rightarrow> allocator \<Rightarrow> (bool \<times> 'f simple_filter \<times> allocator) option" where
  "call_method m flt a =
     (case m (priv flt) (read_buffer flt) (write_buffer flt) a of
        None \<Rightarrow> None
      | Some (ok, f, dst, src, a') \<Rightarrow>
          Some (ok, flt\<lparr>priv := f, read_buffer := dst, write_buffer := src\<rparr>, a'))"

definition process_data ::
  "'f filter_method \<Rightarrow> 'f simple_filter \<Rightarrow> allocator \<Rightarrow> (bool \<times> 'f simple_filter \<times> allocator) option" where
  "process_data process flt a =
     (case call_method process flt a of
        None \<Rightarrow> None
      | Some (ok, flt', a') \<Rightarrow> if \<not> ok then Some (False, flt', a') else Some (True, flt', a'))"

definition gsk_simple_filter_raw_read ::
  "bool \<Rightarrow> u32 \<Rightarrow> 'f simple_filter \<Rightarrow> allocator \<Rightarrow> (u32 \<times> u8 list \<times> 'f simple_filter \<times> allocator) option" where
  "gsk_simple_filter_raw_read writable len flt a =
     (case gsk_buffer_read (read_buffer flt) len a of
        None \<Rightarrow> None
      | Some (data, rv, b, a') \<Rightarrow>
          Some (rv, data, update_idle_notification writable (flt\<lparr>read_buffer := b\<rparr>), a'))"

text \<open>A write returns the number of bytes; that \<open>process\<close> has set the error is a separate
  result.\<close>

definition gsk_simple_filter_raw_write ::
  "'f filter_method \<Rightarrow> bool \<Rightarrow> u8 list \<Rightarrow> u32 \<Rightarrow> 'f simple_filter \<Rightarrow> allocator
     \<Rightarrow> (u32 \<times> bool \<times> 'f simple_filter \<times> allocator) option" where
  "gsk_simple_filter_raw_write process writable data len flt a =
     (case gsk_buffer_append (write_buffer flt) data len a of (b, a1) \<Rightarrow>
        (case process_data process (flt\<lparr>write_buffer := b\<rparr>) a1 of
           None \<Rightarrow> None
         | Some (ok, flt', a') \<Rightarrow>
             if \<not> ok then Some (len, False, flt', a') else Some (len, True, update_idle_notification writable flt', a')))"

definition gsk_simple_filter_raw_read_buffer ::
  "bool \<Rightarrow> gsk_buffer \<Rightarrow> 'f simple_filter \<Rightarrow> u32 \<times> gsk_buffer \<times> 'f simple_filter" where
  "gsk_simple_filter_raw_read_buffer writable buffer flt =
     (case gsk_buffer_drain buffer (read_buffer flt) of (rv, buffer', b) \<Rightarrow>
        (rv, buffer', update_idle_notification writable (flt\<lparr>read_buffer := b\<rparr>)))"

definition gsk_simple_filter_raw_write_buffer ::
  "'f filter_method \<Rightarrow> bool \<Rightarrow> gsk_buffer \<Rightarrow> 'f simple_filter \<Rightarrow> allocator
     \<Rightarrow> (u32 \<times> bool \<times> gsk_buffer \<times> 'f simple_filter \<times> allocator) option" where
  "gsk_simple_filter_raw_write_buffer process writable buffer flt a =
     (case gsk_buffer_drain (write_buffer flt) buffer of (rv, b, buffer') \<Rightarrow>
        (case process_data process (flt\<lparr>write_buffer := b\<rparr>) a of
           None \<Rightarrow> None
         | Some (ok, flt', a') \<Rightarrow>
             if \<not> ok then Some (rv, False, buffer', flt', a')
             else Some (rv, True, buffer', update_idle_notification writable flt', a')))"

definition gsk_simple_filter_shutdown_read :: "'f simple_filter \<Rightarrow> bool \<times> 'f simple_filter" where
  "gsk_simple_filter_shutdown_read flt =
     (bsize (write_buffer flt) = 0 \<and> bsize (read_buffer flt) = 0,
      flt\<lparr>notices := notices flt @
        (if bsize (write_buffer flt) > 0 then [Lingering_Data (bsize (write_buffer flt))] else []) @
        [Notify_Write_Shutdown]\<rparr>)"

text \<open>The first half of \<open>gsk_simple_filter_shutdown_write\<close> processes what is left, the second
  one flushes.\<close>

definition shutdown_process ::
  "'f filter_method \<Rightarrow> 'f simple_filter \<Rightarrow> allocator \<Rightarrow> (bool \<times> 'f simple_filter \<times> allocator) option" where
  "shutdown_process process flt a =
     (if bsize (write_buffer flt) > 0 then call_method process flt a else Some (True, flt, a))"

definition shutdown_flush ::
  "'f filter_method option \<Rightarrow> bool \<Rightarrow> 'f simple_filter \<Rightarrow> allocator \<Rightarrow> (bool \<times> 'f simple_filter \<times> allocator) option" where
  "shutdown_flush flush rv flt a =
     (if rv then (case flush of Some m \<Rightarrow> call_method m flt a | None \<Rightarrow> Some (rv, flt, a))
      else Some (rv, flt, a))"

definition gsk_simple_filter_shutdown_write ::
  "'f filter_method \<Rightarrow> 'f filter_method option \<Rightarrow> bool \<Rightarrow> 'f simple_filter \<Rightarrow> allocator
     \<Rightarrow> (bool \<times> 'f simple_filter \<times> allocator) option" where
  "gsk_simple_filter_shutdown_write process flush writable flt a =
     (case shutdown_process process flt a of
        None \<Rightarrow> None
      | Some (rv1, flt1, a1) \<Rightarrow>
          (case shutdown_flush flush rv1 flt1 a1 of
             None \<Rightarrow> None
           | Some (rv, flt2, a2) \<Rightarrow>
               (let flt3 = update_idle_notification writable flt2
                in Some (rv,
                     if bsize (read_buffer flt3) = 0 then flt3\<lparr>notices := notices flt3 @ [Notify_Read_Shutdown]\<rparr>
                     else flt3,
                     a2))))"

definition gsk_simple_filter_finalize :: "'f simple_filter \<Rightarrow> allocator \<Rightarrow> 'f simple_filter \<times> allocator" where
  "gsk_simple_filter_finalize flt a =
     (case gsk_buffer_destruct (read_buffer flt) a of (rb, a1) \<Rightarrow>
        (case gsk_buffer_destruct (write_buffer flt) a1 of (wb, a2) \<Rightarrow>
           (flt\<lparr>read_buffer := rb, write_buffer := wb\<rparr>, a2)))"

section \<open>Sessions\<close>

text \<open>A client writes and reads in any order, and closes the write side at the end.\<close>

datatype filter_op = Write_Bytes "u8 list" | Write_Buffer gsk_buffer | Read_Bytes u32

fun run_filter ::
  "'f filter_method \<Rightarrow> filter_op list \<Rightarrow> 'f simple_filter \<Rightarrow> allocator
     \<Rightarrow> (bool \<times> u8 list \<times> 'f simple_filter \<times> allocator) option" where
  "run_filter process [] flt a = Some (True, [], flt, a)"
| "run_filter process (Write_Bytes d # ops) flt a =
     (case gsk_simple_filter_raw_write process True d (of_nat (length d)) flt a of
        None \<Rightarrow> None
      | Some (_, ok, flt', a') \<Rightarrow> map_option (\<lambda>(oks, r). (ok \<and> oks, r)) (run_filter process ops flt' a'))"
| "run_filter process (Write_Buffer b # ops) flt a =
     (case gsk_simple_filter_raw_write_buffer process True b flt a of
        None \<Rightarrow> None
      | Some (_, ok, _, flt', a') \<Rightarrow> map_option (\<lambda>(oks, r). (ok \<and> oks, r)) (run_filter process ops flt' a'))"
| "run_filter process (Read_Bytes n # ops) flt a =
     (case gsk_simple_filter_raw_read True n flt a of
        None \<Rightarrow> None
      | Some (_, out, flt', a') \<Rightarrow> map_option (\<lambda>(oks, outs, r). (oks, out @ outs, r)) (run_filter process ops flt' a'))"

fun written :: "filter_op list \<Rightarrow> u8 list" where
  "written [] = []"
| "written (Write_Bytes d # ops) = d @ written ops"
| "written (Write_Buffer b # ops) = contents b @ written ops"
| "written (Read_Bytes n # ops) = written ops"

fun writes_ok :: "filter_op list \<Rightarrow> bool" where
  "writes_ok [] = True"
| "writes_ok (Write_Bytes d # ops) = (length d < 2 ^ 32 \<and> writes_ok ops)"
| "writes_ok (Write_Buffer b # ops) = (buffer_wf b \<and> writes_ok ops)"
| "writes_ok (Read_Bytes n # ops) = writes_ok ops"

text \<open>Whether all writes and the closing succeed, and all bytes that come out of the filter.\<close>

definition filter_session ::
  "'f filter_method \<Rightarrow> 'f filter_method option \<Rightarrow> 'f \<Rightarrow> filter_op list \<Rightarrow> allocator \<Rightarrow> (bool \<times> u8 list) option" where
  "filter_session process flush f ops a =
     (case run_filter process ops (gsk_simple_filter_init f) a of
        None \<Rightarrow> None
      | Some (ok, out, flt, a') \<Rightarrow>
          (case gsk_simple_filter_shutdown_write process flush False flt a' of
             None \<Rightarrow> None
           | Some (rv, flt', a'') \<Rightarrow> Some (ok \<and> rv, out @ contents (read_buffer flt'))))"

section \<open>The contract of the methods\<close>

definition filter_wf :: "'f simple_filter \<Rightarrow> allocator \<Rightarrow> bool" where
  "filter_wf flt a \<longleftrightarrow> buffer_wf (read_buffer flt) \<and> buffer_wf (write_buffer flt) \<and> alloc_wf a"

lemma update_idle_notification_fields [simp]:
  "priv (update_idle_notification w flt) = priv flt"
  "read_buffer (update_idle_notification w flt) = read_buffer flt"
  "write_buffer (update_idle_notification w flt) = write_buffer flt"
  "filter_wf (update_idle_notification w flt) a = filter_wf flt a"
  by (simp_all add: update_idle_notification_def filter_wf_def)

lemma init_fields [simp]:
  "priv (gsk_simple_filter_init f) = f"
  "contents (read_buffer (gsk_simple_filter_init f)) = []"
  "contents (write_buffer (gsk_simple_filter_init f)) = []"
  "alloc_wf a \<Longrightarrow> filter_wf (gsk_simple_filter_init f) a"
  by (simp_all add: gsk_simple_filter_init_def gsk_buffer_construct_def contents_def filter_wf_def buffer_wf_iff)

lemma raw_read_ok:
  assumes "filter_wf flt a"
  obtains rv flt' a' where
    "gsk_simple_filter_raw_read w n flt a = Some (rv, take (unat n) (contents (read_buffer flt)), flt', a')"
    "filter_wf flt' a'" "priv flt' = priv flt" "write_buffer flt' = write_buffer flt"
    "contents (read_buffer flt') = drop (unat n) (contents (read_buffer flt))"
proof -
  have wf: "buffer_wf (read_buffer flt)" "alloc_wf a" using assms by (simp_all add: filter_wf_def)
  obtain rv b a' where "gsk_buffer_read (read_buffer flt) n a = Some (take (unat n) (contents (read_buffer flt)), rv, b, a')"
    "contents b = drop (unat n) (contents (read_buffer flt))" "buffer_wf b" "alloc_wf a'"
    using wf by (rule gsk_buffer_read_spec)
  then show thesis
    using that assms by (simp add: gsk_simple_filter_raw_read_def filter_wf_def)
qed

locale stream_filter =
  fixes process flush :: "'f filter_method"
    and step :: "'f \<Rightarrow> u8 list \<Rightarrow> ('f \<times> u8 list \<times> u8 list) option"
    and fin :: "'f \<Rightarrow> u8 list \<Rightarrow> u8 list option"
  assumes process_ok: "buffer_wf dst \<Longrightarrow> buffer_wf src \<Longrightarrow> alloc_wf a \<Longrightarrow> step f (contents src) = Some (f', out, left) \<Longrightarrow>
      \<exists>dst' src' a'. process f dst src a = Some (True, f', dst', src', a') \<and> buffer_wf dst' \<and> buffer_wf src' \<and>
        alloc_wf a' \<and> contents dst' = contents dst @ out \<and> contents src' = left"
    and flush_ok: "buffer_wf dst \<Longrightarrow> buffer_wf src \<Longrightarrow> alloc_wf a \<Longrightarrow> fin f (contents src) = Some out \<Longrightarrow>
      \<exists>f' dst' src' a'. flush f dst src a = Some (True, f', dst', src', a') \<and> contents dst' = contents dst @ out"
    and step_append: "step f xs = Some (f1, out1, left1) \<Longrightarrow>
      step f (xs @ ys) = map_option (\<lambda>(f2, out2, left2). (f2, out1 @ out2, left2)) (step f1 (left1 @ ys))"
    and step_None: "step f xs = None \<Longrightarrow> step f (xs @ ys) = None"
begin

lemma call_process_ok:
  assumes "filter_wf flt a" "step (priv flt) (contents (write_buffer flt)) = Some (f', out, left)"
  obtains flt' a' where "call_method process flt a = Some (True, flt', a')" "filter_wf flt' a'" "priv flt' = f'"
    "contents (read_buffer flt') = contents (read_buffer flt) @ out" "contents (write_buffer flt') = left"
proof -
  obtain dst' src' a' where "process (priv flt) (read_buffer flt) (write_buffer flt) a = Some (True, f', dst', src', a')"
    "buffer_wf dst'" "buffer_wf src'" "alloc_wf a'" "contents dst' = contents (read_buffer flt) @ out" "contents src' = left"
    using process_ok [of "read_buffer flt" "write_buffer flt" a "priv flt" f' out left] assms by (auto simp: filter_wf_def)
  then show thesis using that by (simp add: call_method_def filter_wf_def)
qed

lemma raw_write_ok:
  assumes "filter_wf flt a" "length d < 2 ^ 32" "step (priv flt) (contents (write_buffer flt) @ d) = Some (f', out, left)"
  obtains rv flt' a' where "gsk_simple_filter_raw_write process w d (of_nat (length d)) flt a = Some (rv, True, flt', a')"
    "filter_wf flt' a'" "priv flt' = f'"
    "contents (read_buffer flt') = contents (read_buffer flt) @ out" "contents (write_buffer flt') = left"
proof -
  obtain b a1 where app: "gsk_buffer_append (write_buffer flt) d (of_nat (length d)) a = (b, a1)" by (metis surj_pair)
  have "unat (of_nat (length d) :: u32) = length d" using assms(2) by (simp add: unat_of_nat_u32)
  then have b: "buffer_wf b" "alloc_wf a1" "contents b = contents (write_buffer flt) @ d"
    using gsk_buffer_append_spec(1-3) [OF app] assms(1) by (simp_all add: filter_wf_def)
  have "filter_wf (flt\<lparr>write_buffer := b\<rparr>) a1" using assms(1) b by (simp add: filter_wf_def)
  then obtain flt' a' where "call_method process (flt\<lparr>write_buffer := b\<rparr>) a1 = Some (True, flt', a')" "filter_wf flt' a'"
    "priv flt' = f'" "contents (read_buffer flt') = contents (read_buffer flt) @ out" "contents (write_buffer flt') = left"
    using call_process_ok [of "flt\<lparr>write_buffer := b\<rparr>" a1 f' out left] assms(3) b(3) by auto
  then show thesis using that app by (simp add: gsk_simple_filter_raw_write_def process_data_def)
qed

lemma raw_write_buffer_ok:
  assumes "filter_wf flt a" "buffer_wf b" "step (priv flt) (contents (write_buffer flt) @ contents b) = Some (f', out, left)"
  obtains rv b' flt' a' where "gsk_simple_filter_raw_write_buffer process w b flt a = Some (rv, True, b', flt', a')"
    "filter_wf flt' a'" "priv flt' = f'"
    "contents (read_buffer flt') = contents (read_buffer flt) @ out" "contents (write_buffer flt') = left"
proof -
  obtain rv c b' where drain: "gsk_buffer_drain (write_buffer flt) b = (rv, c, b')" by (metis prod_cases3)
  have c: "buffer_wf c" "contents c = contents (write_buffer flt) @ contents b"
    using gsk_buffer_drain_spec [OF drain] assms(1,2) by (simp_all add: filter_wf_def)
  have "filter_wf (flt\<lparr>write_buffer := c\<rparr>) a" using assms(1) c by (simp add: filter_wf_def)
  then obtain flt' a' where "call_method process (flt\<lparr>write_buffer := c\<rparr>) a = Some (True, flt', a')" "filter_wf flt' a'"
    "priv flt' = f'" "contents (read_buffer flt') = contents (read_buffer flt) @ out" "contents (write_buffer flt') = left"
    using call_process_ok [of "flt\<lparr>write_buffer := c\<rparr>" a f' out left] assms(3) c(2) by auto
  then show thesis using that drain by (simp add: gsk_simple_filter_raw_write_buffer_def process_data_def)
qed

lemma step_prefix:
  assumes "step f (xs @ ys) = Some (f2, out, left)"
  obtains f1 out1 left1 out2 where "step f xs = Some (f1, out1, left1)" "step f1 (left1 @ ys) = Some (f2, out2, left)" "out = out1 @ out2"
proof (cases "step f xs")
  case None
  then show thesis using step_None assms by simp
next
  case (Some r)
  obtain f1 out1 left1 where r: "r = (f1, out1, left1)" by (metis prod_cases3)
  then show thesis using that assms step_append [of f xs f1 out1 left1 ys] Some by auto
qed

lemma step_left: "step f xs = Some (f1, out1, left1) \<Longrightarrow> step f1 left1 = Some (f1, [], left1)"
  using step_append [of f xs f1 out1 left1 "[]"] by (cases "step f1 left1") auto

text \<open>Every session of reads and writes moves the bytes through the filter as one step on all of
  them would; \<open>pend\<close> is what an earlier write left over.\<close>

lemma run_filter_ok:
  assumes "filter_wf flt a" "writes_ok ops" "contents (write_buffer flt) = pend" "step (priv flt) pend = Some (priv flt, [], pend)"
    "step (priv flt) (pend @ written ops) = Some (f', out, left)"
  shows "\<exists>reads flt' a'. run_filter process ops flt a = Some (True, reads, flt', a') \<and> filter_wf flt' a' \<and> priv flt' = f' \<and>
    reads @ contents (read_buffer flt') = contents (read_buffer flt) @ out \<and> contents (write_buffer flt') = left"
  using assms
proof (induction ops arbitrary: flt a pend out)
  case (Cons op ops)
  show ?case
  proof (cases op)
    case (Write_Bytes d)
    have s: "step (priv flt) ((pend @ d) @ written ops) = Some (f', out, left)" using Cons.prems(5) Write_Bytes by simp
    obtain f1 out1 left1 out2 where st: "step (priv flt) (pend @ d) = Some (f1, out1, left1)"
      "step f1 (left1 @ written ops) = Some (f', out2, left)" "out = out1 @ out2" using step_prefix [OF s] by metis
    obtain rv flt1 a1 where w: "gsk_simple_filter_raw_write process True d (of_nat (length d)) flt a = Some (rv, True, flt1, a1)"
      "filter_wf flt1 a1" "priv flt1 = f1" "contents (read_buffer flt1) = contents (read_buffer flt) @ out1"
      "contents (write_buffer flt1) = left1"
      using raw_write_ok [of flt a d f1 out1 left1 True] Cons.prems(1-3) st(1) Write_Bytes by auto
    then show ?thesis
      using Cons.IH [of flt1 a1 left1 out2] Cons.prems(2) st(2,3) step_left [OF st(1)] Write_Bytes by auto
  next
    case (Write_Buffer b)
    have s: "step (priv flt) ((pend @ contents b) @ written ops) = Some (f', out, left)" using Cons.prems(5) Write_Buffer by simp
    obtain f1 out1 left1 out2 where st: "step (priv flt) (pend @ contents b) = Some (f1, out1, left1)"
      "step f1 (left1 @ written ops) = Some (f', out2, left)" "out = out1 @ out2" using step_prefix [OF s] by metis
    obtain rv b' flt1 a1 where w: "gsk_simple_filter_raw_write_buffer process True b flt a = Some (rv, True, b', flt1, a1)"
      "filter_wf flt1 a1" "priv flt1 = f1" "contents (read_buffer flt1) = contents (read_buffer flt) @ out1"
      "contents (write_buffer flt1) = left1"
      using raw_write_buffer_ok [of flt a b f1 out1 left1 True thesis] Cons.prems(1-3) st(1) Write_Buffer by simp
    then show ?thesis
      using Cons.IH [of flt1 a1 left1 out2] Cons.prems(2) st(2,3) step_left [OF st(1)] Write_Buffer by auto
  next
    case (Read_Bytes n)
    obtain rv flt1 a1 where r: "gsk_simple_filter_raw_read True n flt a = Some (rv, take (unat n) (contents (read_buffer flt)), flt1, a1)"
      "filter_wf flt1 a1" "priv flt1 = priv flt" "write_buffer flt1 = write_buffer flt"
      "contents (read_buffer flt1) = drop (unat n) (contents (read_buffer flt))"
      using Cons.prems(1) by (rule raw_read_ok)
    obtain reads flt2 a2 where i: "run_filter process ops flt1 a1 = Some (True, reads, flt2, a2)" "filter_wf flt2 a2" "priv flt2 = f'"
      "reads @ contents (read_buffer flt2) = contents (read_buffer flt1) @ out" "contents (write_buffer flt2) = left"
      using Cons.IH [of flt1 a1 pend out] Cons.prems(2-5) r(2-4) Read_Bytes by auto
    have "(take (unat n) (contents (read_buffer flt)) @ reads) @ contents (read_buffer flt2) = contents (read_buffer flt) @ out"
      using i(4) r(5) by simp
    then show ?thesis using r(1) i Read_Bytes by simp
  qed
qed auto

lemma shutdown_write_ok:
  assumes "filter_wf flt a" "step (priv flt) (contents (write_buffer flt)) = Some (priv flt, [], contents (write_buffer flt))"
    "fin (priv flt) (contents (write_buffer flt)) = Some out"
  shows "\<exists>flt' a'. gsk_simple_filter_shutdown_write process (Some flush) w flt a = Some (True, flt', a') \<and>
    contents (read_buffer flt') = contents (read_buffer flt) @ out"
proof -
  obtain flt1 a1 where p: "shutdown_process process flt a = Some (True, flt1, a1)" "filter_wf flt1 a1" "priv flt1 = priv flt"
    "contents (read_buffer flt1) = contents (read_buffer flt)" "contents (write_buffer flt1) = contents (write_buffer flt)"
  proof (cases "bsize (write_buffer flt) > 0")
    case True
    then show thesis using that call_process_ok [OF assms(1,2)] by (metis append_Nil2 shutdown_process_def)
  next
    case False
    then show thesis using that [of flt a] assms(1) by (simp add: shutdown_process_def)
  qed
  obtain f' dst src a2 where "flush (priv flt1) (read_buffer flt1) (write_buffer flt1) a1 = Some (True, f', dst, src, a2)"
    "contents dst = contents (read_buffer flt1) @ out"
    using flush_ok [of "read_buffer flt1" "write_buffer flt1" a1 "priv flt1" out] p(2,3,5) assms(3) by (auto simp: filter_wf_def)
  then show ?thesis
    using p by (simp add: gsk_simple_filter_shutdown_write_def shutdown_flush_def call_method_def Let_def)
qed

lemma session_ok:
  assumes "alloc_wf a" "writes_ok ops" "step f [] = Some (f, [], [])" "step f (written ops) = Some (f', out, left)"
    "fin f' left = Some tail"
  shows "filter_session process (Some flush) f ops a = Some (True, out @ tail)"
proof -
  obtain reads flt a1 where r: "run_filter process ops (gsk_simple_filter_init f) a = Some (True, reads, flt, a1)" "filter_wf flt a1"
    "priv flt = f'" "reads @ contents (read_buffer flt) = out" "contents (write_buffer flt) = left"
    using run_filter_ok [of "gsk_simple_filter_init f" a ops "[]" f' out left] assms by auto
  obtain flt' a2 where "gsk_simple_filter_shutdown_write process (Some flush) False flt a1 = Some (True, flt', a2)"
    "contents (read_buffer flt') = contents (read_buffer flt) @ tail"
    using shutdown_write_ok [of flt a1 tail False] r step_left [OF assms(4)] assms(5) by auto
  then show ?thesis using r(1,4) by (auto simp: filter_session_def)
qed

end

section \<open>Filters that work byte by byte\<close>

fun transduce :: "('f \<Rightarrow> u8 \<Rightarrow> ('f \<times> u8 list) option) \<Rightarrow> 'f \<Rightarrow> u8 list \<Rightarrow> ('f \<times> u8 list \<times> u8 list) option" where
  "transduce g f [] = Some (f, [], [])"
| "transduce g f (c # cs) =
     (case g f c of
        None \<Rightarrow> None
      | Some (f', out) \<Rightarrow> map_option (\<lambda>(f2, out2, left). (f2, out @ out2, left)) (transduce g f' cs))"

lemma transduce_append:
  "transduce g f xs = Some (f1, out1, left1) \<Longrightarrow>
   transduce g f (xs @ ys) = map_option (\<lambda>(f2, out2, left2). (f2, out1 @ out2, left2)) (transduce g f1 (left1 @ ys))"
proof (induction xs arbitrary: f out1)
  case Nil
  then show ?case by (auto simp: option.map_ident_strong split: prod.splits intro!: sym [OF option.map_ident_strong])
next
  case (Cons c xs)
  then obtain f' out where g: "g f c = Some (f', out)" by (auto split: option.splits)
  then obtain out2 where t: "transduce g f' xs = Some (f1, out2, left1)" "out1 = out @ out2" using Cons.prems by auto
  show ?case using Cons.IH [OF t(1)] g t(2) by (cases "transduce g f1 (left1 @ ys)") auto
qed

lemma transduce_None: "transduce g f xs = None \<Longrightarrow> transduce g f (xs @ ys) = None"
  by (induction xs arbitrary: f) (auto split: option.splits)

lemma transduce_left: "transduce g f xs = Some (f', out, left) \<Longrightarrow> left = []"
  by (induction xs arbitrary: f out) (auto split: option.splits)

text \<open>The contract of a filter whose loop reads and converts one byte after the other.\<close>

locale byte_filter =
  fixes process flush :: "'f filter_method"
    and g :: "'f \<Rightarrow> u8 \<Rightarrow> ('f \<times> u8 list) option"
    and fin :: "'f \<Rightarrow> u8 list option"
  assumes process_empty: "buffer_wf dst \<Longrightarrow> buffer_wf src \<Longrightarrow> alloc_wf a \<Longrightarrow> contents src = [] \<Longrightarrow>
      \<exists>src' a'. process f dst src a = Some (True, f, dst, src', a') \<and> buffer_wf src' \<and> alloc_wf a' \<and> contents src' = []"
    and process_byte: "buffer_wf dst \<Longrightarrow> buffer_wf src \<Longrightarrow> alloc_wf a \<Longrightarrow> contents src = c # cs \<Longrightarrow> g f c = Some (f', out) \<Longrightarrow>
      \<exists>dst' src' a'. process f dst src a = process f' dst' src' a' \<and> buffer_wf dst' \<and> buffer_wf src' \<and> alloc_wf a' \<and>
        contents dst' = contents dst @ out \<and> contents src' = cs"
    and flush_empty: "buffer_wf dst \<Longrightarrow> buffer_wf src \<Longrightarrow> alloc_wf a \<Longrightarrow> contents src = [] \<Longrightarrow> fin f = Some out \<Longrightarrow>
      \<exists>f' dst' src' a'. flush f dst src a = Some (True, f', dst', src', a') \<and> contents dst' = contents dst @ out"
begin

lemma process_transduce:
  "buffer_wf dst \<Longrightarrow> buffer_wf src \<Longrightarrow> alloc_wf a \<Longrightarrow> transduce g f (contents src) = Some (f', out, left) \<Longrightarrow>
   \<exists>dst' src' a'. process f dst src a = Some (True, f', dst', src', a') \<and> buffer_wf dst' \<and> buffer_wf src' \<and>
     alloc_wf a' \<and> contents dst' = contents dst @ out \<and> contents src' = left"
proof (induction "contents src" arbitrary: f dst src a out)
  case Nil
  then show ?case using process_empty [of dst src a f] by auto
next
  case (Cons c cs)
  obtain f1 out1 out2 where g: "g f c = Some (f1, out1)" "transduce g f1 cs = Some (f', out2, left)" "out = out1 @ out2"
    using Cons.prems(4) Cons.hyps(2) [symmetric] by (auto split: option.splits)
  obtain dst1 src1 a1 where p: "process f dst src a = process f1 dst1 src1 a1" "buffer_wf dst1" "buffer_wf src1" "alloc_wf a1"
    "contents dst1 = contents dst @ out1" "contents src1 = cs"
    using process_byte [OF Cons.prems(1-3) Cons.hyps(2) [symmetric] g(1)] by blast
  show ?case using Cons.hyps(1) [of src1 dst1 a1 f1 out2] p g by auto
qed

end

sublocale byte_filter \<subseteq> stream_filter process flush "transduce g" "\<lambda>f left. if left = [] then fin f else None"
proof unfold_locales
  show "\<exists>f' dst' src' a'. flush f dst src a = Some (True, f', dst', src', a') \<and> contents dst' = contents dst @ out"
    if "buffer_wf dst" "buffer_wf src" "alloc_wf a" "(if contents src = [] then fin f else None) = Some out"
    for dst src a f out
    using that flush_empty [of dst src a f out] by (auto split: if_splits)
qed (rule process_transduce transduce_append transduce_None; assumption)+

section \<open>Buffer operations as the filters use them\<close>

lemma append_ok:
  assumes "buffer_wf b" "alloc_wf a" "unat len \<le> length data"
  obtains b' a' where "gsk_buffer_append b data len a = (b', a')" "buffer_wf b'" "alloc_wf a'"
    "contents b' = contents b @ take (unat len) data"
proof -
  obtain b' a' where "gsk_buffer_append b data len a = (b', a')" by (metis surj_pair)
  then show thesis using that gsk_buffer_append_spec(1-3) assms by metis
qed

lemma append_char_ok:
  assumes "buffer_wf b" "alloc_wf a"
  obtains b' a' where "gsk_buffer_append_char b c a = (b', a')" "buffer_wf b'" "alloc_wf a'" "contents b' = contents b @ [c]"
proof -
  obtain b' a' where "gsk_buffer_append b [c] 1 a = (b', a')" "buffer_wf b'" "alloc_wf a'" "contents b' = contents b @ take (unat (1 :: u32)) [c]"
    using append_ok [OF assms, of 1 "[c]"] by auto
  then show thesis using that by (simp add: gsk_buffer_append_char_def)
qed

lemma discard_ok:
  assumes "buffer_wf b" "alloc_wf a"
  obtains rv b' a' where "gsk_buffer_discard b n a = (rv, b', a')" "buffer_wf b'" "alloc_wf a'" "contents b' = drop (unat n) (contents b)"
proof -
  obtain rv b' a' where "gsk_buffer_discard b n a = (rv, b', a')" by (metis prod_cases3)
  then show thesis using that gsk_buffer_discard_spec(1-3) assms by metis
qed

lemma read_char_Nil:
  assumes "buffer_wf b" "alloc_wf a" "contents b = []"
  obtains b' a' where "gsk_buffer_read_char b a = Some (- 1, b', a')" "buffer_wf b'" "alloc_wf a'" "contents b' = []"
proof -
  obtain rv b' a' where "gsk_buffer_read b 1 a = Some (take (unat (1 :: u32)) (contents b), rv, b', a')"
    "unat rv = min (unat (1 :: u32)) (length (contents b))" "contents b' = drop (unat (1 :: u32)) (contents b)" "buffer_wf b'" "alloc_wf a'"
    using assms(1,2) by (rule gsk_buffer_read_spec)
  then show thesis using that assms(3) by (simp add: gsk_buffer_read_char_def unat_eq_0)
qed

lemma read_char_Cons:
  assumes "buffer_wf b" "alloc_wf a" "contents b = c # cs"
  obtains b' a' where "gsk_buffer_read_char b a = Some (uint c, b', a')" "buffer_wf b'" "alloc_wf a'" "contents b' = cs"
proof -
  obtain rv b' a' where r: "gsk_buffer_read b 1 a = Some (take (unat (1 :: u32)) (contents b), rv, b', a')"
    "unat rv = min (unat (1 :: u32)) (length (contents b))" "contents b' = drop (unat (1 :: u32)) (contents b)" "buffer_wf b'" "alloc_wf a'"
    using assms(1,2) by (rule gsk_buffer_read_spec)
  then have "rv \<noteq> 0" using assms(3) by auto
  then show thesis using that r assms(3) by (simp add: gsk_buffer_read_char_def)
qed

end
