(* ===== verification/Gsk_Mime_Base64.thy ===== *)
theory Gsk_Mime_Base64
  imports Gsk_Simple_Filter Gsk_Buffer_Properties Gsk_Cstring Gsk_Base64
begin

text \<open>
  The identity and base64 transfer encodings, \<^verbatim>\<open>src/src/mime/gskmimeencodings-identity.c\<close> and
  \<^verbatim>\<open>gskmimeencodings-base64.c\<close>: each a pair of \<open>process\<close> and \<open>flush\<close> methods on buffers.  The
  loops run until a buffer is empty and are partial functions; the proofs of the contracts show
  that they return.
\<close>

section \<open>Identity\<close>

definition gsk_mime_identity_filter_process :: "unit filter_method" where
  "gsk_mime_identity_filter_process f dst src a =
     (case gsk_buffer_drain dst src of (_, dst', src') \<Rightarrow> Some (True, f, dst', src', a))"

definition gsk_mime_identity_filter_flush :: "unit filter_method" where
  "gsk_mime_identity_filter_flush f dst src a =
     (if bsize src \<noteq> 0 then Some (False, f, dst, src, a) else Some (True, f, dst, src, a))"

section \<open>Base64\<close>

definition base64_terminal_char :: u8 where
  "base64_terminal_char = 61"

definition base64_chars :: "u8 list" where
  "base64_chars = map of_nat ([65..<91] @ [97..<123] @ [48..<58] @ [43, 47])"

definition BASE64_VALUE_WHITESPACE :: u8 where
  "BASE64_VALUE_WHITESPACE = 255"

definition BASE64_VALUE_TERMINAL :: u8 where
  "BASE64_VALUE_TERMINAL = 254"

definition BASE64_VALUE_BAD_CHAR :: u8 where
  "BASE64_VALUE_BAD_CHAR = 253"

text \<open>The table that the initialisation of the decoder class fills.\<close>

definition ascii_to_base64 :: "u8 list" where
  "ascii_to_base64 =
     (let t0 = replicate 256 BASE64_VALUE_BAD_CHAR;
          t1 = fold (\<lambda>i t. if is_space (of_nat i) then t[i := BASE64_VALUE_WHITESPACE] else t) [1..<128] t0;
          t2 = t1[unat base64_terminal_char := BASE64_VALUE_TERMINAL]
      in fold (\<lambda>i t. t[unat (base64_chars ! i) := of_nat i]) [0..<64] t2)"

record b64_decoder =
  cur_bits_in_byte :: u8
  byte :: u8
  got_terminal :: bool

definition decoder_process_one ::
  "b64_decoder \<Rightarrow> gsk_buffer \<Rightarrow> int \<Rightarrow> allocator \<Rightarrow> bool \<times> b64_decoder \<times> gsk_buffer \<times> allocator" where
  "decoder_process_one decoder dst input a =
     (let cur_bits = cur_bits_in_byte decoder;
          cur_value = byte decoder;
          b64 = ascii_to_base64 ! nat input
      in if b64 = BASE64_VALUE_WHITESPACE then (True, decoder, dst, a)
         else if b64 = BASE64_VALUE_TERMINAL then (True, decoder\<lparr>got_terminal := True\<rparr>, dst, a)
         else if b64 = BASE64_VALUE_BAD_CHAR then (False, decoder, dst, a)
         else if cur_bits = 0 then
           (True, decoder\<lparr>cur_bits_in_byte := 6, byte := cur_value OR push_bit 2 b64\<rparr>, dst, a)
         else if cur_bits = 2 then
           (True, decoder\<lparr>cur_bits_in_byte := 0, byte := 0\<rparr>, gsk_buffer_append_char dst (cur_value OR b64) a)
         else if cur_bits = 4 then
           (True, decoder\<lparr>cur_bits_in_byte := 2, byte := push_bit 6 b64\<rparr>,
            gsk_buffer_append_char dst (cur_value OR drop_bit 2 b64) a)
         else if cur_bits = 6 then
           (True, decoder\<lparr>cur_bits_in_byte := 4, byte := push_bit 4 b64\<rparr>,
            gsk_buffer_append_char dst (cur_value OR drop_bit 4 b64) a)
         else (True, decoder\<lparr>cur_bits_in_byte := cur_bits, byte := cur_value\<rparr>, dst, a))"

partial_function (option) gsk_mime_base64_decoder_process :: "b64_decoder filter_method" where
  "gsk_mime_base64_decoder_process decoder dst src a =
     (case gsk_buffer_read_char src a of
        None \<Rightarrow> None
      | Some (c, src', a1) \<Rightarrow>
          if c = - 1 then Some (True, decoder, dst, src', a1)
          else
            (case decoder_process_one decoder dst c a1 of (ok, decoder', dst', a2) \<Rightarrow>
               if \<not> ok then Some (False, decoder', dst', src', a2)
               else gsk_mime_base64_decoder_process decoder' dst' src' a2))"

definition gsk_mime_base64_decoder_flush :: "b64_decoder filter_method" where
  "gsk_mime_base64_decoder_flush decoder dst src a =
     (case gsk_mime_base64_decoder_process decoder dst src a of
        None \<Rightarrow> None
      | Some (_, decoder', dst', src', a') \<Rightarrow>
          if \<not> got_terminal decoder' then Some (False, decoder', dst', src', a')
          else Some (True, decoder', dst', src', a'))"

text \<open>The instance as GObject creates it, all zero; no code sets \<open>chars_per_line\<close>.\<close>

definition new_b64_decoder :: b64_decoder where
  "new_b64_decoder = \<lparr>cur_bits_in_byte = 0, byte = 0, got_terminal = False\<rparr>"

record b64_encoder =
  chars_per_line :: u32
  chars_in_this_line :: u32
  n_bits :: u8
  partial_data :: u8

definition new_b64_encoder :: b64_encoder where
  "new_b64_encoder = \<lparr>chars_per_line = 0, chars_in_this_line = 0, n_bits = 0, partial_data = 0\<rparr>"

definition APPEND_6BITS_AND_MAYBE_ADD_NEWLINE ::
  "u8 \<Rightarrow> b64_encoder \<Rightarrow> gsk_buffer \<times> allocator \<Rightarrow> b64_encoder \<times> gsk_buffer \<times> allocator" where
  "APPEND_6BITS_AND_MAYBE_ADD_NEWLINE v e s =
     (case gsk_buffer_append_char (fst s) (base64_chars ! unat v) (snd s) of (dst, a) \<Rightarrow>
        if chars_in_this_line e + 1 = chars_per_line e then
          (e\<lparr>chars_in_this_line := 0\<rparr>, gsk_buffer_append dst [13, 10] 2 a)
        else (e\<lparr>chars_in_this_line := chars_in_this_line e + 1\<rparr>, dst, a))"

text \<open>One round of the loop.\<close>

definition encode_char :: "u8 \<Rightarrow> b64_encoder \<Rightarrow> gsk_buffer \<times> allocator \<Rightarrow> b64_encoder \<times> gsk_buffer \<times> allocator" where
  "encode_char c e s =
     (if n_bits e = 0 then
        (case APPEND_6BITS_AND_MAYBE_ADD_NEWLINE (drop_bit 2 c) e s of (e', s') \<Rightarrow>
           (e'\<lparr>n_bits := 2, partial_data := push_bit 4 (c AND 3)\<rparr>, s'))
      else if n_bits e = 2 then
        (case APPEND_6BITS_AND_MAYBE_ADD_NEWLINE (partial_data e OR drop_bit 4 c) e s of (e', s') \<Rightarrow>
           (e'\<lparr>n_bits := 4, partial_data := push_bit 2 (c AND 15)\<rparr>, s'))
      else if n_bits e = 4 then
        (case APPEND_6BITS_AND_MAYBE_ADD_NEWLINE (partial_data e OR drop_bit 6 c) e s of (e1, s1) \<Rightarrow>
           (case APPEND_6BITS_AND_MAYBE_ADD_NEWLINE (c mod 64) e1 s1 of (e', s') \<Rightarrow>
              (e'\<lparr>n_bits := 0, partial_data := 0\<rparr>, s')))
      else (e, s))"

partial_function (option) gsk_mime_base64_encoder_process :: "b64_encoder filter_method" where
  "gsk_mime_base64_encoder_process e dst src a =
     (case gsk_buffer_read_char src a of
        None \<Rightarrow> None
      | Some (c, src', a1) \<Rightarrow>
          if c = - 1 then Some (True, e, dst, src', a1)
          else
            (case encode_char (word_of_int c) e (dst, a1) of (e', dst', a2) \<Rightarrow>
               gsk_mime_base64_encoder_process e' dst' src' a2))"

definition gsk_mime_base64_encoder_flush :: "b64_encoder filter_method" where
  "gsk_mime_base64_encoder_flush e dst src a =
     (if bsize src \<noteq> 0 then Some (False, e, dst, src, a)
      else
        (case (if n_bits e \<noteq> 0 then APPEND_6BITS_AND_MAYBE_ADD_NEWLINE (partial_data e) e (dst, a) else (e, dst, a)) of
           (_, dst1, a1) \<Rightarrow>
             (case gsk_buffer_append dst1 [61, 13, 10] 3 a1 of (dst', a') \<Rightarrow> Some (True, e, dst', src, a'))))"

section \<open>Identity as a filter\<close>

interpretation identity_filter: stream_filter gsk_mime_identity_filter_process gsk_mime_identity_filter_flush
  "\<lambda>f xs. Some (f, xs, [])" "\<lambda>f left. if left = [] then Some [] else None"
proof unfold_locales
  show "\<exists>dst' src' a'. gsk_mime_identity_filter_process f dst src a = Some (True, f', dst', src', a') \<and> buffer_wf dst' \<and>
      buffer_wf src' \<and> alloc_wf a' \<and> contents dst' = contents dst @ out \<and> contents src' = left"
    if "buffer_wf dst" "buffer_wf src" "alloc_wf a" "Some (f, contents src, []) = Some (f', out, left)" for dst src a f f' out left
    using that gsk_buffer_drain_spec(1-4) [of dst src] by (cases "gsk_buffer_drain dst src") (simp add: gsk_mime_identity_filter_process_def)
qed (auto simp: gsk_mime_identity_filter_flush_def buffer_wf_iff split: if_splits)

section \<open>Base64 as a filter\<close>

definition enc6 :: "b64_encoder \<Rightarrow> u8 \<Rightarrow> b64_encoder \<times> u8 list" where
  "enc6 e v =
     (if chars_in_this_line e + 1 = chars_per_line e then (e\<lparr>chars_in_this_line := 0\<rparr>, [base64_chars ! unat v, 13, 10])
      else (e\<lparr>chars_in_this_line := chars_in_this_line e + 1\<rparr>, [base64_chars ! unat v]))"

definition b64_enc :: "b64_encoder \<Rightarrow> u8 \<Rightarrow> (b64_encoder \<times> u8 list) option" where
  "b64_enc e c =
     (if n_bits e = 0 then
        (case enc6 e (drop_bit 2 c) of (e', out) \<Rightarrow> Some (e'\<lparr>n_bits := 2, partial_data := push_bit 4 (c AND 3)\<rparr>, out))
      else if n_bits e = 2 then
        (case enc6 e (partial_data e OR drop_bit 4 c) of (e', out) \<Rightarrow> Some (e'\<lparr>n_bits := 4, partial_data := push_bit 2 (c AND 15)\<rparr>, out))
      else if n_bits e = 4 then
        (case enc6 e (partial_data e OR drop_bit 6 c) of (e1, out1) \<Rightarrow>
           (case enc6 e1 (c mod 64) of (e', out2) \<Rightarrow> Some (e'\<lparr>n_bits := 0, partial_data := 0\<rparr>, out1 @ out2)))
      else Some (e, []))"

definition b64_enc_end :: "b64_encoder \<Rightarrow> u8 list option" where
  "b64_enc_end e = Some ((if n_bits e \<noteq> 0 then snd (enc6 e (partial_data e)) else []) @ [61, 13, 10])"

lemma append_6bits_ok:
  assumes "buffer_wf dst" "alloc_wf a"
  obtains dst' a' where "APPEND_6BITS_AND_MAYBE_ADD_NEWLINE v e (dst, a) = (fst (enc6 e v), dst', a')"
    "buffer_wf dst'" "alloc_wf a'" "contents dst' = contents dst @ snd (enc6 e v)"
proof -
  obtain dst1 a1 where c: "gsk_buffer_append_char dst (base64_chars ! unat v) a = (dst1, a1)" "buffer_wf dst1" "alloc_wf a1"
    "contents dst1 = contents dst @ [base64_chars ! unat v]" using assms by (rule append_char_ok)
  obtain dst2 a2 where n: "gsk_buffer_append dst1 [13, 10] 2 a1 = (dst2, a2)" "buffer_wf dst2" "alloc_wf a2"
    "contents dst2 = contents dst1 @ [13, 10]" using append_ok [OF c(2,3), of 2 "[13, 10]" thesis] that by simp
  show thesis
    using that c n by (cases "chars_in_this_line e + 1 = chars_per_line e")
      (simp_all add: APPEND_6BITS_AND_MAYBE_ADD_NEWLINE_def enc6_def)
qed

lemma encode_char_ok:
  assumes "buffer_wf dst" "alloc_wf a" "b64_enc e c = Some (e', out)"
  obtains dst' a' where "encode_char c e (dst, a) = (e', dst', a')" "buffer_wf dst'" "alloc_wf a'" "contents dst' = contents dst @ out"
proof -
  note one = append_6bits_ok [OF assms(1,2)]
  consider "n_bits e = 0" | "n_bits e = 2" | "n_bits e = 4" | "n_bits e \<noteq> 0" "n_bits e \<noteq> 2" "n_bits e \<noteq> 4" by blast
  then show thesis
  proof cases
    case 1
    show thesis
      by (rule one [of "drop_bit 2 c" e]) (use that assms(3) 1 in \<open>auto simp: b64_enc_def encode_char_def split: prod.splits\<close>)
  next
    case 2
    show thesis
      by (rule one [of "partial_data e OR drop_bit 4 c" e])
        (use that assms(3) 2 in \<open>auto simp: b64_enc_def encode_char_def split: prod.splits\<close>)
  next
    case 3
    let ?v = "partial_data e OR drop_bit 6 c"
    let ?e = "fst (enc6 e ?v)"
    obtain dst1 a1 where w: "APPEND_6BITS_AND_MAYBE_ADD_NEWLINE ?v e (dst, a) = (?e, dst1, a1)"
      "buffer_wf dst1" "alloc_wf a1" "contents dst1 = contents dst @ snd (enc6 e ?v)" by (rule one)
    obtain dst2 a2 where "APPEND_6BITS_AND_MAYBE_ADD_NEWLINE (c mod 64) ?e (dst1, a1) = (fst (enc6 ?e (c mod 64)), dst2, a2)"
      "buffer_wf dst2" "alloc_wf a2" "contents dst2 = contents dst1 @ snd (enc6 ?e (c mod 64))"
      using w(2,3) by (rule append_6bits_ok)
    then show thesis using that assms(3) 3 w by (auto simp: b64_enc_def encode_char_def split: prod.splits)
  next
    case 4
    then show thesis using that assms by (auto simp: b64_enc_def encode_char_def)
  qed
qed

interpretation base64_encoder: byte_filter gsk_mime_base64_encoder_process gsk_mime_base64_encoder_flush b64_enc b64_enc_end
proof unfold_locales
  fix dst src :: gsk_buffer and a :: allocator and e :: b64_encoder
  assume wf: "buffer_wf dst" "buffer_wf src" "alloc_wf a"
  show "\<exists>src' a'. gsk_mime_base64_encoder_process e dst src a = Some (True, e, dst, src', a') \<and> buffer_wf src' \<and> alloc_wf a' \<and>
      contents src' = []" if "contents src = []"
    using wf(2,3) that by (rule read_char_Nil) (simp add: gsk_mime_base64_encoder_process.simps)
  show "\<exists>dst' src' a'. gsk_mime_base64_encoder_process e dst src a = gsk_mime_base64_encoder_process e' dst' src' a' \<and>
      buffer_wf dst' \<and> buffer_wf src' \<and> alloc_wf a' \<and> contents dst' = contents dst @ out \<and> contents src' = cs"
    if h: "contents src = c # cs" "b64_enc e c = Some (e', out)" for c cs e' out
  proof -
    obtain src' a1 where r: "gsk_buffer_read_char src a = Some (uint c, src', a1)" "buffer_wf src'" "alloc_wf a1" "contents src' = cs"
      using wf(2,3) h(1) by (rule read_char_Cons)
    obtain dst' a2 where "encode_char c e (dst, a1) = (e', dst', a2)" "buffer_wf dst'" "alloc_wf a2" "contents dst' = contents dst @ out"
      using wf(1) r(3) h(2) by (rule encode_char_ok)
    moreover have "uint c \<noteq> - 1" using uint_ge_0 [of c] by linarith
    ultimately show ?thesis
      using r by (subst gsk_mime_base64_encoder_process.simps [of e dst src a]) (auto intro!: exI)
  qed
  show "\<exists>f' dst' src' a'. gsk_mime_base64_encoder_flush e dst src a = Some (True, f', dst', src', a') \<and> contents dst' = contents dst @ out"
    if h: "contents src = []" "b64_enc_end e = Some out" for out
  proof -
    obtain dst1 a1 where one: "(if n_bits e \<noteq> 0 then APPEND_6BITS_AND_MAYBE_ADD_NEWLINE (partial_data e) e (dst, a) else (e, dst, a))
        = ((if n_bits e \<noteq> 0 then fst (enc6 e (partial_data e)) else e), dst1, a1)" "buffer_wf dst1" "alloc_wf a1"
      "contents dst1 = contents dst @ (if n_bits e \<noteq> 0 then snd (enc6 e (partial_data e)) else [])"
      using append_6bits_ok [OF wf(1,3), of "partial_data e" e thesis] wf by (cases "n_bits e = 0") auto
    obtain dst2 a2 where "gsk_buffer_append dst1 [61, 13, 10] 3 a1 = (dst2, a2)" "contents dst2 = contents dst1 @ [61, 13, 10]"
      using append_ok [OF one(2,3), of 3 "[61, 13, 10]" thesis] by simp
    moreover have "bsize src = 0" using wf(2) h(1) by (simp add: buffer_wf_iff)
    ultimately show ?thesis using one(1,4) h(2) by (auto simp: gsk_mime_base64_encoder_flush_def b64_enc_end_def)
  qed
qed

definition dec_value :: "b64_decoder \<Rightarrow> u8 \<Rightarrow> b64_decoder \<times> u8 list" where
  "dec_value d v =
     (if cur_bits_in_byte d = 0 then (d\<lparr>cur_bits_in_byte := 6, byte := byte d OR push_bit 2 v\<rparr>, [])
      else if cur_bits_in_byte d = 2 then (d\<lparr>cur_bits_in_byte := 0, byte := 0\<rparr>, [byte d OR v])
      else if cur_bits_in_byte d = 4 then (d\<lparr>cur_bits_in_byte := 2, byte := push_bit 6 v\<rparr>, [byte d OR drop_bit 2 v])
      else if cur_bits_in_byte d = 6 then (d\<lparr>cur_bits_in_byte := 4, byte := push_bit 4 v\<rparr>, [byte d OR drop_bit 4 v])
      else (d, []))"

definition b64_dec :: "b64_decoder \<Rightarrow> u8 \<Rightarrow> (b64_decoder \<times> u8 list) option" where
  "b64_dec d c =
     (let b64 = ascii_to_base64 ! unat c
      in if b64 = BASE64_VALUE_WHITESPACE then Some (d, [])
         else if b64 = BASE64_VALUE_TERMINAL then Some (d\<lparr>got_terminal := True\<rparr>, [])
         else if b64 = BASE64_VALUE_BAD_CHAR then None
         else Some (dec_value d b64))"

definition b64_dec_end :: "b64_decoder \<Rightarrow> u8 list option" where
  "b64_dec_end d = (if got_terminal d then Some [] else None)"

lemma decoder_process_one_ok:
  assumes "buffer_wf dst" "alloc_wf a" "b64_dec d c = Some (d', out)"
  obtains dst' a' where "decoder_process_one d dst (uint c) a = (True, d', dst', a')" "buffer_wf dst'" "alloc_wf a'"
    "contents dst' = contents dst @ out"
proof -
  note one = append_char_ok [OF assms(1,2)]
  define v where "v = ascii_to_base64 ! unat c"
  have n: "ascii_to_base64 ! nat (uint c) = v" by (simp add: v_def)
  consider "out = []" "decoder_process_one d dst (uint c) a = (True, d', dst, a)"
    | x where "out = [x]" "decoder_process_one d dst (uint c) a = (True, d', gsk_buffer_append_char dst x a)"
    using assms(3) unfolding b64_dec_def decoder_process_one_def Let_def n v_def [symmetric] dec_value_def
    by (auto split: if_splits)
  then show thesis
  proof cases
    case 1
    then show thesis using that assms by simp
  next
    case 2
    show thesis by (rule one [of x]) (use that 2 in auto)
  qed
qed

interpretation base64_decoder: byte_filter gsk_mime_base64_decoder_process gsk_mime_base64_decoder_flush b64_dec b64_dec_end
proof unfold_locales
  fix dst src :: gsk_buffer and a :: allocator and d :: b64_decoder
  assume wf: "buffer_wf dst" "buffer_wf src" "alloc_wf a"
  show empty: "\<exists>src' a'. gsk_mime_base64_decoder_process d dst src a = Some (True, d, dst, src', a') \<and> buffer_wf src' \<and> alloc_wf a' \<and>
      contents src' = []" if "contents src = []"
    using wf(2,3) that by (rule read_char_Nil) (simp add: gsk_mime_base64_decoder_process.simps)
  show "\<exists>dst' src' a'. gsk_mime_base64_decoder_process d dst src a = gsk_mime_base64_decoder_process d' dst' src' a' \<and>
      buffer_wf dst' \<and> buffer_wf src' \<and> alloc_wf a' \<and> contents dst' = contents dst @ out \<and> contents src' = cs"
    if h: "contents src = c # cs" "b64_dec d c = Some (d', out)" for c cs d' out
  proof -
    obtain src' a1 where r: "gsk_buffer_read_char src a = Some (uint c, src', a1)" "buffer_wf src'" "alloc_wf a1" "contents src' = cs"
      using wf(2,3) h(1) by (rule read_char_Cons)
    obtain dst' a2 where "decoder_process_one d dst (uint c) a1 = (True, d', dst', a2)" "buffer_wf dst'" "alloc_wf a2"
      "contents dst' = contents dst @ out"
      using wf(1) r(3) h(2) by (rule decoder_process_one_ok)
    moreover have "uint c \<noteq> - 1" using uint_ge_0 [of c] by linarith
    ultimately show ?thesis
      using r by (subst gsk_mime_base64_decoder_process.simps [of d dst src a]) (auto intro!: exI)
  qed
  show "\<exists>f' dst' src' a'. gsk_mime_base64_decoder_flush d dst src a = Some (True, f', dst', src', a') \<and> contents dst' = contents dst @ out"
    if "contents src = []" "b64_dec_end d = Some out" for out
    using empty that by (auto simp: gsk_mime_base64_decoder_flush_def b64_dec_end_def split: if_splits)
qed

subsection \<open>The decoder follows the encoder\<close>

lemma ascii_to_base64_values:
  "ascii_to_base64 =
    [253, 253, 253, 253, 253, 253, 253, 253, 253, 255, 255, 255, 255, 255, 253, 253, 253, 253, 253, 253, 253, 253, 253, 253, 253, 253,
     253, 253, 253, 253, 253, 253, 255, 253, 253, 253, 253, 253, 253, 253, 253, 253, 253, 62, 253, 253, 253, 63, 52, 53, 54, 55,
     56, 57, 58, 59, 60, 61, 253, 253, 253, 254, 253, 253, 253, 0, 1, 2, 3, 4, 5, 6, 7, 8, 9, 10, 11, 12,
     13, 14, 15, 16, 17, 18, 19, 20, 21, 22, 23, 24, 25, 253, 253, 253, 253, 253, 253, 26, 27, 28, 29, 30, 31, 32,
     33, 34, 35, 36, 37, 38, 39, 40, 41, 42, 43, 44, 45, 46, 47, 48, 49, 50, 51, 253, 253, 253, 253, 253, 253, 253,
     253, 253, 253, 253, 253, 253, 253, 253, 253, 253, 253, 253, 253, 253, 253, 253, 253, 253, 253, 253, 253, 253, 253, 253, 253, 253,
     253, 253, 253, 253, 253, 253, 253, 253, 253, 253, 253, 253, 253, 253, 253, 253, 253, 253, 253, 253, 253, 253, 253, 253, 253, 253,
     253, 253, 253, 253, 253, 253, 253, 253, 253, 253, 253, 253, 253, 253, 253, 253, 253, 253, 253, 253, 253, 253, 253, 253, 253, 253,
     253, 253, 253, 253, 253, 253, 253, 253, 253, 253, 253, 253, 253, 253, 253, 253, 253, 253, 253, 253, 253, 253, 253, 253, 253, 253,
     253, 253, 253, 253, 253, 253, 253, 253, 253, 253, 253, 253, 253, 253, 253, 253, 253, 253, 253, 253, 253, 253]"
  by code_simp

lemma base64_tables:
  "list_all (\<lambda>n. ascii_to_base64 ! unat (base64_chars ! n) = of_nat n) [0..<64]"
  "ascii_to_base64 ! 13 = BASE64_VALUE_WHITESPACE" "ascii_to_base64 ! 10 = BASE64_VALUE_WHITESPACE"
  "ascii_to_base64 ! 61 = BASE64_VALUE_TERMINAL"
  unfolding ascii_to_base64_values by code_simp+

lemma b64_dec_char:
  assumes "unat v < 64"
  shows "b64_dec d (base64_chars ! unat v) = Some (dec_value d v)"
proof -
  have "ascii_to_base64 ! unat (base64_chars ! unat v) = v" using base64_tables(1) assms by (auto simp: list_all_iff)
  moreover have "v \<noteq> 255" "v \<noteq> 254" "v \<noteq> 253" using assms by auto
  ultimately show ?thesis
    by (simp add: b64_dec_def Let_def BASE64_VALUE_WHITESPACE_def BASE64_VALUE_TERMINAL_def BASE64_VALUE_BAD_CHAR_def)
qed

lemma b64_dec_other: "b64_dec d 13 = Some (d, [])" "b64_dec d 10 = Some (d, [])" "b64_dec d 61 = Some (d\<lparr>got_terminal := True\<rparr>, [])"
  using base64_tables(2-4)
  by (simp_all add: b64_dec_def Let_def BASE64_VALUE_WHITESPACE_def BASE64_VALUE_TERMINAL_def BASE64_VALUE_BAD_CHAR_def)

lemma transduce_enc6:
  "unat v < 64 \<Longrightarrow> transduce b64_dec d (snd (enc6 e v)) = Some (fst (dec_value d v), snd (dec_value d v), [])"
  by (auto simp: enc6_def b64_dec_char b64_dec_other prod.case_eq_if)

definition in_step :: "b64_encoder \<Rightarrow> b64_decoder \<Rightarrow> u8 list \<Rightarrow> bool" where
  "in_step e d pend \<longleftrightarrow>
     (n_bits e = 0 \<and> cur_bits_in_byte d = 0 \<and> byte d = 0 \<and> pend = []) \<or>
     (\<exists>p. pend = [p] \<and> n_bits e = 2 \<and> partial_data e = push_bit 4 (take_bit 2 p) \<and>
        cur_bits_in_byte d = 6 \<and> byte d = push_bit 2 (drop_bit 2 p)) \<or>
     (\<exists>p. pend = [p] \<and> n_bits e = 4 \<and> partial_data e = push_bit 2 (take_bit 4 p) \<and>
        cur_bits_in_byte d = 4 \<and> byte d = push_bit 4 (drop_bit 4 p))"

lemma byte_masks: "c AND 3 = take_bit 2 c" "c AND 15 = take_bit 4 c" "c mod 64 = take_bit 6 c" for c :: u8
proof -
  show "c AND 3 = take_bit 2 c" "c AND 15 = take_bit 4 c" by (simp_all add: take_bit_eq_mask mask_eq_exp_minus_1)
  show "c mod 64 = take_bit 6 c" by (simp add: take_bit_eq_mod)
qed

lemma enc6_fields [simp]: "n_bits (fst (enc6 e v)) = n_bits e" "partial_data (fst (enc6 e v)) = partial_data e"
  by (simp_all add: enc6_def)

lemma in_step_byte:
  assumes "in_step e d pend" "b64_enc e c = Some (e', out)"
  shows "\<exists>d' out' pend'. transduce b64_dec d out = Some (d', out', []) \<and> got_terminal d' = got_terminal d \<and>
    in_step e' d' pend' \<and> out' @ pend' = pend @ [c]"
proof -
  consider "n_bits e = 0" "cur_bits_in_byte d = 0" "byte d = 0" "pend = []"
    | p where "pend = [p]" "n_bits e = 2" "partial_data e = push_bit 4 (take_bit 2 p)" "cur_bits_in_byte d = 6"
        "byte d = push_bit 2 (drop_bit 2 p)"
    | p where "pend = [p]" "n_bits e = 4" "partial_data e = push_bit 2 (take_bit 4 p)" "cur_bits_in_byte d = 4"
        "byte d = push_bit 4 (drop_bit 4 p)"
    using assms(1) by (auto simp: in_step_def)
  then show ?thesis
  proof cases
    case 1
    then have e: "e' = (fst (enc6 e (drop_bit 2 c)))\<lparr>n_bits := 2, partial_data := push_bit 4 (take_bit 2 c)\<rparr>"
      "out = snd (enc6 e (drop_bit 2 c))"
      using assms(2) by (auto simp: b64_enc_def byte_masks split: prod.splits)
    then show ?thesis using 1 by (simp add: transduce_enc6 six_bits in_step_def dec_value_def)
  next
    case (2 p)
    let ?v = "push_bit 4 (take_bit 2 p) OR drop_bit 4 c"
    from 2 have e: "e' = (fst (enc6 e ?v))\<lparr>n_bits := 4, partial_data := push_bit 2 (take_bit 4 c)\<rparr>" "out = snd (enc6 e ?v)"
      using assms(2) by (auto simp: b64_enc_def byte_masks split: prod.splits)
    have "dec_value d ?v = (d\<lparr>cur_bits_in_byte := 4, byte := push_bit 4 (drop_bit 4 c)\<rparr>, [p])"
      using 2 joined_bits(1,2) [of p c] by (simp add: dec_value_def del: push_bit_or drop_bit_or)
    then show ?thesis using 2 by (simp add: e transduce_enc6 six_bits in_step_def)
  next
    case (3 p)
    let ?v = "push_bit 2 (take_bit 4 p) OR drop_bit 6 c"
    let ?e = "fst (enc6 e ?v)" and ?d = "d\<lparr>cur_bits_in_byte := 2, byte := push_bit 6 ?v\<rparr>"
    from 3 have e: "e' = (fst (enc6 ?e (take_bit 6 c)))\<lparr>n_bits := 0, partial_data := 0\<rparr>"
      "out = snd (enc6 e ?v) @ snd (enc6 ?e (take_bit 6 c))"
      using assms(2) by (auto simp: b64_enc_def byte_masks split: prod.splits)
    have v1: "dec_value d ?v = (?d, [p])"
      using 3 joined_bits(3) [of p c] by (simp add: dec_value_def del: push_bit_or drop_bit_or)
    have v2: "dec_value ?d (take_bit 6 c) = (?d\<lparr>cur_bits_in_byte := 0, byte := 0\<rparr>, [c])"
      using joined_bits(4) [of p c] by (simp add: dec_value_def del: push_bit_or drop_bit_or)
    have "transduce b64_dec d out = Some (?d\<lparr>cur_bits_in_byte := 0, byte := 0\<rparr>, [p, c], [])"
      using transduce_enc6 [of ?v d e] transduce_enc6 [of "take_bit 6 c" ?d ?e] transduce_append [of b64_dec d "snd (enc6 e ?v)"] v1 v2
      by (simp add: e six_bits)
    then show ?thesis using 3 by (simp add: e in_step_def)
  qed
qed

lemma b64_enc_total: "\<exists>e' out. b64_enc e c = Some (e', out)"
  by (simp add: b64_enc_def split: prod.splits)

lemma in_step_bytes:
  "in_step e d pend \<Longrightarrow> \<exists>e' out d' out' pend'. transduce b64_enc e xs = Some (e', out, []) \<and>
     transduce b64_dec d out = Some (d', out', []) \<and> got_terminal d' = got_terminal d \<and>
     in_step e' d' pend' \<and> out' @ pend' = pend @ xs"
proof (induction xs arbitrary: e d pend)
  case (Cons c xs)
  obtain e1 out1 where e: "b64_enc e c = Some (e1, out1)"
    using b64_enc_total by blast
  obtain d1 o1 p1 where one: "transduce b64_dec d out1 = Some (d1, o1, [])" "got_terminal d1 = got_terminal d"
    "in_step e1 d1 p1" "o1 @ p1 = pend @ [c]" using in_step_byte [OF Cons.prems e] by blast
  obtain e2 out2 d2 o2 p2 where "transduce b64_enc e1 xs = Some (e2, out2, [])" "transduce b64_dec d1 out2 = Some (d2, o2, [])"
    "got_terminal d2 = got_terminal d1" "in_step e2 d2 p2" "o2 @ p2 = p1 @ xs" using Cons.IH [OF one(3)] by blast
  then show ?case
    using e one transduce_append [OF one(1), of out2]
    by (intro exI [of _ e2] exI [of _ "out1 @ out2"] exI [of _ d2] exI [of _ "o1 @ o2"] exI [of _ p2]) simp
qed simp

lemma in_step_end:
  assumes "in_step e d pend" "b64_enc_end e = Some out"
  shows "\<exists>d'. transduce b64_dec d out = Some (d', pend, []) \<and> got_terminal d'"
proof -
  have tail: "transduce b64_dec d [61, 13, 10] = Some (d\<lparr>got_terminal := True\<rparr>, [], [])" for d
    by (simp add: b64_dec_other)
  show ?thesis
  proof (cases "n_bits e = 0")
    case True
    then show ?thesis using assms tail by (auto simp: in_step_def b64_enc_end_def)
  next
    case False
    then obtain p where p: "pend = [p]" using assms(1) by (auto simp: in_step_def)
    have "snd (dec_value d (partial_data e)) = [p]" "unat (partial_data e) < 64"
      using assms(1) False p joined_bits(1,3) [of p 0] six_bits_last [of p] by (auto simp: in_step_def dec_value_def)
    then show ?thesis
      using transduce_enc6 [of "partial_data e" d e] transduce_append [of b64_dec d "snd (enc6 e (partial_data e))" _ _ _ "[61, 13, 10]"]
        tail [of "fst (dec_value d (partial_data e))"] assms(2) False p
      by (auto simp: b64_enc_end_def simp del: transduce.simps)
  qed
qed

section \<open>Properties\<close>

text \<open>One byte per write.\<close>

abbreviation byte_writes :: "u8 list \<Rightarrow> filter_op list" where
  "byte_writes text \<equiv> map (\<lambda>c. Write_Bytes [c]) text"

lemma byte_writes [simp]: "written (byte_writes t) = t" "writes_ok (byte_writes t)"
  by (induction t) simp_all

text \<open>C11: The base64 filters round-trip.  Whatever the pieces in which the data is written to an
  encoder, and however reads are mixed in, closing it succeeds; and the text that has come out,
  written to a decoder in any pieces, gives the data back.\<close>

theorem mime_base64_roundtrip:
  assumes "alloc_wf a" "writes_ok ops"
  shows "\<exists>base64.
    filter_session gsk_mime_base64_encoder_process (Some gsk_mime_base64_encoder_flush) new_b64_encoder ops a = Some (True, base64) \<and>
    (\<forall>ops' a'. writes_ok ops' \<and> alloc_wf a' \<and> written ops' = base64 \<longrightarrow>
       filter_session gsk_mime_base64_decoder_process (Some gsk_mime_base64_decoder_flush) new_b64_decoder ops' a' =
         Some (True, written ops))"
proof -
  have "in_step new_b64_encoder new_b64_decoder []" by (simp add: in_step_def new_b64_encoder_def new_b64_decoder_def)
  then obtain e out d out1 pend where st: "transduce b64_enc new_b64_encoder (written ops) = Some (e, out, [])"
    "transduce b64_dec new_b64_decoder out = Some (d, out1, [])" "in_step e d pend" "out1 @ pend = written ops"
    using in_step_bytes [of new_b64_encoder new_b64_decoder "[]" "written ops"] by auto
  obtain tail where t: "b64_enc_end e = Some tail" by (simp add: b64_enc_end_def)
  obtain d' where d': "transduce b64_dec d tail = Some (d', pend, [])" "got_terminal d'" using in_step_end [OF st(3) t] by blast
  have "transduce b64_dec new_b64_decoder (out @ tail) = Some (d', written ops, [])"
    using transduce_append [OF st(2), of tail] d'(1) st(4) by simp
  then show ?thesis
    using base64_encoder.session_ok [OF assms, of new_b64_encoder e out "[]" tail] st(1) t d'(2)
      base64_decoder.session_ok [of _ _ new_b64_decoder d' "written ops" "[]" "[]"]
    by (auto simp: b64_dec_end_def)
qed

theorem mime_base64_roundtrip_witness:
  "\<exists>base64.
    filter_session gsk_mime_base64_encoder_process (Some gsk_mime_base64_encoder_flush) new_b64_encoder
      [Write_Bytes [1, 2], Read_Bytes 1, Write_Bytes [3, 4]] blank_allocator = Some (True, base64) \<and>
    filter_session gsk_mime_base64_decoder_process (Some gsk_mime_base64_decoder_flush) new_b64_decoder
      (byte_writes base64) blank_allocator = Some (True, [1, 2, 3, 4])"
proof -
  obtain base64 where
    "filter_session gsk_mime_base64_encoder_process (Some gsk_mime_base64_encoder_flush) new_b64_encoder
      [Write_Bytes [1, 2], Read_Bytes 1, Write_Bytes [3, 4]] blank_allocator = Some (True, base64)"
    "\<And>ops' a'. writes_ok ops' \<Longrightarrow> alloc_wf a' \<Longrightarrow> written ops' = base64 \<Longrightarrow>
       filter_session gsk_mime_base64_decoder_process (Some gsk_mime_base64_decoder_flush) new_b64_decoder ops' a' =
         Some (True, [1, 2, 3, 4])"
    using mime_base64_roundtrip [of blank_allocator "[Write_Bytes [1, 2], Read_Bytes 1, Write_Bytes [3, 4]]"] by auto
  then show ?thesis by (intro exI [of _ base64]) simp
qed

end
