(* ===== verification/Gsk_Mime_Quoted.thy ===== *)
theory Gsk_Mime_Quoted
  imports Gsk_Simple_Filter Gsk_Buffer_Properties Gsk_Base64 "HOL-Library.Sublist"
begin

text \<open>
  The quoted-printable transfer encoding, \<^verbatim>\<open>src/src/mime/gskmimeencodings-quotedprintable.c\<close>.  The
  encoder keeps the contract of a stream filter.  The decoder does not: it reads an
  uninitialised byte when an escape is divided between two writes.
\<close>

section \<open>Quoted-printable\<close>

definition quoteprintable_char_to_hexval :: "u8 \<Rightarrow> u8 option" where
  "quoteprintable_char_to_hexval c =
     (if 48 \<le> c \<and> c \<le> 57 then Some (c - 48)
      else if 65 \<le> c \<and> c \<le> 70 then Some (c - 65 + 10)
      else None)"

text \<open>\<open>buf\<close> is a local array that \<open>gsk_buffer_peek\<close> fills with at most three bytes; with two
  of them, \<open>junk\<close> is what the third element happens to hold.\<close>

partial_function (option) qp_decode_loop ::
  "u8 \<Rightarrow> gsk_buffer \<Rightarrow> gsk_buffer \<Rightarrow> allocator \<Rightarrow> (bool \<times> gsk_buffer \<times> gsk_buffer \<times> allocator) option" where
  "qp_decode_loop junk dst src a =
     (case gsk_buffer_peek src 3 of (data, p) \<Rightarrow>
        (let buf = data @ replicate (3 - length data) junk;
             ne = of_nat (length (takeWhile (\<lambda>c. c \<noteq> 61) data)) :: u32
         in if ne > 0 then
              (case gsk_buffer_append dst buf ne a of (dst', a1) \<Rightarrow>
                 (case gsk_buffer_discard src ne a1 of (_, src', a2) \<Rightarrow> qp_decode_loop junk dst' src' a2))
            else if p \<le> 1 then Some (True, dst, src, a)
            else if p = 2 \<and> buf ! 1 = 10 then
              (case gsk_buffer_discard src 2 a of (_, src', a') \<Rightarrow> qp_decode_loop junk dst src' a')
            else if buf ! 1 = 13 \<and> buf ! 2 = 10 then
              (case gsk_buffer_discard src 3 a of (_, src', a') \<Rightarrow> qp_decode_loop junk dst src' a')
            else if buf ! 1 = 10 then
              (case gsk_buffer_discard src 2 a of (_, src', a') \<Rightarrow> qp_decode_loop junk dst src' a')
            else if quoteprintable_char_to_hexval (buf ! 1) = None \<or> quoteprintable_char_to_hexval (buf ! 2) = None then
              Some (False, dst, src, a)
            else
              (case gsk_buffer_append_char dst
                      (push_bit 4 (the (quoteprintable_char_to_hexval (buf ! 1))) OR
                       the (quoteprintable_char_to_hexval (buf ! 2))) a of (dst', a1) \<Rightarrow>
                 (case gsk_buffer_discard src 3 a1 of (_, src', a2) \<Rightarrow> qp_decode_loop junk dst' src' a2))))"

definition gsk_mime_quoted_printable_decoder_process :: "u8 \<Rightarrow> unit filter_method" where
  "gsk_mime_quoted_printable_decoder_process junk f dst src a =
     map_option (\<lambda>(ok, r). (ok, f, r)) (qp_decode_loop junk dst src a)"

definition gsk_mime_quoted_printable_decoder_flush :: "unit filter_method" where
  "gsk_mime_quoted_printable_decoder_flush f dst src a =
     (if bsize src > 0 then Some (False, f, dst, src, a) else Some (True, f, dst, src, a))"

definition IS_ENCODABLE_AS_ITSELF :: "u8 \<Rightarrow> bool" where
  "IS_ENCODABLE_AS_ITSELF c \<longleftrightarrow> (33 \<le> c \<and> c \<le> 60) \<or> (62 \<le> c \<and> c \<le> 126)"

text \<open>\<open>"=%02X"\<close>.\<close>

definition upper_hex :: "nat \<Rightarrow> u8" where
  "upper_hex d = (if d < 10 then 48 + of_nat d else 55 + of_nat d)"

definition equals_hex :: "u8 \<Rightarrow> u8 list" where
  "equals_hex c = [61, upper_hex (unat c div 16), upper_hex (unat c mod 16)]"

text \<open>The inner loop over the peeked bytes: the length of the line, the bytes not consumed, and
  the destination.\<close>

fun qp_encode_bytes ::
  "u32 \<Rightarrow> u8 list \<Rightarrow> gsk_buffer \<Rightarrow> allocator \<Rightarrow> u32 \<times> u8 list \<times> gsk_buffer \<times> allocator" where
  "qp_encode_bytes n [] dst a = (n, [], dst, a)"
| "qp_encode_bytes n0 (c # r) dst0 a0 =
     (case (if n0 > 68 then (0, gsk_buffer_append dst0 [61, 13, 10] 3 a0) else (n0, dst0, a0)) of (n, dst, a) \<Rightarrow>
        if IS_ENCODABLE_AS_ITSELF c then
          (case gsk_buffer_append_char dst c a of (dst', a') \<Rightarrow> qp_encode_bytes (n + 1) r dst' a')
        else if c = 13 \<and> r = [] then (n, c # r, dst, a)
        else if c = 13 \<and> hd r = 10 then
          (case gsk_buffer_append dst (c # r) 2 a of (dst', a') \<Rightarrow> qp_encode_bytes 0 (tl r) dst' a')
        else
          (case gsk_buffer_append dst (equals_hex c) 3 a of (dst', a') \<Rightarrow> qp_encode_bytes (n + 3) r dst' a'))"

partial_function (option) qp_encode_loop ::
  "u32 \<Rightarrow> gsk_buffer \<Rightarrow> gsk_buffer \<Rightarrow> allocator \<Rightarrow> (u32 \<times> gsk_buffer \<times> gsk_buffer \<times> allocator) option" where
  "qp_encode_loop n dst src a =
     (case gsk_buffer_peek src 256 of (data, n_peeked) \<Rightarrow>
        if n_peeked > 0 then
          (case qp_encode_bytes n data dst a of (n', rem, dst', a1) \<Rightarrow>
             (case gsk_buffer_discard src (n_peeked - of_nat (length rem)) a1 of (_, src', a2) \<Rightarrow>
                if n_peeked < 256 then Some (n', dst', src', a2) else qp_encode_loop n' dst' src' a2))
        else Some (n, dst, src, a))"

text \<open>The only field of the encoder is \<open>n_chars_in_line\<close>.\<close>

definition gsk_mime_quoted_printable_encoder_process :: "u32 filter_method" where
  "gsk_mime_quoted_printable_encoder_process n dst src a =
     map_option (\<lambda>(n', r). (True, n', r)) (qp_encode_loop n dst src a)"

text \<open>The character of \<open>gsk_buffer_printf\<close>; the format needs far less than its limit of 1024
  bytes.\<close>

definition gsk_mime_quoted_printable_encoder_flush :: "u32 filter_method" where
  "gsk_mime_quoted_printable_encoder_flush n dst src a =
     (if \<not> bsize src \<le> 1 then Some (False, n, dst, src, a)
      else
        (case (if bsize src = 1 then
                 (case gsk_buffer_read_char src a of
                    None \<Rightarrow> None
                  | Some (c, src', a1) \<Rightarrow>
                      (case gsk_buffer_vprintf dst 12 (equals_hex (word_of_int c)) 0 0 a1 of
                         (dst', a2) \<Rightarrow> Some (n + 3, dst', src', a2)))
               else Some (n, dst, src, a)) of
           None \<Rightarrow> None
         | Some (n', dst', src', a') \<Rightarrow>
             if n' > 0 then
               (case gsk_buffer_append dst' [61, 13, 10] 3 a' of (dst'', a'') \<Rightarrow> Some (True, n', dst'', src', a''))
             else Some (True, n', dst', src', a')))"

section \<open>The quoted-printable encoder as a filter\<close>

fun qp_enc :: "u32 \<Rightarrow> u8 list \<Rightarrow> u32 \<times> u8 list \<times> u8 list" where
  "qp_enc n [] = (n, [], [])"
| "qp_enc n0 (c # r) =
     (let soft = (if n0 > 68 then [61, 13, 10] else []);
          n = (if n0 > 68 then 0 else n0)
      in if IS_ENCODABLE_AS_ITSELF c then (case qp_enc (n + 1) r of (n', out, left) \<Rightarrow> (n', soft @ c # out, left))
         else if c = 13 \<and> r = [] then (n, soft, [c])
         else if c = 13 \<and> hd r = 10 then (case qp_enc 0 (tl r) of (n', out, left) \<Rightarrow> (n', soft @ [13, 10] @ out, left))
         else (case qp_enc (n + 3) r of (n', out, left) \<Rightarrow> (n', soft @ equals_hex c @ out, left)))"

definition qp_enc_end :: "u32 \<Rightarrow> u8 list \<Rightarrow> u8 list option" where
  "qp_enc_end n left =
     (case left of
        [] \<Rightarrow> Some (if n > 0 then [61, 13, 10] else [])
      | [c] \<Rightarrow> Some (equals_hex c @ (if n + 3 > 0 then [61, 13, 10] else []))
      | _ \<Rightarrow> None)"

lemma qp_enc_left:
  "qp_enc n xs = (n', out, left) \<Longrightarrow> suffix left xs \<and> (left = [] \<or> left = [13] \<and> n' \<le> 68)"
proof (induction n xs arbitrary: n' out left rule: qp_enc.induct)
  case (2 n0 c r)
  note IH = "2.IH" [OF refl refl]
  have tl: "suffix left r" if "suffix left (tl r)" using that by (cases r) (auto intro: suffix_ConsI)
  consider "IS_ENCODABLE_AS_ITSELF c" | "\<not> IS_ENCODABLE_AS_ITSELF c" "c = 13" "r = []"
    | "\<not> IS_ENCODABLE_AS_ITSELF c" "c = 13" "r \<noteq> []" "hd r = 10"
    | "\<not> IS_ENCODABLE_AS_ITSELF c" "\<not> (c = 13 \<and> r = [])" "\<not> (c = 13 \<and> hd r = 10)" by blast
  then show ?case
  proof cases
    case 1
    then show ?thesis using IH(1) "2.prems" by (auto simp: Let_def intro: suffix_ConsI split: prod.splits)
  next
    case 2
    then show ?thesis using "2.prems" by (auto simp: Let_def not_less split: if_splits)
  next
    case 3
    then show ?thesis using IH(2) "2.prems" tl by (auto simp: Let_def intro!: suffix_ConsI split: prod.splits)
  next
    case 4
    then show ?thesis using IH(3) "2.prems" by (auto simp: Let_def intro: suffix_ConsI split: prod.splits)
  qed
qed simp

lemma qp_enc_append:
  "qp_enc n xs = (n1, out1, left1) \<Longrightarrow>
   qp_enc n (xs @ ys) = (case qp_enc n1 (left1 @ ys) of (n2, out2, left2) \<Rightarrow> (n2, out1 @ out2, left2))"
proof (induction n xs arbitrary: n1 out1 left1 rule: qp_enc.induct)
  case (1 n)
  then show ?case by (simp split: prod.splits)
next
  case (2 n0 c r)
  let ?n = "if n0 > 68 then 0 else n0"
  note IH = "2.IH" [OF refl refl]
  consider "IS_ENCODABLE_AS_ITSELF c" | "\<not> IS_ENCODABLE_AS_ITSELF c" "c = 13" "r = []"
    | "\<not> IS_ENCODABLE_AS_ITSELF c" "c = 13" "r \<noteq> []" "hd r = 10"
    | "\<not> IS_ENCODABLE_AS_ITSELF c" "\<not> (c = 13 \<and> r = [])" "\<not> (c = 13 \<and> hd r = 10)" by blast
  then show ?case
  proof cases
    case 1
    then show ?thesis using IH(1) "2.prems" by (auto simp: Let_def split: prod.splits)
  next
    case 2
    then show ?thesis using "2.prems" by (auto simp: Let_def split: prod.splits)
  next
    case 3
    then show ?thesis using IH(2) "2.prems" by (auto simp: Let_def split: prod.splits)
  next
    case 4
    then show ?thesis using IH(3) "2.prems" by (cases "r = []") (auto simp: Let_def split: prod.splits)
  qed
qed

lemma qp_encode_bytes_ok:
  "buffer_wf dst \<Longrightarrow> alloc_wf a \<Longrightarrow> qp_enc n xs = (n', out, left) \<Longrightarrow>
   \<exists>dst' a'. qp_encode_bytes n xs dst a = (n', left, dst', a') \<and> buffer_wf dst' \<and> alloc_wf a' \<and> contents dst' = contents dst @ out"
proof (induction n xs arbitrary: dst a out rule: qp_enc.induct)
  case (2 n0 c r)
  note IH = "2.IH" [OF refl refl]
  let ?n = "if n0 > 68 then 0 else n0" and ?soft = "if n0 > 68 then [61, 13, 10] else [] :: u8 list"
  obtain dst1 a1 where s: "(if n0 > 68 then (0, gsk_buffer_append dst [61, 13, 10] 3 a) else (n0, dst, a)) = (?n, dst1, a1)"
    "buffer_wf dst1" "alloc_wf a1" "contents dst1 = contents dst @ ?soft"
    using append_ok [OF "2.prems"(1,2), of 3 "[61, 13, 10]" thesis] "2.prems"(1,2) by (cases "n0 > 68") simp_all
  consider "IS_ENCODABLE_AS_ITSELF c" | "\<not> IS_ENCODABLE_AS_ITSELF c" "c = 13" "r = []"
    | "\<not> IS_ENCODABLE_AS_ITSELF c" "c = 13" "r \<noteq> []" "hd r = 10"
    | "\<not> IS_ENCODABLE_AS_ITSELF c" "\<not> (c = 13 \<and> r = [])" "\<not> (c = 13 \<and> hd r = 10)" by blast
  then show ?case
  proof cases
    case 1
    obtain o2 where o: "qp_enc (?n + 1) r = (n', o2, left)" "out = ?soft @ c # o2"
      using "2.prems"(3) 1 by (auto simp: Let_def split: prod.splits)
    obtain dst2 a2 where "gsk_buffer_append_char dst1 c a1 = (dst2, a2)" "buffer_wf dst2" "alloc_wf a2" "contents dst2 = contents dst1 @ [c]"
      using s(2,3) by (rule append_char_ok)
    then show ?thesis using IH(1) [OF 1, of dst2 a2 o2] o s 1 by simp
  next
    case 2
    then have "n' = ?n" "out = ?soft" "left = [13]" using "2.prems"(3) by (auto simp: Let_def)
    then show ?thesis using s 2 by (simp add: Let_def)
  next
    case 3
    obtain o2 where o: "qp_enc 0 (tl r) = (n', o2, left)" "out = ?soft @ [13, 10] @ o2"
      using "2.prems"(3) 3 by (auto simp: Let_def split: prod.splits)
    obtain dst2 a2 where "gsk_buffer_append dst1 (c # r) 2 a1 = (dst2, a2)" "buffer_wf dst2" "alloc_wf a2"
      "contents dst2 = contents dst1 @ take (unat (2 :: u32)) (c # r)"
      using append_ok [OF s(2,3), of 2 "c # r" thesis] 3 by (cases r) simp_all
    moreover have "take 2 (c # r) = [13, 10]" using 3 by (cases r) simp_all
    ultimately show ?thesis using IH(2) [of dst2 a2 o2] o s 3 by simp
  next
    case 4
    obtain o2 where o: "qp_enc (?n + 3) r = (n', o2, left)" "out = ?soft @ equals_hex c @ o2"
      using "2.prems"(3) 4 by (auto simp: Let_def split: prod.splits)
    obtain dst2 a2 where w: "gsk_buffer_append dst1 (equals_hex c) 3 a1 = (dst2, a2)" "buffer_wf dst2" "alloc_wf a2"
      "contents dst2 = contents dst1 @ equals_hex c"
      using append_ok [OF s(2,3), of 3 "equals_hex c" thesis] by (simp add: equals_hex_def)
    have "qp_encode_bytes n0 (c # r) dst a = qp_encode_bytes (?n + 3) r dst2 a2"
      unfolding qp_encode_bytes.simps s(1) using 4 w(1) by auto
    then show ?thesis using IH(3) [OF 4 w(2,3) o(1)] o(2) s(4) w(4) by simp
  qed
qed simp

lemma drop_suffix_take:
  assumes "suffix ys (take k xs)"
  shows "drop (length (take k xs) - length ys) xs = ys @ drop k xs"
proof -
  obtain zs where z: "take k xs = zs @ ys" using assms by (auto simp: suffix_def)
  then have "xs = zs @ ys @ drop k xs" by (metis append.assoc append_take_drop_id)
  then have "drop (length zs) xs = ys @ drop k xs" by (metis append_eq_conv_conj)
  then show ?thesis using z by (simp del: length_take)
qed

lemma qp_encode_loop_ok:
  "buffer_wf dst \<Longrightarrow> buffer_wf src \<Longrightarrow> alloc_wf a \<Longrightarrow> qp_enc n (contents src) = (n', out, left) \<Longrightarrow>
   \<exists>dst' src' a'. qp_encode_loop n dst src a = Some (n', dst', src', a') \<and> buffer_wf dst' \<and> buffer_wf src' \<and> alloc_wf a' \<and>
     contents dst' = contents dst @ out \<and> contents src' = left"
proof (induction "length (contents src)" arbitrary: n dst src a out rule: less_induct)
  case less
  let ?data = "take 256 (contents src)"
  obtain data p where pk: "gsk_buffer_peek src 256 = (data, p)" by (metis surj_pair)
  have data: "data = ?data" and p: "unat p = length ?data" using gsk_buffer_peek_spec [OF less.prems(2), of 256] pk by simp_all
  obtain n1 o1 l1 where e1: "qp_enc n ?data = (n1, o1, l1)" by (metis prod_cases3)
  note l1 = qp_enc_left [OF e1]
  obtain dst1 a1 where b: "qp_encode_bytes n ?data dst a = (n1, l1, dst1, a1)" "buffer_wf dst1" "alloc_wf a1" "contents dst1 = contents dst @ o1"
    using qp_encode_bytes_ok [OF less.prems(1,3) e1] by blast
  obtain rv src1 a2 where d: "gsk_buffer_discard src (p - of_nat (length l1)) a1 = (rv, src1, a2)" "buffer_wf src1" "alloc_wf a2"
    "contents src1 = drop (unat (p - of_nat (length l1))) (contents src)"
    using less.prems(2) b(3) by (rule discard_ok)
  have "unat (of_nat (length l1) :: u32) = length l1" using l1 by auto
  moreover have "length l1 \<le> length ?data" using l1 suffix_length_le by blast
  ultimately have "unat (p - of_nat (length l1)) = length ?data - length l1"
    using p by (simp add: unat_sub_no_wrap)
  then have src1: "contents src1 = l1 @ drop 256 (contents src)" using d(4) l1 drop_suffix_take [of l1 256 "contents src"] by simp
  obtain o2 where e2: "qp_enc n1 (contents src1) = (n', o2, left)" "out = o1 @ o2"
    using qp_enc_append [OF e1, of "drop 256 (contents src)"] less.prems(4) src1 by (auto split: prod.splits)
  consider "p = 0" | "0 < p" "p < 256" | "0 < p" "\<not> p < 256" using word_neq_0_conv [of p] by blast
  then show ?case
  proof cases
    case 1
    then have "contents src = []" using p by (auto simp: min_def split: if_splits)
    then show ?thesis using 1 less.prems pk by (subst qp_encode_loop.simps) simp
  next
    case 2
    then have "length (contents src) < 256" using p by (simp add: word_less_nat_alt)
    then have "l1 = left" "n1 = n'" "o2 = []" using e1 e2 less.prems(4) by auto
    then show ?thesis
      using 2 pk data b d(1-3) src1 e2(2) \<open>length (contents src) < 256\<close> by (subst qp_encode_loop.simps) simp
  next
    case 3
    then have "256 \<le> length (contents src)" using p by (simp add: word_less_nat_alt)
    then have "length (contents src1) < length (contents src)" using src1 l1 by auto
    from less.hyps [OF this b(2) d(2,3) e2(1)] show ?thesis
      using 3 pk data b(1,4) d(1) e2(2) by (subst qp_encode_loop.simps) auto
  qed
qed

interpretation qp_encoder: stream_filter gsk_mime_quoted_printable_encoder_process gsk_mime_quoted_printable_encoder_flush
  "\<lambda>n xs. Some (qp_enc n xs)" qp_enc_end
proof unfold_locales
  fix dst src :: gsk_buffer and a :: allocator and n :: u32
  assume wf: "buffer_wf dst" "buffer_wf src" "alloc_wf a"
  show "\<exists>dst' src' a'. gsk_mime_quoted_printable_encoder_process n dst src a = Some (True, n', dst', src', a') \<and> buffer_wf dst' \<and>
      buffer_wf src' \<and> alloc_wf a' \<and> contents dst' = contents dst @ out \<and> contents src' = left"
    if "Some (qp_enc n (contents src)) = Some (n', out, left)" for n' out left
    using qp_encode_loop_ok [OF wf, of n n' out left] that by (auto simp: gsk_mime_quoted_printable_encoder_process_def)
  show "\<exists>f' dst' src' a'. gsk_mime_quoted_printable_encoder_flush n dst src a = Some (True, f', dst', src', a') \<and>
      contents dst' = contents dst @ out" if h: "qp_enc_end n (contents src) = Some out" for out
  proof -
    have soft: "\<exists>f' dst' src' a'. (if m > 0 then case gsk_buffer_append dst1 [61, 13, 10] 3 a1 of (dst'', a'') \<Rightarrow> Some (True, m, dst'', src1, a'')
        else Some (True, m, dst1, src1, a1)) = Some (True, f', dst', src', a') \<and>
        contents dst' = contents dst1 @ (if m > 0 then [61, 13, 10] else [])"
      if "buffer_wf dst1" "alloc_wf a1" for m :: u32 and dst1 a1 src1
      by (rule append_ok [OF that, of 3 "[61, 13, 10]"]) auto
    consider "contents src = []" | c where "contents src = [c]"
      using h by (auto simp: qp_enc_end_def split: list.splits)
    then show ?thesis
    proof cases
      case 1
      then have "bsize src = 0" using wf(2) by (simp add: buffer_wf_iff)
      then show ?thesis using soft [OF wf(1,3), of n src] h 1 by (simp add: gsk_mime_quoted_printable_encoder_flush_def qp_enc_end_def)
    next
      case (2 c)
      then have sz: "bsize src = 1" using wf(2) by (simp add: buffer_wf_iff)
      obtain src1 a1 where r: "gsk_buffer_read_char src a = Some (uint c, src1, a1)" "alloc_wf a1"
        using wf(2,3) 2 by (rule read_char_Cons)
      obtain dst1 a2 where p: "gsk_buffer_append dst (equals_hex c) 3 a1 = (dst1, a2)" "buffer_wf dst1" "alloc_wf a2"
        "contents dst1 = contents dst @ equals_hex c"
        using append_ok [OF wf(1) r(2), of 3 "equals_hex c" thesis] by (simp add: equals_hex_def)
      have "gsk_buffer_vprintf dst 12 (equals_hex c) 0 0 a1 = (dst1, a2)"
        using p(1) by (simp add: gsk_buffer_vprintf_def gsk_buffer_append_string_def equals_hex_def)
      then show ?thesis
        using soft [OF p(2,3), of "n + 3" src1] h 2 sz r(1) p(4)
        by (simp add: gsk_mime_quoted_printable_encoder_flush_def qp_enc_end_def)
    qed
  qed
qed (auto simp: qp_enc_append split: prod.splits)

section \<open>The quoted-printable decoder\<close>

function qp_dec :: "u8 \<Rightarrow> u8 list \<Rightarrow> bool \<times> u8 list \<times> u8 list" where
  "qp_dec junk xs =
     (let data = take 3 xs;
          buf = data @ replicate (3 - length data) junk;
          ne = length (takeWhile (\<lambda>c. c \<noteq> 61) data)
      in if 0 < ne then (case qp_dec junk (drop ne xs) of (ok, out, left) \<Rightarrow> (ok, take ne buf @ out, left))
         else if length data \<le> 1 then (True, [], xs)
         else if length data = 2 \<and> buf ! 1 = 10 then qp_dec junk (drop 2 xs)
         else if buf ! 1 = 13 \<and> buf ! 2 = 10 then qp_dec junk (drop 3 xs)
         else if buf ! 1 = 10 then qp_dec junk (drop 2 xs)
         else if quoteprintable_char_to_hexval (buf ! 1) = None \<or> quoteprintable_char_to_hexval (buf ! 2) = None then (False, [], xs)
         else
           (case qp_dec junk (drop 3 xs) of (ok, out, left) \<Rightarrow>
              (ok, (push_bit 4 (the (quoteprintable_char_to_hexval (buf ! 1))) OR
                    the (quoteprintable_char_to_hexval (buf ! 2))) # out, left)))"
  by pat_completeness auto
termination
proof (relation "measure (length \<circ> snd)")
  fix junk :: u8 and xs data buf :: "u8 list" and ne :: nat
  assume "data = take 3 xs" "ne = length (takeWhile (\<lambda>c. c \<noteq> 61) data)" "0 < ne"
  then have "xs \<noteq> []" by auto
  then show "((junk, drop ne xs), junk, xs) \<in> measure (length \<circ> snd)" using \<open>0 < ne\<close> by simp
qed auto

declare qp_dec.simps [simp del]

lemma qp_decode_loop_ok:
  "buffer_wf dst \<Longrightarrow> buffer_wf src \<Longrightarrow> alloc_wf a \<Longrightarrow> qp_dec junk (contents src) = (ok, out, left) \<Longrightarrow>
   \<exists>dst' src' a'. qp_decode_loop junk dst src a = Some (ok, dst', src', a') \<and> buffer_wf dst' \<and> buffer_wf src' \<and> alloc_wf a' \<and>
     contents dst' = contents dst @ out \<and> contents src' = left"
proof (induction "length (contents src)" arbitrary: dst src a out rule: less_induct)
  case less
  define data where "data = take 3 (contents src)"
  define buf where "buf = data @ replicate (3 - length data) junk"
  define ne where "ne = length (takeWhile (\<lambda>c. c \<noteq> 61) data)"
  obtain p where pk: "gsk_buffer_peek src 3 = (data, p)" and p: "unat p = length data"
    using gsk_buffer_peek_spec [OF less.prems(2), of 3] by (cases "gsk_buffer_peek src 3") (auto simp: data_def)
  have le: "ne \<le> length data" "length data \<le> 3"
    unfolding ne_def by (rule length_takeWhile_le) (simp add: data_def)
  have une: "unat (of_nat ne :: u32) = ne" using le by (simp add: unat_of_nat_u32)
  have step: "\<exists>dst' src' a'. qp_decode_loop junk dst1 src1 a1 = Some (ok, dst', src', a') \<and> buffer_wf dst' \<and> buffer_wf src' \<and>
      alloc_wf a' \<and> contents dst' = contents dst1 @ o1 \<and> contents src' = left"
    if "buffer_wf dst1" "buffer_wf src1" "alloc_wf a1" "contents src1 = drop k (contents src)" "0 < k" "contents src \<noteq> []"
      "qp_dec junk (drop k (contents src)) = (ok, o1, left)" for dst1 src1 a1 k o1
    using that less.hyps [of src1 dst1 a1 o1] by simp
  note dec = less.prems(4) [unfolded qp_dec.simps [of junk "contents src"] Let_def, folded data_def, folded buf_def ne_def]
  have p1: "p \<le> 1 \<longleftrightarrow> length data \<le> 1" "p = 2 \<longleftrightarrow> length data = 2"
    using p by (simp_all add: word_le_nat_alt word_unat_eq_iff)
  have ne0: "(0 < (of_nat ne :: u32)) = (0 < ne)" using une by (simp add: word_less_nat_alt)
  note loop = qp_decode_loop.simps [of junk dst src a, unfolded pk Let_def prod.case, folded buf_def ne_def, unfolded p1 ne0]
  have d: "\<exists>rv src1 a1. gsk_buffer_discard src k b = (rv, src1, a1) \<and> buffer_wf src1 \<and> alloc_wf a1 \<and> contents src1 = drop (unat k) (contents src)"
    if "alloc_wf b" for k b by (rule discard_ok [OF less.prems(2) that]) blast
  show ?case
  proof (cases "0 < ne")
    case True
    obtain o1 where o: "qp_dec junk (drop ne (contents src)) = (ok, o1, left)" "out = take ne buf @ o1"
      using dec True by (auto split: prod.splits)
    obtain dst1 a1 where w: "gsk_buffer_append dst buf (of_nat ne) a = (dst1, a1)" "buffer_wf dst1" "alloc_wf a1"
      "contents dst1 = contents dst @ take (unat (of_nat ne :: u32)) buf"
      using append_ok [OF less.prems(1,3), of "of_nat ne" buf] une le by (auto simp: buf_def)
    obtain rv src1 a2 where "gsk_buffer_discard src (of_nat ne) a1 = (rv, src1, a2)" "buffer_wf src1" "alloc_wf a2" "contents src1 = drop ne (contents src)"
      using d [OF w(3), of "of_nat ne"] une by auto
    moreover have "contents src \<noteq> []" using True le(1) by (auto simp: data_def)
    ultimately show ?thesis using step [of dst1 src1 a2 ne o1] True o w une by (simp add: loop)
  next
    case False
    show ?thesis
    proof (cases "length data \<le> 1")
      case True
      then show ?thesis using False dec less.prems(1-3) by (simp add: loop)
    next
      case long: False
      then have ne: "contents src \<noteq> []" by (auto simp: data_def)
      let ?h1 = "quoteprintable_char_to_hexval (buf ! 1)" and ?h2 = "quoteprintable_char_to_hexval (buf ! 2)"
      have skip: ?thesis if "qp_dec junk (drop (unat k) (contents src)) = (ok, out, left)" "0 < unat k"
        "qp_decode_loop junk dst src a = (case gsk_buffer_discard src k a of (_, src', a') \<Rightarrow> qp_decode_loop junk dst src' a')" for k
        using d [OF less.prems(3), of k] step [OF less.prems(1) _ _ _ that(2) ne that(1)] that(3) by auto
      consider "length data = 2 \<and> buf ! 1 = 10" | "\<not> (length data = 2 \<and> buf ! 1 = 10)" "buf ! 1 = 13 \<and> buf ! 2 = 10"
        | "\<not> (length data = 2 \<and> buf ! 1 = 10)" "\<not> (buf ! 1 = 13 \<and> buf ! 2 = 10)" "buf ! 1 = 10"
        | "buf ! 1 \<noteq> 10" "\<not> (buf ! 1 = 13 \<and> buf ! 2 = 10)" "?h1 = None \<or> ?h2 = None"
        | "buf ! 1 \<noteq> 10" "\<not> (buf ! 1 = 13 \<and> buf ! 2 = 10)" "\<not> (?h1 = None \<or> ?h2 = None)" by metis
      then show ?thesis
      proof cases
        case 1
        then show ?thesis using False long dec by (intro skip [of 2]) (simp_all add: loop)
      next
        case 2
        then show ?thesis using False long dec by (intro skip [of 3]) (simp_all add: loop)
      next
        case 3
        then show ?thesis using False long dec by (intro skip [of 2]) (simp_all add: loop)
      next
        case 4
        then show ?thesis using False long dec less.prems(1-3) unfolding loop by auto
      next
        case 5
        let ?c = "push_bit 4 (the ?h1) OR the ?h2"
        obtain o1 where o: "qp_dec junk (drop 3 (contents src)) = (ok, o1, left)" "out = ?c # o1"
          using dec 5 False long by (auto split: prod.splits)
        obtain dst1 a1 where w: "gsk_buffer_append_char dst ?c a = (dst1, a1)" "buffer_wf dst1" "alloc_wf a1"
          "contents dst1 = contents dst @ [?c]"
          using less.prems(1,3) by (rule append_char_ok)
        obtain rv src1 a2 where r: "gsk_buffer_discard src 3 a1 = (rv, src1, a2)" "buffer_wf src1" "alloc_wf a2" "contents src1 = drop 3 (contents src)"
          using d [OF w(3), of 3] by auto
        have "qp_decode_loop junk dst src a = qp_decode_loop junk dst1 src1 a2"
          unfolding loop using 5 False long w(1) r(1) by auto
        then show ?thesis using step [of dst1 src1 a2 3 o1] r(2-4) ne o w by simp
      qed
    qed
  qed
qed

lemma qp_dec_short: "qp_dec junk [] = (True, [], [])"
  by (simp add: qp_dec.simps)

lemma qp_dec_literal:
  "c \<noteq> 61 \<Longrightarrow> qp_dec junk (c # r) = (case qp_dec junk r of (ok, out, left) \<Rightarrow> (ok, c # out, left))"
proof (induction "length r" arbitrary: c r rule: less_induct)
  case less
  consider "r = []" | r' where "r = 61 # r'" | d where "r = [d]" "d \<noteq> 61" | d r' where "r = d # 61 # r'" "d \<noteq> 61"
    | d e r' where "r = d # e # r'" "d \<noteq> 61" "e \<noteq> 61" by (metis list.exhaust)
  then show ?case
  proof cases
    case 3
    then show ?thesis using less.prems by (simp add: qp_dec.simps [of _ "[c, d]"] qp_dec.simps [of _ "[d]"] qp_dec_short)
  next
    case 4
    then show ?thesis using less by (simp add: qp_dec.simps [of _ "c # d # 61 # r'"] less.hyps [of "61 # r'" d] numeral_3_eq_3 split: prod.splits)
  next
    case 5
    then show ?thesis
      using less by (simp add: qp_dec.simps [of _ "c # d # e # r'"] less.hyps [of "e # r'" d] less.hyps [of r' e] numeral_3_eq_3 split: prod.splits)
  qed (use less.prems in \<open>simp_all add: qp_dec.simps [of _ "[c]"] qp_dec.simps [of _ "c # 61 # _"] qp_dec_short numeral_3_eq_3 split: prod.splits\<close>)
qed

lemma qp_dec_soft: "qp_dec junk (61 # 13 # 10 # r) = qp_dec junk r"
  by (subst qp_dec.simps) (simp add: numeral_3_eq_3)

lemma upper_hex_value:
  assumes "n < 16"
  shows "quoteprintable_char_to_hexval (upper_hex n) = Some (of_nat n)" "upper_hex n \<noteq> 13" "upper_hex n \<noteq> 10" "upper_hex n \<noteq> 61"
proof -
  have "list_all (\<lambda>n. quoteprintable_char_to_hexval (upper_hex n) = Some (of_nat n) \<and> upper_hex n \<noteq> 13 \<and> upper_hex n \<noteq> 10 \<and>
      upper_hex n \<noteq> 61) [0..<16]"
    by code_simp
  then show "quoteprintable_char_to_hexval (upper_hex n) = Some (of_nat n)" "upper_hex n \<noteq> 13" "upper_hex n \<noteq> 10" "upper_hex n \<noteq> 61"
    using assms by (auto simp: list_all_iff)
qed

lemma nibbles_join: "push_bit 4 (of_nat (unat c div 16)) OR of_nat (unat c mod 16) = (c :: u8)"
proof -
  have "unat c div 16 < 256" by (rule le_less_trans [OF div_le_dividend unat_u8_bound])
  then have "of_nat (unat c div 16) = drop_bit 4 c" "of_nat (unat c mod 16) = take_bit 4 c"
    by (simp_all add: word_unat_eq_iff unat_drop_bit_eq drop_bit_eq_div take_bit_eq_mod unat_mod unat_div unat_of_nat)
  moreover have "push_bit 4 (drop_bit 4 c) OR take_bit 4 c = c"
    by (rule bit_word_eqI) (auto simp: bit_simps plus_minus_split not_less dest: bit_imp_le_length)
  ultimately show ?thesis by simp
qed

lemma qp_dec_hex: "qp_dec junk (equals_hex c @ r) = (case qp_dec junk r of (ok, out, left) \<Rightarrow> (ok, c # out, left))"
proof -
  have "unat c div 16 < 16" "unat c mod 16 < 16" by (simp_all add: div_less_iff_less_mult)
  then show ?thesis
    using upper_hex_value [of "unat c div 16"] upper_hex_value [of "unat c mod 16"] nibbles_join [of c]
    by (subst qp_dec.simps) (simp add: equals_hex_def numeral_3_eq_3)
qed

lemma qp_enc_cases [consumes 1, case_names self cr crlf hex]:
  assumes "qp_enc n0 (c # r) = (n', out, left)"
  obtains out' where "IS_ENCODABLE_AS_ITSELF c" "qp_enc ((if n0 > 68 then 0 else n0) + 1) r = (n', out', left)"
      "out = (if n0 > 68 then [61, 13, 10] else []) @ c # out'"
    | "c = 13" "r = []" "n' = (if n0 > 68 then 0 else n0)" "out = (if n0 > 68 then [61, 13, 10] else [])" "left = [13]"
    | r' out' where "c = 13" "r = 10 # r'" "qp_enc 0 r' = (n', out', left)" "out = (if n0 > 68 then [61, 13, 10] else []) @ 13 # 10 # out'"
    | out' where "qp_enc ((if n0 > 68 then 0 else n0) + 3) r = (n', out', left)"
      "out = (if n0 > 68 then [61, 13, 10] else []) @ equals_hex c @ out'"
proof -
  have hd: "r = 10 # tl r" if "hd r = 10" "r \<noteq> []" using that by (cases r) auto
  consider "IS_ENCODABLE_AS_ITSELF c" | "\<not> IS_ENCODABLE_AS_ITSELF c" "c = 13" "r = []"
    | "\<not> IS_ENCODABLE_AS_ITSELF c" "c = 13" "r \<noteq> []" "hd r = 10"
    | "\<not> IS_ENCODABLE_AS_ITSELF c" "\<not> (c = 13 \<and> r = [])" "\<not> (c = 13 \<and> hd r = 10)" by blast
  then show thesis
  proof cases
    case 1
    then show thesis using assms that(1) by (auto simp: Let_def split: prod.splits)
  next
    case 2
    then show thesis using assms that(2) by (auto simp: Let_def)
  next
    case 3
    then show thesis using assms that(3) [of "tl r"] hd by (auto simp: Let_def split: prod.splits)
  next
    case 4
    then show thesis using assms that(4) by (auto simp: Let_def split: prod.splits)
  qed
qed

lemma qp_dec_soft_maybe: "qp_dec junk ((if b then [61, 13, 10] else []) @ r) = qp_dec junk r"
  by (simp add: qp_dec_soft)

lemma encodable_not_equals: "IS_ENCODABLE_AS_ITSELF c \<Longrightarrow> c \<noteq> 61 \<and> c \<noteq> 13"
  by (auto simp: IS_ENCODABLE_AS_ITSELF_def)

lemma qp_enc_decodes:
  "qp_enc n xs = (n', out, left) \<Longrightarrow> \<exists>ys. xs = ys @ left \<and>
     (\<forall>rest. qp_dec junk (out @ rest) = (case qp_dec junk rest of (ok, o2, l2) \<Rightarrow> (ok, ys @ o2, l2)))"
proof (induction "length xs" arbitrary: n xs out rule: less_induct)
  case less
  show ?case
  proof (cases xs)
    case (Cons c r)
    from less.prems [unfolded Cons] show ?thesis
    proof (cases rule: qp_enc_cases)
      case (self out')
      obtain ys where "r = ys @ left" "\<forall>rest. qp_dec junk (out' @ rest) = (case qp_dec junk rest of (ok, o2, l2) \<Rightarrow> (ok, ys @ o2, l2))"
        using less.hyps [OF _ self(2)] Cons by auto
      then show ?thesis
        using self encodable_not_equals [OF self(1)] Cons
        by (intro exI [of _ "c # ys"]) (simp add: qp_dec_soft_maybe qp_dec_literal split: prod.splits)
    next
      case cr
      then show ?thesis using Cons by (intro exI [of _ "[]"]) (simp add: qp_dec_soft split: prod.splits)
    next
      case (crlf r' out')
      obtain ys where "r' = ys @ left" "\<forall>rest. qp_dec junk (out' @ rest) = (case qp_dec junk rest of (ok, o2, l2) \<Rightarrow> (ok, ys @ o2, l2))"
        using less.hyps [OF _ crlf(3)] Cons crlf by auto
      then show ?thesis
        using crlf Cons by (intro exI [of _ "13 # 10 # ys"]) (simp add: qp_dec_soft_maybe qp_dec_literal split: prod.splits)
    next
      case (hex out')
      obtain ys where "r = ys @ left" "\<forall>rest. qp_dec junk (out' @ rest) = (case qp_dec junk rest of (ok, o2, l2) \<Rightarrow> (ok, ys @ o2, l2))"
        using less.hyps [OF _ hex(1)] Cons by auto
      then show ?thesis
        using hex Cons by (intro exI [of _ "c # ys"]) (simp add: qp_dec_soft_maybe qp_dec_hex split: prod.splits)
    qed
  qed (use less.prems in \<open>auto split: prod.splits\<close>)
qed

text \<open>Lines of at most 76 characters; \<open>k\<close> characters stand on the current line.\<close>

fun lines_fit :: "nat \<Rightarrow> u8 list \<Rightarrow> bool" where
  "lines_fit k [] = (k \<le> 76)"
| "lines_fit k (c # r) = (if c = 13 \<and> r \<noteq> [] \<and> hd r = 10 then k \<le> 76 \<and> lines_fit 0 (tl r) else lines_fit (Suc k) r)"

lemma lines_fit_other: "c \<noteq> 13 \<Longrightarrow> lines_fit k (c # r) = lines_fit (Suc k) r"
  by simp

lemma lines_fit_hex: "lines_fit k (equals_hex c @ r) = lines_fit (k + 3) r"
proof -
  have "unat c div 16 < 16" "unat c mod 16 < 16" by (simp_all add: div_less_iff_less_mult)
  then show ?thesis using upper_hex_value(2) by (simp add: equals_hex_def numeral_3_eq_3)
qed

lemma qp_enc_lines:
  "qp_enc n xs = (n', out, left) \<Longrightarrow> unat n \<le> 71 \<Longrightarrow>
   unat n' \<le> 71 \<and> lines_fit (unat n) (out @ rest) = lines_fit (unat n') rest"
proof (induction "length xs" arbitrary: n xs out rule: less_induct)
  case less
  let ?n = "if n > 68 then 0 else n" and ?soft = "if n > 68 then [61, 13, 10] else [] :: u8 list"
  have n: "unat ?n \<le> 68" by (simp add: word_less_nat_alt not_less)
  have soft: "lines_fit (unat n) (?soft @ r) = lines_fit (unat ?n) r" for r using less.prems(2) by simp
  have un: "unat (?n + 1) = unat ?n + 1" "unat (?n + 3) = unat ?n + 3"
    using n by (simp_all add: unat_add_no_wrap)
  show ?case
  proof (cases xs)
    case (Cons c r)
    from less.prems(1) [unfolded Cons] show ?thesis
    proof (cases rule: qp_enc_cases)
      case (self out')
      then show ?thesis
        using less.hyps [OF _ self(2)] Cons un(1) n soft encodable_not_equals [OF self(1)] by (simp add: lines_fit_other)
    next
      case cr
      then show ?thesis using n soft [of rest] by simp
    next
      case (crlf r' out')
      then show ?thesis using less.hyps [OF _ crlf(3)] Cons soft n by simp
    next
      case (hex out')
      then show ?thesis using less.hyps [OF _ hex(1)] Cons un(2) n soft by (simp add: lines_fit_hex)
    qed
  qed (use less.prems in auto)
qed

subsection \<open>Sessions of the decoder\<close>

abbreviation qp_decoder_session :: "u8 \<Rightarrow> filter_op list \<Rightarrow> allocator \<Rightarrow> (bool \<times> u8 list) option" where
  "qp_decoder_session junk \<equiv>
     filter_session (gsk_mime_quoted_printable_decoder_process junk) (Some gsk_mime_quoted_printable_decoder_flush) ()"

lemma qp_call_process:
  assumes "filter_wf flt a" "qp_dec junk (contents (write_buffer flt)) = (ok, out, left)"
  obtains flt' a' where "call_method (gsk_mime_quoted_printable_decoder_process junk) flt a = Some (ok, flt', a')"
    "filter_wf flt' a'" "contents (read_buffer flt') = contents (read_buffer flt) @ out" "contents (write_buffer flt') = left"
proof -
  obtain dst src a' where "qp_decode_loop junk (read_buffer flt) (write_buffer flt) a = Some (ok, dst, src, a')" "buffer_wf dst"
    "buffer_wf src" "alloc_wf a'" "contents dst = contents (read_buffer flt) @ out" "contents src = left"
    using qp_decode_loop_ok [of "read_buffer flt" "write_buffer flt" a junk ok out left] assms by (auto simp: filter_wf_def)
  then show thesis
    using that by (simp add: call_method_def gsk_mime_quoted_printable_decoder_process_def filter_wf_def)
qed

lemma qp_write_bytes:
  assumes "filter_wf flt a" "length d < 2 ^ 32" "qp_dec junk (contents (write_buffer flt) @ d) = (ok, out, left)"
  obtains rv flt' a' where
    "gsk_simple_filter_raw_write (gsk_mime_quoted_printable_decoder_process junk) w d (of_nat (length d)) flt a = Some (rv, ok, flt', a')"
    "filter_wf flt' a'" "contents (read_buffer flt') = contents (read_buffer flt) @ out" "contents (write_buffer flt') = left"
proof -
  have wf: "buffer_wf (write_buffer flt)" "alloc_wf a" and len: "unat (of_nat (length d) :: u32) = length d"
    using assms(1,2) by (simp_all add: filter_wf_def unat_of_nat_u32)
  obtain b a1 where app: "gsk_buffer_append (write_buffer flt) d (of_nat (length d)) a = (b, a1)" "buffer_wf b" "alloc_wf a1"
    "contents b = contents (write_buffer flt) @ take (unat (of_nat (length d) :: u32)) d"
    using append_ok [OF wf, of "of_nat (length d)" d] len by auto
  have "filter_wf (flt\<lparr>write_buffer := b\<rparr>) a1" using assms(1) app by (simp add: filter_wf_def)
  then obtain flt' a' where "call_method (gsk_mime_quoted_printable_decoder_process junk) (flt\<lparr>write_buffer := b\<rparr>) a1 = Some (ok, flt', a')"
    "filter_wf flt' a'" "contents (read_buffer flt') = contents (read_buffer flt) @ out" "contents (write_buffer flt') = left"
    using qp_call_process [of "flt\<lparr>write_buffer := b\<rparr>" a1 junk ok out left] assms(3) app(4) len by auto
  then show thesis using that app(1) by (cases ok) (simp_all add: gsk_simple_filter_raw_write_def process_data_def)
qed

lemma qp_write_buffer:
  assumes "filter_wf flt a" "buffer_wf b" "qp_dec junk (contents (write_buffer flt) @ contents b) = (ok, out, left)"
  obtains rv b' flt' a' where
    "gsk_simple_filter_raw_write_buffer (gsk_mime_quoted_printable_decoder_process junk) w b flt a = Some (rv, ok, b', flt', a')"
    "filter_wf flt' a'" "contents (read_buffer flt') = contents (read_buffer flt) @ out" "contents (write_buffer flt') = left"
proof -
  obtain rv c b' where drain: "gsk_buffer_drain (write_buffer flt) b = (rv, c, b')" by (metis prod_cases3)
  have c: "buffer_wf c" "contents c = contents (write_buffer flt) @ contents b"
    using gsk_buffer_drain_spec [OF drain] assms(1,2) by (simp_all add: filter_wf_def)
  have "filter_wf (flt\<lparr>write_buffer := c\<rparr>) a" using assms(1) c by (simp add: filter_wf_def)
  then obtain flt' a' where "call_method (gsk_mime_quoted_printable_decoder_process junk) (flt\<lparr>write_buffer := c\<rparr>) a = Some (ok, flt', a')"
    "filter_wf flt' a'" "contents (read_buffer flt') = contents (read_buffer flt) @ out" "contents (write_buffer flt') = left"
    using qp_call_process [of "flt\<lparr>write_buffer := c\<rparr>" a junk ok out left] assms(3) c(2) by auto
  then show thesis using that drain by (cases ok) (simp_all add: gsk_simple_filter_raw_write_buffer_def process_data_def)
qed

lemma qp_close:
  assumes "filter_wf flt a" "contents (write_buffer flt) = []"
  obtains flt' a' where
    "gsk_simple_filter_shutdown_write process (Some gsk_mime_quoted_printable_decoder_flush) w flt a = Some (True, flt', a')"
    "contents (read_buffer flt') = contents (read_buffer flt)"
proof -
  have "bsize (write_buffer flt) = 0" using assms by (simp add: filter_wf_def buffer_wf_iff)
  then show thesis
    using that by (simp add: gsk_simple_filter_shutdown_write_def shutdown_process_def shutdown_flush_def call_method_def
        gsk_mime_quoted_printable_decoder_flush_def Let_def)
qed

lemma qp_decoder_one_buffer:
  assumes "buffer_wf b" "alloc_wf a" "qp_dec junk (contents b) = (True, out, [])"
  shows "qp_decoder_session junk [Write_Buffer b] a = Some (True, out)"
proof -
  obtain rv b' flt a1 where w: "gsk_simple_filter_raw_write_buffer (gsk_mime_quoted_printable_decoder_process junk) True b
      (gsk_simple_filter_init ()) a = Some (rv, True, b', flt, a1)" "filter_wf flt a1" "contents (read_buffer flt) = out"
    "contents (write_buffer flt) = []"
    using qp_write_buffer [of "gsk_simple_filter_init ()" a b junk True out "[]" True thesis] assms by simp
  obtain flt' a2 where "gsk_simple_filter_shutdown_write (gsk_mime_quoted_printable_decoder_process junk)
      (Some gsk_mime_quoted_printable_decoder_flush) False flt a1 = Some (True, flt', a2)" "contents (read_buffer flt') = contents (read_buffer flt)"
    using w(2,4) by (rule qp_close)
  then show ?thesis using w by (simp add: filter_session_def)
qed

lemma qp_decoder_one_write:
  assumes "alloc_wf a" "length d < 2 ^ 32" "qp_dec junk d = (True, out, [])"
  shows "qp_decoder_session junk [Write_Bytes d] a = Some (True, out)"
proof -
  obtain rv flt a1 where w: "gsk_simple_filter_raw_write (gsk_mime_quoted_printable_decoder_process junk) True d (of_nat (length d))
      (gsk_simple_filter_init ()) a = Some (rv, True, flt, a1)" "filter_wf flt a1" "contents (read_buffer flt) = out"
    "contents (write_buffer flt) = []"
    using qp_write_bytes [of "gsk_simple_filter_init ()" a d junk True out "[]" True thesis] assms by simp
  obtain flt' a2 where "gsk_simple_filter_shutdown_write (gsk_mime_quoted_printable_decoder_process junk)
      (Some gsk_mime_quoted_printable_decoder_flush) False flt a1 = Some (True, flt', a2)" "contents (read_buffer flt') = contents (read_buffer flt)"
    using w(2,4) by (rule qp_close)
  then show ?thesis using w by (simp add: filter_session_def)
qed

lemma qp_decoder_first_write_fails:
  assumes "alloc_wf a" "length d < 2 ^ 32" "qp_dec junk d = (False, out, left)"
  shows "qp_decoder_session junk (Write_Bytes d # ops) a \<noteq> Some (True, res)"
proof -
  obtain rv flt a1 where "gsk_simple_filter_raw_write (gsk_mime_quoted_printable_decoder_process junk) True d (of_nat (length d))
      (gsk_simple_filter_init ()) a = Some (rv, False, flt, a1)"
    using qp_write_bytes [of "gsk_simple_filter_init ()" a d junk False out left True thesis] assms by simp
  then show ?thesis by (auto simp: filter_session_def split: option.splits)
qed

lemma qp_decoder_two_writes:
  assumes "alloc_wf a" "length d < 2 ^ 32" "qp_dec junk d = (True, out, [])" "length d' < 2 ^ 32" "qp_dec junk d' = (True, out', [])"
  shows "qp_decoder_session junk [Write_Bytes d, Write_Bytes d'] a = Some (True, out @ out')"
proof -
  obtain rv flt a1 where w: "gsk_simple_filter_raw_write (gsk_mime_quoted_printable_decoder_process junk) True d (of_nat (length d))
      (gsk_simple_filter_init ()) a = Some (rv, True, flt, a1)" "filter_wf flt a1" "contents (read_buffer flt) = out"
    "contents (write_buffer flt) = []"
    using qp_write_bytes [of "gsk_simple_filter_init ()" a d junk True out "[]" True thesis] assms by simp
  obtain rv' flt1 a2 where w': "gsk_simple_filter_raw_write (gsk_mime_quoted_printable_decoder_process junk) True d' (of_nat (length d'))
      flt a1 = Some (rv', True, flt1, a2)" "filter_wf flt1 a2" "contents (read_buffer flt1) = out @ out'" "contents (write_buffer flt1) = []"
    using qp_write_bytes [of flt a1 d' junk True out' "[]" True thesis] assms w by simp
  obtain flt' a3 where "gsk_simple_filter_shutdown_write (gsk_mime_quoted_printable_decoder_process junk)
      (Some gsk_mime_quoted_printable_decoder_flush) False flt1 a2 = Some (True, flt', a3)" "contents (read_buffer flt') = contents (read_buffer flt1)"
    using w'(2,4) by (rule qp_close)
  then show ?thesis using w w' by (simp add: filter_session_def)
qed

section \<open>Properties of the quoted-printable filters\<close>

text \<open>C12: The quoted-printable filters round-trip.  Data written to an encoder in any pieces gives
  a text with lines of at most 76 characters; written to a decoder at once, the text gives the
  data back, whatever the uninitialised memory of the decoder holds.\<close>

theorem quoted_printable_roundtrip:
  assumes "alloc_wf a" "writes_ok ops"
  shows "\<exists>qp.
    filter_session gsk_mime_quoted_printable_encoder_process (Some gsk_mime_quoted_printable_encoder_flush) 0 ops a = Some (True, qp) \<and>
    lines_fit 0 qp \<and>
    (\<forall>junk b a'. buffer_wf b \<and> alloc_wf a' \<and> contents b = qp \<longrightarrow>
       qp_decoder_session junk [Write_Buffer b] a' = Some (True, written ops))"
proof -
  obtain n out left where e: "qp_enc 0 (written ops) = (n, out, left)" by (metis prod_cases3)
  note l = qp_enc_left [OF e] and ln = qp_enc_lines [OF e]
  obtain tail where t: "qp_enc_end n left = Some tail" "lines_fit (unat n) tail" "\<And>junk. qp_dec junk tail = (True, left, [])"
  proof (cases left)
    case Nil
    then show thesis
      using that [of "if n > 0 then [61, 13, 10] else []"] ln [of "[]"] by (simp add: qp_enc_end_def qp_dec_soft qp_dec_short)
  next
    case (Cons c r)
    then have c: "left = [13]" "n \<le> 68" using l by auto
    then have "unat (n + 3) = unat n + 3" "unat n \<le> 68" by (simp_all add: word_le_nat_alt unat_add_no_wrap)
    then have "n + 3 > 0" by (simp add: word_less_nat_alt)
    then show thesis
      using that [of "equals_hex 13 @ [61, 13, 10]"] c(1) \<open>unat n \<le> 68\<close>
      by (simp add: qp_enc_end_def qp_dec_soft qp_dec_short qp_dec_hex lines_fit_hex)
  qed
  have "lines_fit 0 (out @ tail)" using ln [of tail] t(2) by simp
  moreover have "qp_dec junk (out @ tail) = (True, written ops, [])" for junk
    using qp_enc_decodes [OF e, of junk] t(3) by auto
  ultimately show ?thesis
    using qp_encoder.session_ok [OF assms, of 0 n out left tail] e t(1) qp_decoder_one_buffer by (intro exI [of _ "out @ tail"]) auto
qed

text \<open>C13: The quoted-printable decoder depends on how its input is divided.  An escaped byte that is
  written at once is decoded; when the write ends between its two digits, the code reads the
  uninitialised third byte of its array, and for every value that is there the decoding fails
  or gives something else.\<close>

theorem quoted_printable_split_escape:
  assumes "alloc_wf a"
  shows "qp_decoder_session junk [Write_Bytes (equals_hex c)] a = Some (True, [c]) \<and>
    qp_decoder_session junk [Write_Bytes (take 2 (equals_hex c)), Write_Bytes (drop 2 (equals_hex c))] a \<noteq> Some (True, [c])"
proof -
  let ?h1 = "upper_hex (unat c div 16)" and ?h2 = "upper_hex (unat c mod 16)"
  have "unat c div 16 < 16" "unat c mod 16 < 16" by (simp_all add: div_less_iff_less_mult)
  note h1 = upper_hex_value [OF this(1)] and h2 = upper_hex_value [OF this(2)]
  have parts: "take 2 (equals_hex c) = [61, ?h1]" "drop 2 (equals_hex c) = [?h2]" by (simp_all add: equals_hex_def)
  have one: "qp_decoder_session junk [Write_Bytes (equals_hex c)] a = Some (True, [c])"
    using qp_decoder_one_write [OF assms, of "equals_hex c" junk] qp_dec_hex [of junk c "[]"] by (simp add: qp_dec_short equals_hex_def)
  have last: "qp_dec junk [?h2] = (True, [?h2], [])" using qp_dec_literal [of ?h2 junk "[]"] h2(4) by (simp add: qp_dec_short)
  have "qp_decoder_session junk [Write_Bytes [61, ?h1], Write_Bytes [?h2]] a \<noteq> Some (True, [c])"
  proof (cases "quoteprintable_char_to_hexval junk")
    case None
    then have "qp_dec junk [61, ?h1] = (False, [], [61, ?h1])" using h1 by (subst qp_dec.simps) (simp add: numeral_3_eq_3)
    then show ?thesis using qp_decoder_first_write_fails [OF assms, of "[61, ?h1]"] by simp
  next
    case (Some v)
    then obtain x where "qp_dec junk [61, ?h1] = (True, [x], [])" using h1 by (subst (asm) qp_dec.simps) (simp add: numeral_3_eq_3 qp_dec_short)
    then show ?thesis using qp_decoder_two_writes [OF assms, of "[61, ?h1]" junk _ "[?h2]"] last by simp
  qed
  then show ?thesis unfolding parts using one by blast
qed

theorem quoted_printable_split_escape_witness:
  "qp_decoder_session 0 [Write_Bytes (equals_hex 65)] blank_allocator = Some (True, [65]) \<and>
   qp_decoder_session 49 [Write_Bytes (take 2 (equals_hex 65)), Write_Bytes (drop 2 (equals_hex 65))] blank_allocator \<noteq> Some (True, [65])"
  using quoted_printable_split_escape [of blank_allocator 0 65] quoted_printable_split_escape [of blank_allocator 49 65] by simp

theorem quoted_printable_roundtrip_witness:
  "\<exists>qp. filter_session gsk_mime_quoted_printable_encoder_process (Some gsk_mime_quoted_printable_encoder_flush) 0
      [Write_Bytes [61, 13], Read_Bytes 2, Write_Bytes [10, 7]] blank_allocator = Some (True, qp) \<and> lines_fit 0 qp"
  using quoted_printable_roundtrip [of blank_allocator "[Write_Bytes [61, 13], Read_Bytes 2, Write_Bytes [10, 7]]"] by auto

end
