(* ===== verification/Gsk_Hash.thy ===== *)
theory Gsk_Hash
  imports Gsk_Escape
begin

text \<open>
  The hash objects of \<^verbatim>\<open>src/src/hash/gskhash.c\<close>: the interface that all hash functions share, with the
  methods of the object as arguments, and the contract its comments promise, the locale
  \<open>incremental_hash\<close>: feeding data in pieces has the effect of feeding it at once.  The second
  half holds what the block-wise hash functions share: 64-byte blocks absorbed one after the
  other, and the tail that waits for more data.
\<close>

section \<open>The interface\<close>

record 's gsk_hash =
  hash_size :: nat
  hash_flags :: u32
  hash_value :: "u8 list option"
  hash_context :: 's

text \<open>None is an endless loop of the method or a failed assertion; a failed precondition
  (\<open>g_return_if_fail\<close>) leaves the object unchanged.\<close>

definition gsk_hash_feed :: "('s \<Rightarrow> u8 list \<Rightarrow> 's option) \<Rightarrow> 's gsk_hash \<Rightarrow> u8 list \<Rightarrow> 's gsk_hash option" where
  "gsk_hash_feed feed h data = map_option (\<lambda>s. h\<lparr>hash_context := s\<rparr>) (feed (hash_context h) data)"

text \<open>The string is read up to its terminating zero; None also for a string without one.\<close>

definition gsk_hash_feed_str :: "('s \<Rightarrow> u8 list \<Rightarrow> 's option) \<Rightarrow> 's gsk_hash \<Rightarrow> u8 list \<Rightarrow> 's gsk_hash option" where
  "gsk_hash_feed_str feed h str =
     (if 0 \<in> set str then gsk_hash_feed feed h (takeWhile (\<lambda>c. c \<noteq> 0) str) else None)"

definition gsk_hash_done :: "('s \<Rightarrow> ('s \<times> u8 list) option) \<Rightarrow> 's gsk_hash \<Rightarrow> 's gsk_hash option" where
  "gsk_hash_done finish h =
     (if hash_flags h AND 1 \<noteq> 0 then Some h
      else
        (case finish (hash_context h) of
           None \<Rightarrow> None
         | Some (s, value) \<Rightarrow> Some (h\<lparr>hash_context := s, hash_value := Some value, hash_flags := 1\<rparr>)))"

definition gsk_hash_get_size :: "'s gsk_hash \<Rightarrow> nat" where
  "gsk_hash_get_size h = hash_size h"

text \<open>The bytes written to the caller's buffer; None for a failed precondition.\<close>

definition gsk_hash_get :: "'s gsk_hash \<Rightarrow> u8 list option" where
  "gsk_hash_get h =
     (if hash_flags h AND 1 \<noteq> 1 then None else map_option (take (hash_size h)) (hash_value h))"

definition hex_digits :: "u8 list" where
  "hex_digits = [48, 49, 50, 51, 52, 53, 54, 55, 56, 57, 97, 98, 99, 100, 101, 102]"

definition gsk_hash_get_hex :: "'s gsk_hash \<Rightarrow> u8 list option" where
  "gsk_hash_get_hex h =
     (if hash_flags h AND 1 \<noteq> 1 then None
      else
        map_option (\<lambda>v. concat (map (\<lambda>b. [hex_digits ! unat (drop_bit 4 b), hex_digits ! unat (b AND 15)])
          (take (hash_size h) v)) @ [0]) (hash_value h))"

text \<open>The calls of a client: binary data or a C string is fed, any number of times, and the object
  is finished.\<close>

datatype piece = Data "u8 list" | Str "u8 list"

fun piece_bytes :: "piece \<Rightarrow> u8 list" where
  "piece_bytes (Data d) = d"
| "piece_bytes (Str s) = s"

fun piece_ok :: "nat \<Rightarrow> piece \<Rightarrow> bool" where
  "piece_ok limit (Data d) \<longleftrightarrow> length d < limit"
| "piece_ok limit (Str s) \<longleftrightarrow> length s < limit \<and> 0 \<notin> set s"

fun feed_piece :: "('s \<Rightarrow> u8 list \<Rightarrow> 's option) \<Rightarrow> 's gsk_hash \<Rightarrow> piece \<Rightarrow> 's gsk_hash option" where
  "feed_piece feed h (Data d) = gsk_hash_feed feed h d"
| "feed_piece feed h (Str s) = gsk_hash_feed_str feed h (s @ [0])"

fun feed_pieces :: "('s \<Rightarrow> u8 list \<Rightarrow> 's option) \<Rightarrow> 's gsk_hash \<Rightarrow> piece list \<Rightarrow> 's gsk_hash option" where
  "feed_pieces feed h [] = Some h"
| "feed_pieces feed h (p # ps) =
     (case feed_piece feed h p of None \<Rightarrow> None | Some h' \<Rightarrow> feed_pieces feed h' ps)"

definition hash_pieces ::
  "('s \<Rightarrow> u8 list \<Rightarrow> 's option) \<Rightarrow> ('s \<Rightarrow> ('s \<times> u8 list) option) \<Rightarrow> 's gsk_hash \<Rightarrow> piece list \<Rightarrow> 's gsk_hash option" where
  "hash_pieces feed finish h ps = Option.bind (feed_pieces feed h ps) (gsk_hash_done finish)"

lemma feed_piece_data:
  "piece_ok limit p \<Longrightarrow> feed_piece feed h p = gsk_hash_feed feed h (piece_bytes p) \<and> length (piece_bytes p) < limit"
proof (cases p)
  case (Str s)
  moreover assume "piece_ok limit p"
  moreover from calculation have "takeWhile (\<lambda>c. c \<noteq> 0) (s @ [0]) = s" by (subst takeWhile_append2) auto
  ultimately show ?thesis by (simp add: gsk_hash_feed_str_def)
qed simp

lemma hash_hex_dump:
  "hash_flags h AND 1 = 1 \<Longrightarrow> hash_value h = Some v \<Longrightarrow>
   gsk_hash_get_hex h = Some (gsk_escape_memory_hex (take (hash_size h) v) @ [0])"
  by (simp add: gsk_hash_get_hex_def gsk_escape_memory_hex_def hex_digits_def value_to_hex_def)

section \<open>The contract\<close>

text \<open>\<open>rep s msg\<close>: the context is one that \<open>msg\<close> has been fed to.  Pieces are shorter than
  \<open>limit\<close>.\<close>

locale incremental_hash =
  fixes feed :: "'s \<Rightarrow> u8 list \<Rightarrow> 's option"
    and finish :: "'s \<Rightarrow> ('s \<times> u8 list) option"
    and new :: "'s gsk_hash"
    and rep :: "'s \<Rightarrow> u8 list \<Rightarrow> bool"
    and limit :: nat
    and spec :: "u8 list \<Rightarrow> u8 list"
  assumes new_ok: "rep (hash_context new) []" "hash_flags new = 0"
    and feed_ok: "rep s xs \<Longrightarrow> length ys < limit \<Longrightarrow> \<exists>s'. feed s ys = Some s' \<and> rep s' (xs @ ys)"
    and finish_ok: "rep s xs \<Longrightarrow> \<exists>s'. finish s = Some (s', spec xs)"
    and spec_size: "length (spec xs) = hash_size new"
begin

lemma feed_pieces_ok:
  "rep (hash_context h) xs \<Longrightarrow> list_all (piece_ok limit) ps \<Longrightarrow>
   \<exists>h'. feed_pieces feed h ps = Some h' \<and> rep (hash_context h') (xs @ concat (map piece_bytes ps)) \<and>
     hash_flags h' = hash_flags h \<and> hash_size h' = hash_size h"
proof (induction ps arbitrary: h xs)
  case (Cons p ps)
  then have p: "feed_piece feed h p = gsk_hash_feed feed h (piece_bytes p)" "length (piece_bytes p) < limit"
    using feed_piece_data [of limit p feed h] by simp_all
  obtain s where "feed (hash_context h) (piece_bytes p) = Some s" "rep s (xs @ piece_bytes p)"
    using feed_ok [OF Cons.prems(1) p(2)] by auto
  then show ?case
    using Cons.IH [of "h\<lparr>hash_context := s\<rparr>" "xs @ piece_bytes p"] Cons.prems(2) p(1) by (simp add: gsk_hash_feed_def)
qed simp

lemma hash_pieces_ok:
  assumes "list_all (piece_ok limit) ps"
  defines "d \<equiv> spec (concat (map piece_bytes ps))"
  shows "\<exists>h. hash_pieces feed finish new ps = Some h \<and> gsk_hash_get h = Some d \<and>
    gsk_hash_get_hex h = Some (gsk_escape_memory_hex d @ [0]) \<and> gsk_hash_get_size h = length d \<and> gsk_hash_done finish h = Some h"
proof -
  obtain h where h: "feed_pieces feed new ps = Some h" "rep (hash_context h) (concat (map piece_bytes ps))" "hash_flags h = 0"
    "hash_size h = hash_size new"
    using feed_pieces_ok [OF new_ok(1) assms(1)] new_ok(2) by auto
  obtain s where "finish (hash_context h) = Some (s, d)" using finish_ok [OF h(2)] by (auto simp: d_def)
  then have "hash_pieces feed finish new ps = Some (h\<lparr>hash_context := s, hash_value := Some d, hash_flags := 1\<rparr>)"
    using h by (simp add: hash_pieces_def gsk_hash_done_def)
  moreover have "length d = hash_size new" by (simp add: d_def spec_size)
  ultimately show ?thesis
    using h(4) by (simp add: gsk_hash_get_def gsk_hash_get_size_def gsk_hash_done_def hash_hex_dump)
qed

end

section \<open>Blocks\<close>

function absorb :: "('st \<Rightarrow> u8 list \<Rightarrow> 'st) \<Rightarrow> 'st \<Rightarrow> u8 list \<Rightarrow> 'st" where
  "absorb f st xs = (if length xs < 64 then st else absorb f (f st (take 64 xs)) (drop 64 xs))"
  by pat_completeness auto
termination by (relation "measure (\<lambda>(f, st, xs). length xs)") auto

function tail_of :: "u8 list \<Rightarrow> u8 list" where
  "tail_of xs = (if length xs < 64 then xs else tail_of (drop 64 xs))"
  by pat_completeness auto
termination by (relation "measure length") auto

declare absorb.simps [simp del] tail_of.simps [simp del]

lemma absorb_short [simp]: "length xs < 64 \<Longrightarrow> absorb f st xs = st"
  by (simp add: absorb.simps)

lemma tail_short [simp]: "length xs < 64 \<Longrightarrow> tail_of xs = xs"
  by (simp add: tail_of.simps)

lemma absorb_block [simp]: "length b = 64 \<Longrightarrow> absorb f st (b @ xs) = absorb f (f st b) xs"
  by (subst absorb.simps) simp

lemma tail_block [simp]: "length b = 64 \<Longrightarrow> tail_of (b @ xs) = tail_of xs"
  by (subst tail_of.simps) simp

lemma length_tail: "length (tail_of xs) = length xs mod 64"
proof (induction xs rule: tail_of.induct)
  case (1 xs)
  show ?case
  proof (cases "length xs < 64")
    case False
    then have "(length xs - 64) mod 64 = length xs mod 64" by (simp add: le_mod_geq)
    then show ?thesis using 1 False by (subst tail_of.simps) simp
  qed simp
qed

lemma length_tail_less [simp]: "length (tail_of xs) < 64"
  by (simp add: length_tail)

lemma absorb_append: "absorb f st (xs @ ys) = absorb f (absorb f st xs) (tail_of xs @ ys)"
proof (induction f st xs rule: absorb.induct)
  case (1 f st xs)
  show ?case
  proof (cases "length xs < 64")
    case False
    then have "absorb f st (xs @ ys) = absorb f (f st (take 64 xs)) (drop 64 xs @ ys)" by (subst absorb.simps) simp
    moreover have "absorb f st xs = absorb f (f st (take 64 xs)) (drop 64 xs)" "tail_of xs = tail_of (drop 64 xs)"
      using False by (simp_all add: absorb.simps [of f st xs] tail_of.simps [of xs])
    ultimately show ?thesis using 1 False by simp
  qed simp
qed

lemma tail_append: "tail_of (xs @ ys) = tail_of (tail_of xs @ ys)"
proof (induction xs rule: tail_of.induct)
  case (1 xs)
  show ?case
  proof (cases "length xs < 64")
    case False
    then show ?thesis using 1 by (simp add: tail_of.simps [of xs] tail_of.simps [of "xs @ ys"])
  qed simp
qed

text \<open>The number of zero bytes between the byte \<open>0x80\<close> and the length of the message.\<close>

definition zero_pad :: "nat \<Rightarrow> nat" where
  "zero_pad n = (119 - n mod 64) mod 64"

lemma zero_pad_short: "r < 56 \<Longrightarrow> zero_pad r = 55 - r"
  by (simp add: zero_pad_def mod_if)

lemma zero_pad_long: "56 \<le> r \<Longrightarrow> r < 64 \<Longrightarrow> zero_pad r = 119 - r"
  by (simp add: zero_pad_def)

lemma zero_pad_tail: "zero_pad (length xs) = zero_pad (length (tail_of xs))"
  by (simp add: zero_pad_def length_tail)

text \<open>Padding ends with one block when the tail leaves room for the length, with two otherwise.\<close>

lemma absorb_pad_short:
  assumes "length t < 56" "length l = 8"
  shows "absorb f st (t @ 128 # replicate (zero_pad (length t)) 0 @ l) = f st (t @ 128 # replicate (55 - length t) 0 @ l)"
  using assms absorb_block [of "t @ 128 # replicate (55 - length t) 0 @ l" f st "[]"] by (simp add: zero_pad_short)

lemma absorb_pad_long:
  assumes "56 \<le> length t" "length t < 64" "length l = 8"
  shows "absorb f st (t @ 128 # replicate (zero_pad (length t)) 0 @ l) =
    f (f st (t @ 128 # replicate (63 - length t) 0)) (replicate 56 0 @ l)"
proof -
  let ?b = "t @ 128 # replicate (63 - length t) 0"
  have "119 - length t = (63 - length t) + 56" using assms by simp
  then have "replicate (119 - length t) (0 :: u8) = replicate (63 - length t) 0 @ replicate 56 0" by (simp only: replicate_add)
  then have "t @ 128 # replicate (zero_pad (length t)) 0 @ l = ?b @ (replicate 56 0 @ l)"
    using assms by (simp add: zero_pad_long)
  moreover have "length ?b = 64" using assms by simp
  moreover have "absorb f (f st ?b) (replicate 56 0 @ l) = f (f st ?b) (replicate 56 0 @ l)"
    using absorb_block [of "replicate 56 0 @ l" f "f st ?b" "[]"] assms by simp
  ultimately show ?thesis by (simp only: absorb_block)
qed

text \<open>A copy into a byte array at an offset; the callers stay inside the array.\<close>

definition bcopy :: "u8 list \<Rightarrow> u8 list \<Rightarrow> nat \<Rightarrow> u8 list" where
  "bcopy bs arr off = take off arr @ bs @ drop (off + length bs) arr"

lemma length_bcopy [simp]: "off + length bs \<le> length arr \<Longrightarrow> length (bcopy bs arr off) = length arr"
  by (simp add: bcopy_def)

lemma take_bcopy: "off + length bs \<le> length arr \<Longrightarrow> take (off + length bs) (bcopy bs arr off) = take off arr @ bs"
  by (simp add: bcopy_def)

section \<open>Bytes of words\<close>

definition le32 :: "u8 list \<Rightarrow> u32" where
  "le32 b = ucast (b ! 0) OR push_bit 8 (ucast (b ! 1)) OR push_bit 16 (ucast (b ! 2)) OR push_bit 24 (ucast (b ! 3))"

definition bytes_le32 :: "u32 \<Rightarrow> u8 list" where
  "bytes_le32 w = [ucast w, ucast (drop_bit 8 w), ucast (drop_bit 16 w), ucast (drop_bit 24 w)]"

definition bytes_le64 :: "u64 \<Rightarrow> u8 list" where
  "bytes_le64 w = map (\<lambda>k. ucast (drop_bit (8 * k) w)) [0, 1, 2, 3, 4, 5, 6, 7]"

lemma length_word_bytes [simp]: "length (bytes_le32 w) = 4" "length (bytes_le64 v) = 8"
  by (simp_all add: bytes_le32_def bytes_le64_def)

text \<open>The sixteen words of a block.\<close>

definition words_le :: "u8 list \<Rightarrow> u32 list" where
  "words_le b = map (\<lambda>k. le32 (take 4 (drop (4 * k) b))) [0..<16]"

lemma length_words [simp]: "length (words_le b) = 16"
  by (simp add: words_le_def)

text \<open>Rotation to the left by \<open>s\<close> bits, \<open>0 < s < 32\<close>.\<close>

definition rotl32 :: "nat \<Rightarrow> u32 \<Rightarrow> u32" where
  "rotl32 s x = push_bit s x OR drop_bit (32 - s) x"

end
