(* ===== verification/Gsk_Md5.thy ===== *)
theory Gsk_Md5
  imports Gsk_Hash "HOL-Library.Monad_Syntax"
begin

text \<open>
  MD5, \<^verbatim>\<open>src/src/hash/gskhash.c\<close>: the context with its 64-byte buffer and its count of bits, the
  compression function in 64 unrolled steps, padding and result.  The lemmas show that the
  unrolled code computes the steps of RFC 1321, and that a message fed in pieces has the digest of
  the padded message.
\<close>

section \<open>The compression function\<close>

definition SHIFT :: "u32 \<Rightarrow> nat \<Rightarrow> u32" where
  "SHIFT x s = push_bit s x OR drop_bit (32 - s) x"

definition md5_F :: "u32 \<Rightarrow> u32 \<Rightarrow> u32 \<Rightarrow> u32" where
  "md5_F x y z = (x AND y) OR (NOT x AND z)"

definition md5_G :: "u32 \<Rightarrow> u32 \<Rightarrow> u32 \<Rightarrow> u32" where
  "md5_G x y z = (x AND z) OR (y AND NOT z)"

definition md5_H :: "u32 \<Rightarrow> u32 \<Rightarrow> u32 \<Rightarrow> u32" where
  "md5_H x y z = x XOR y XOR z"

definition md5_I :: "u32 \<Rightarrow> u32 \<Rightarrow> u32 \<Rightarrow> u32" where
  "md5_I x y z = y XOR (x OR NOT z)"

definition md5_T :: "u32 list" where
  "md5_T =
    [0,
     0xd76aa478, 0xe8c7b756, 0x242070db, 0xc1bdceee, 0xf57c0faf, 0x4787c62a,
     0xa8304613, 0xfd469501, 0x698098d8, 0x8b44f7af, 0xffff5bb1, 0x895cd7be,
     0x6b901122, 0xfd987193, 0xa679438e, 0x49b40821, 0xf61e2562, 0xc040b340,
     0x265e5a51, 0xe9b6c7aa, 0xd62f105d, 0x2441453, 0xd8a1e681, 0xe7d3fbc8,
     0x21e1cde6, 0xc33707d6, 0xf4d50d87, 0x455a14ed, 0xa9e3e905, 0xfcefa3f8,
     0x676f02d9, 0x8d2a4c8a, 0xfffa3942, 0x8771f681, 0x6d9d6122, 0xfde5380c,
     0xa4beea44, 0x4bdecfa9, 0xf6bb4b60, 0xbebfbc70, 0x289b7ec6, 0xeaa127fa,
     0xd4ef3085, 0x4881d05, 0xd9d4d039, 0xe6db99e5, 0x1fa27cf8, 0xc4ac5665,
     0xf4292244, 0x432aff97, 0xab9423a7, 0xfc93a039, 0x655b59c3, 0x8f0ccc92,
     0xffeff47d, 0x85845dd1, 0x6fa87e4f, 0xfe2ce6e0, 0xa3014314, 0x4e0811a1,
     0xf7537e82, 0xbd3af235, 0x2ad7d2bb, 0xeb86d391]"

type_synonym md5_regs = "u32 \<times> u32 \<times> u32 \<times> u32"

text \<open>The new value of the first register; the four \<open>ROUND\<close> macros differ in \<open>f\<close>.\<close>

definition ROUND ::
  "(u32 \<Rightarrow> u32 \<Rightarrow> u32 \<Rightarrow> u32) \<Rightarrow> u32 list \<Rightarrow> u32 \<Rightarrow> u32 \<Rightarrow> u32 \<Rightarrow> u32 \<Rightarrow> nat \<Rightarrow> nat \<Rightarrow> nat \<Rightarrow> u32" where
  "ROUND f X a b c d k s i = b + SHIFT (a + f b c d + X ! k + md5_T ! i) s"

text \<open>Two lines of the code: four rounds, on \<open>A\<close>, \<open>D\<close>, \<open>C\<close> and \<open>B\<close>.\<close>

fun four_rounds ::
  "u32 list \<Rightarrow> (u32 \<Rightarrow> u32 \<Rightarrow> u32 \<Rightarrow> u32) \<times> (nat \<times> nat \<times> nat \<times> nat) \<times> (nat \<times> nat \<times> nat \<times> nat) \<times> nat \<Rightarrow> md5_regs \<Rightarrow> md5_regs" where
  "four_rounds X (f, (k1, k2, k3, k4), (s1, s2, s3, s4), i) (A, B, C, D) =
     (let A = ROUND f X A B C D k1 s1 i;
          D = ROUND f X D A B C k2 s2 (i + 1);
          C = ROUND f X C D A B k3 s3 (i + 2);
          B = ROUND f X B C D A k4 s4 (i + 3)
      in (A, B, C, D))"

definition md5_rounds :: "((u32 \<Rightarrow> u32 \<Rightarrow> u32 \<Rightarrow> u32) \<times> (nat \<times> nat \<times> nat \<times> nat) \<times> (nat \<times> nat \<times> nat \<times> nat) \<times> nat) list" where
  "md5_rounds =
    [(md5_F, (0, 1, 2, 3), (7, 12, 17, 22), 1), (md5_F, (4, 5, 6, 7), (7, 12, 17, 22), 5),
     (md5_F, (8, 9, 10, 11), (7, 12, 17, 22), 9), (md5_F, (12, 13, 14, 15), (7, 12, 17, 22), 13),
     (md5_G, (1, 6, 11, 0), (5, 9, 14, 20), 17), (md5_G, (5, 10, 15, 4), (5, 9, 14, 20), 21),
     (md5_G, (9, 14, 3, 8), (5, 9, 14, 20), 25), (md5_G, (13, 2, 7, 12), (5, 9, 14, 20), 29),
     (md5_H, (5, 8, 11, 14), (4, 11, 16, 23), 33), (md5_H, (1, 4, 7, 10), (4, 11, 16, 23), 37),
     (md5_H, (13, 0, 3, 6), (4, 11, 16, 23), 41), (md5_H, (9, 12, 15, 2), (4, 11, 16, 23), 45),
     (md5_I, (0, 7, 14, 5), (6, 10, 15, 21), 49), (md5_I, (12, 3, 10, 1), (6, 10, 15, 21), 53),
     (md5_I, (8, 15, 6, 13), (6, 10, 15, 21), 57), (md5_I, (4, 11, 2, 9), (6, 10, 15, 21), 61)]"

fun add_regs :: "md5_regs \<Rightarrow> md5_regs \<Rightarrow> md5_regs" where
  "add_regs (a, b, c, d) (a', b', c', d') = (a + a', b + b', c + c', d + d')"

definition md5_calc :: "u8 list \<Rightarrow> md5_regs \<Rightarrow> md5_regs" where
  "md5_calc b64 st = add_regs st (fold (four_rounds (words_le b64)) md5_rounds st)"

section \<open>The context\<close>

definition MD5_BUFLEN :: u32 where
  "MD5_BUFLEN = 64"

record md5_ctxt =
  md5_st :: md5_regs
  md5_n :: u64
  md5_i :: u32
  md5_buf :: "u8 list"

definition md5_init :: md5_ctxt where
  "md5_init = \<lparr>md5_st = (0x67452301, 0xefcdab89, 0x98badcfe, 0x10325476), md5_n = 0, md5_i = 0, md5_buf = replicate 64 0\<rparr>"

definition md5_paddat :: "u8 list" where
  "md5_paddat = 0x80 # replicate 63 0"

text \<open>The loop over whole blocks of the input, with its 32-bit index.\<close>

partial_function (option) md5_blocks :: "u8 list \<Rightarrow> u32 \<Rightarrow> u32 \<Rightarrow> md5_regs \<Rightarrow> (u32 \<times> md5_regs) option" where
  "md5_blocks input len i st =
     (if i + MD5_BUFLEN \<le> len then md5_blocks input len (i + MD5_BUFLEN) (md5_calc (take 64 (drop (unat i) input)) st)
      else Some (i, st))"

definition md5_loop :: "md5_ctxt \<Rightarrow> u8 list \<Rightarrow> md5_ctxt option" where
  "md5_loop ctxt input =
     (let len = of_nat (length input) :: u32;
          n = md5_n ctxt + ucast (len * 8);
          gap = MD5_BUFLEN - md5_i ctxt
      in if len \<ge> gap then
           (let buf = bcopy (take (unat gap) input) (md5_buf ctxt) (unat (md5_i ctxt))
            in case md5_blocks input len gap (md5_calc buf (md5_st ctxt)) of
                 None \<Rightarrow> None
               | Some (i, st) \<Rightarrow>
                   Some \<lparr>md5_st = st, md5_n = n, md5_i = len - i,
                         md5_buf = bcopy (take (unat (len - i)) (drop (unat i) input)) buf 0\<rparr>)
         else
           Some (ctxt\<lparr>md5_n := n, md5_buf := bcopy input (md5_buf ctxt) (unat (md5_i ctxt)), md5_i := md5_i ctxt + len\<rparr>))"

definition md5_pad :: "md5_ctxt \<Rightarrow> md5_ctxt" where
  "md5_pad ctxt =
     (let gap = unat (MD5_BUFLEN - md5_i ctxt);
          (buf, st) =
            (if gap > 8 then (bcopy (take (gap - 8) md5_paddat) (md5_buf ctxt) (unat (md5_i ctxt)), md5_st ctxt)
             else
               (let buf = bcopy (take gap md5_paddat) (md5_buf ctxt) (unat (md5_i ctxt))
                in (bcopy (take 56 (drop gap md5_paddat)) buf 0, md5_calc buf (md5_st ctxt))));
          buf = bcopy (bytes_le64 (md5_n ctxt)) buf 56
      in ctxt\<lparr>md5_buf := buf, md5_st := md5_calc buf st\<rparr>)"

fun regs_bytes :: "md5_regs \<Rightarrow> u8 list" where
  "regs_bytes (a, b, c, d) = bytes_le32 a @ bytes_le32 b @ bytes_le32 c @ bytes_le32 d"

definition md5_result :: "md5_ctxt \<Rightarrow> u8 list" where
  "md5_result ctxt = regs_bytes (md5_st ctxt)"

definition gsk_hash_md5_feed :: "md5_ctxt \<Rightarrow> u8 list \<Rightarrow> md5_ctxt option" where
  "gsk_hash_md5_feed ctxt data = md5_loop ctxt data"

definition gsk_hash_md5_done :: "md5_ctxt \<Rightarrow> (md5_ctxt \<times> u8 list) option" where
  "gsk_hash_md5_done ctxt = (let ctxt = md5_pad ctxt in Some (ctxt, md5_result ctxt))"

definition gsk_hash_new_md5 :: "md5_ctxt gsk_hash" where
  "gsk_hash_new_md5 = \<lparr>hash_size = 16, hash_flags = 0, hash_value = None, hash_context = md5_init\<rparr>"

section \<open>RFC 1321\<close>

definition md5_fun :: "nat \<Rightarrow> u32 \<Rightarrow> u32 \<Rightarrow> u32 \<Rightarrow> u32" where
  "md5_fun i = (if i < 16 then md5_F else if i < 32 then md5_G else if i < 48 then md5_H else md5_I)"

definition md5_word :: "nat \<Rightarrow> nat" where
  "md5_word i = (if i < 16 then i else if i < 32 then (5 * i + 1) mod 16 else if i < 48 then (3 * i + 5) mod 16 else 7 * i mod 16)"

definition md5_rot :: "nat \<Rightarrow> nat" where
  "md5_rot i = [[7, 12, 17, 22], [5, 9, 14, 20], [4, 11, 16, 23], [6, 10, 15, 21]] ! (i div 16) ! (i mod 4)"

fun md5_step :: "u32 list \<Rightarrow> nat \<Rightarrow> md5_regs \<Rightarrow> md5_regs" where
  "md5_step X i (a, b, c, d) = (d, b + rotl32 (md5_rot i) (a + md5_fun i b c d + X ! md5_word i + md5_T ! (i + 1)), b, c)"

definition md5_compress :: "md5_regs \<Rightarrow> u8 list \<Rightarrow> md5_regs" where
  "md5_compress st b = add_regs st (fold (md5_step (words_le b)) [0..<64] st)"

definition md5_padding :: "u8 list \<Rightarrow> u8 list" where
  "md5_padding msg = 128 # replicate (zero_pad (length msg)) 0 @ bytes_le64 (of_nat (8 * length msg))"

definition md5_digest :: "u8 list \<Rightarrow> u8 list" where
  "md5_digest msg = regs_bytes (absorb md5_compress (md5_st md5_init) (msg @ md5_padding msg))"

section \<open>The unrolled code computes the steps\<close>

lemma md5_step_ROUND:
  "md5_step X i (a, b, c, d) = (d, ROUND (md5_fun i) X a b c d (md5_word i) (md5_rot i) (i + 1), b, c)"
  by (simp add: ROUND_def SHIFT_def rotl32_def)

lemma four_rounds_step:
  "map (\<lambda>j. fold (md5_step X) [4 * j..<4 * j + 4]) [0..<16] = map (four_rounds X) md5_rounds"
proof -
  have "fold (md5_step X) [4 * j..<4 * j + 4] = four_rounds X (md5_rounds ! j)" if "j < 16" for j
  proof
    fix r :: md5_regs
    obtain a b c d where r: "r = (a, b, c, d)" by (metis prod_cases4)
    have "j \<in> set [0..<16]" using that by simp
    moreover have "set [0..<16] = {0, 1, 2, 3, 4, 5, 6, 7, 8, 9, 10, 11, 12, 13, 14, 15 :: nat}" by code_simp
    ultimately have "j \<in> {0, 1, 2, 3, 4, 5, 6, 7, 8, 9, 10, 11, 12, 13, 14, 15}" by (simp only:)
    then show "fold (md5_step X) [4 * j..<4 * j + 4] r = four_rounds X (md5_rounds ! j) r"
      by (elim insertE emptyE; hypsubst; simp add: r upt_conv_Cons md5_step_ROUND del: md5_step.simps;
          simp add: md5_fun_def md5_word_def md5_rot_def md5_rounds_def; simp add: Let_def numeral_eq_Suc)
  qed
  moreover have "length md5_rounds = 16" by (simp add: md5_rounds_def)
  ultimately show ?thesis by (intro nth_equalityI) simp_all
qed

lemma fold_concat_lists: "fold f (concat xss) = fold (fold f) xss"
  by (induction xss) simp_all

lemma rounds_fold: "fold (four_rounds X) md5_rounds = fold (md5_step X) [0..<64]"
proof -
  have "[0..<64] = concat (map (\<lambda>j. [4 * j..<4 * j + 4]) [0..<16])" by code_simp
  then have "fold (md5_step X) [0..<64] = fold (fold (md5_step X)) (map (\<lambda>j. [4 * j..<4 * j + 4]) [0..<16])"
    by (simp only: fold_concat_lists)
  also have "\<dots> = fold id (map (\<lambda>j. fold (md5_step X) [4 * j..<4 * j + 4]) [0..<16])" by (simp add: fold_map o_def)
  also have "\<dots> = fold id (map (four_rounds X) md5_rounds)" by (simp only: four_rounds_step)
  also have "\<dots> = fold (four_rounds X) md5_rounds" by (simp add: fold_map o_def)
  finally show ?thesis by simp
qed

lemma md5_calc_compress: "md5_calc b st = md5_compress st b"
  by (simp add: md5_calc_def md5_compress_def rounds_fold)

section \<open>A context represents a message\<close>

definition md5_rep :: "md5_ctxt \<Rightarrow> u8 list \<Rightarrow> bool" where
  "md5_rep ctxt msg \<longleftrightarrow>
     md5_st ctxt = absorb md5_compress (md5_st md5_init) msg \<and> unat (md5_i ctxt) = length (tail_of msg) \<and>
     length (md5_buf ctxt) = 64 \<and> take (length (tail_of msg)) (md5_buf ctxt) = tail_of msg \<and>
     md5_n ctxt = of_nat (8 * length msg)"

lemma md5_blocks_ok:
  assumes "length input + 64 < 2 ^ 32" "unat i \<le> length input"
  shows "\<exists>i'. md5_blocks input (of_nat (length input)) i st = Some (i', absorb md5_compress st (drop (unat i) input)) \<and>
    unat i' \<le> length input \<and> drop (unat i') input = tail_of (drop (unat i) input)"
  using assms(2)
proof (induction "length input - unat i" arbitrary: i st rule: less_induct)
  case less
  have len: "unat (of_nat (length input) :: u32) = length input" using assms(1) by (intro unat_of_nat_u32) simp
  have i64: "unat (i + 64) = unat i + 64" using less.prems assms(1) by (simp add: unat_add_no_wrap)
  show ?case
  proof (cases "unat i + 64 \<le> length input")
    case True
    then obtain i' where "md5_blocks input (of_nat (length input)) (i + 64) (md5_calc (take 64 (drop (unat i) input)) st) =
        Some (i', absorb md5_compress (md5_calc (take 64 (drop (unat i) input)) st) (drop (unat (i + 64)) input))"
      "unat i' \<le> length input" "drop (unat i') input = tail_of (drop (unat (i + 64)) input)"
      using less.hyps [of "i + 64"] i64 by fastforce
    moreover have "\<not> length input - unat i < 64" using True by simp
    ultimately show ?thesis
      using True i64 len
      by (subst md5_blocks.simps) (simp add: MD5_BUFLEN_def word_le_nat_alt md5_calc_compress add.commute
          absorb.simps [of _ st "drop (unat i) input"] tail_of.simps [of "drop (unat i) input"])
  next
    case False
    then show ?thesis
      using less.prems i64 len by (subst md5_blocks.simps) (simp add: MD5_BUFLEN_def word_le_nat_alt)
  qed
qed

lemma md5_count:
  assumes "length ys < 2 ^ 29"
  shows "of_nat (8 * length xs) + ucast ((of_nat (length ys) :: u32) * 8) = (of_nat (8 * length (xs @ ys)) :: u64)"
proof -
  have "unat (of_nat (length ys * 8) :: u32) = length ys * 8" using assms by (intro unat_of_nat_u32) simp
  then have "unat ((of_nat (length ys) :: u32) * 8) = length ys * 8" by simp
  moreover have "(ucast w :: u64) = of_nat (unat w)" for w :: u32 by simp
  ultimately have "(ucast ((of_nat (length ys) :: u32) * 8) :: u64) = of_nat (length ys * 8)" by metis
  then show ?thesis by (simp add: algebra_simps)
qed

lemma md5_feed_ok:
  assumes "md5_rep ctxt xs" "length ys < 2 ^ 29"
  shows "\<exists>ctxt'. gsk_hash_md5_feed ctxt ys = Some ctxt' \<and> md5_rep ctxt' (xs @ ys)"
proof -
  let ?t = "tail_of xs" and ?len = "of_nat (length ys) :: u32"
  have r: "md5_st ctxt = absorb md5_compress (md5_st md5_init) xs" "unat (md5_i ctxt) = length ?t" "length (md5_buf ctxt) = 64"
    "take (length ?t) (md5_buf ctxt) = ?t" "md5_n ctxt = of_nat (8 * length xs)" using assms(1) by (simp_all add: md5_rep_def)
  have len: "unat ?len = length ys" using assms(2) by (intro unat_of_nat_u32) simp
  have gap: "unat (MD5_BUFLEN - md5_i ctxt) = 64 - length ?t"
    using length_tail_less [of xs] r(2) by (simp add: MD5_BUFLEN_def unat_sub_no_wrap del: length_tail_less)
  note n = md5_count [OF assms(2), of xs]
  show ?thesis
  proof (cases "64 - length ?t \<le> length ys")
    case True
    let ?g = "64 - length ?t"
    let ?b = "?t @ take ?g ys"
    have b: "length ?b = 64" "bcopy (take ?g ys) (md5_buf ctxt) (length ?t) = ?b"
      using True r(3,4) length_tail_less [of xs] by (simp_all add: bcopy_def del: length_tail_less)
    have split: "?t @ ys = ?b @ drop ?g ys" by simp
    have ab: "absorb md5_compress (md5_st md5_init) (xs @ ys) = absorb md5_compress (md5_calc ?b (md5_st ctxt)) (drop ?g ys)"
      "tail_of (xs @ ys) = tail_of (drop ?g ys)"
      using absorb_block [OF b(1)] tail_block [OF b(1)]
      by (simp_all only: absorb_append [of _ _ xs] tail_append [of xs] split r(1) md5_calc_compress)
    obtain i where i: "md5_blocks ys ?len (MD5_BUFLEN - md5_i ctxt) (md5_calc ?b (md5_st ctxt)) =
        Some (i, absorb md5_compress (md5_calc ?b (md5_st ctxt)) (drop ?g ys))" "unat i \<le> length ys" "drop (unat i) ys = tail_of (drop ?g ys)"
      using md5_blocks_ok [of ys "MD5_BUFLEN - md5_i ctxt" "md5_calc ?b (md5_st ctxt)"] assms(2) True gap by auto
    have k: "unat (?len - i) = length (tail_of (drop ?g ys))"
      using i(2,3) len by (simp add: unat_sub_no_wrap flip: i(3))
    let ?u = "tail_of (drop ?g ys)"
    have u: "take (unat (?len - i)) (drop (unat i) ys) = ?u" using k i(3) by simp
    have "length ?u < 64" by simp
    then have "length (bcopy ?u ?b 0) = 64" "take (length ?u) (bcopy ?u ?b 0) = ?u"
      using b(1) take_bcopy [of 0 ?u ?b] by (simp_all del: length_tail_less)
    moreover have "gsk_hash_md5_feed ctxt ys = Some \<lparr>md5_st = absorb md5_compress (md5_calc ?b (md5_st ctxt)) (drop ?g ys),
        md5_n = md5_n ctxt + ucast (?len * 8), md5_i = ?len - i, md5_buf = bcopy ?u ?b 0\<rparr>"
      using True i(1) b(2) gap len r(2) u by (simp add: gsk_hash_md5_feed_def md5_loop_def Let_def word_le_nat_alt)
    ultimately show ?thesis using k ab n r(5) by (simp add: md5_rep_def)
  next
    case False
    then have "length (?t @ ys) < 64" by simp
    then have "absorb md5_compress (md5_st md5_init) (xs @ ys) = md5_st ctxt" "tail_of (xs @ ys) = ?t @ ys"
      using absorb_append [of md5_compress _ xs ys] tail_append [of xs ys] r(1) by simp_all
    moreover have "unat (md5_i ctxt + ?len) = length (?t @ ys)"
      using r(2) len False by (simp add: unat_add_no_wrap)
    ultimately show ?thesis
      using False gap len n r take_bcopy [of "length ?t" ys "md5_buf ctxt"]
      by (simp add: gsk_hash_md5_feed_def md5_loop_def Let_def word_le_nat_alt md5_rep_def)
  qed
qed

lemma md5_paddat_take: "0 < k \<Longrightarrow> k \<le> 64 \<Longrightarrow> take k md5_paddat = 128 # replicate (k - 1) 0"
  by (cases k) (simp_all add: md5_paddat_def)

lemma md5_paddat_drop: "0 < k \<Longrightarrow> k \<le> 8 \<Longrightarrow> take 56 (drop k md5_paddat) = replicate 56 0"
  by (cases k) (simp_all add: md5_paddat_def)

lemma md5_done_ok:
  assumes "md5_rep ctxt xs"
  shows "\<exists>ctxt'. gsk_hash_md5_done ctxt = Some (ctxt', md5_digest xs)"
proof -
  let ?t = "tail_of xs" and ?l = "bytes_le64 (md5_n ctxt)"
  have r: "md5_st ctxt = absorb md5_compress (md5_st md5_init) xs" "unat (md5_i ctxt) = length ?t" "length (md5_buf ctxt) = 64"
    "take (length ?t) (md5_buf ctxt) = ?t" "md5_n ctxt = of_nat (8 * length xs)" using assms by (simp_all add: md5_rep_def)
  have t: "length ?t < 64" by simp
  have gap: "unat (MD5_BUFLEN - md5_i ctxt) = 64 - length ?t"
    using t r(2) by (simp add: MD5_BUFLEN_def unat_sub_no_wrap del: length_tail_less)
  have dig: "md5_digest xs = regs_bytes (absorb md5_compress (md5_st ctxt) (?t @ 128 # replicate (zero_pad (length ?t)) 0 @ ?l))"
    by (simp add: md5_digest_def md5_padding_def absorb_append [of _ _ xs] r(1,5) zero_pad_tail [of xs])
  have "md5_st (md5_pad ctxt) = absorb md5_compress (md5_st ctxt) (?t @ 128 # replicate (zero_pad (length ?t)) 0 @ ?l)"
  proof (cases "length ?t < 56")
    case True
    have "bcopy ?l (bcopy (take (56 - length ?t) md5_paddat) (md5_buf ctxt) (length ?t)) 56 = ?t @ 128 # replicate (55 - length ?t) 0 @ ?l"
      using True r(3,4) Suc_diff_Suc [of "length ?t" 56] by (simp add: bcopy_def md5_paddat_take Suc_diff_le flip: Suc_diff_Suc)
    moreover have "8 < 64 - length ?t" "64 - length ?t - 8 = 56 - length ?t" using True by simp_all
    ultimately show ?thesis
      using True gap r(2) by (simp add: md5_pad_def Let_def absorb_pad_short md5_calc_compress)
  next
    case False
    have "bcopy (take (64 - length ?t) md5_paddat) (md5_buf ctxt) (length ?t) = ?t @ 128 # replicate (63 - length ?t) 0"
      using t r(3,4) by (simp add: bcopy_def md5_paddat_take del: length_tail_less)
    moreover have "bcopy ?l (bcopy (replicate 56 0) (?t @ 128 # replicate (63 - length ?t) 0) 0) 56 = replicate 56 0 @ ?l"
      using t by (simp add: bcopy_def del: length_tail_less)
    moreover have "\<not> 8 < 64 - length ?t" using False by simp
    ultimately show ?thesis
      using False gap r(2) t by (simp add: md5_pad_def Let_def absorb_pad_long md5_calc_compress md5_paddat_drop)
  qed
  then show ?thesis by (simp add: gsk_hash_md5_done_def md5_result_def dig)
qed

section \<open>The contract\<close>

interpretation md5: incremental_hash gsk_hash_md5_feed gsk_hash_md5_done gsk_hash_new_md5 md5_rep "2 ^ 29" md5_digest
proof unfold_locales
  show "md5_rep (hash_context gsk_hash_new_md5) []" by (simp add: gsk_hash_new_md5_def md5_rep_def md5_init_def)
  show "length (md5_digest xs) = hash_size gsk_hash_new_md5" for xs
    by (cases "absorb md5_compress (md5_st md5_init) (xs @ md5_padding xs)") (simp add: md5_digest_def gsk_hash_new_md5_def)
qed (simp_all add: md5_feed_ok md5_done_ok gsk_hash_new_md5_def)

section \<open>Properties\<close>

text \<open>C14: A message fed to an MD5 object in any pieces shorter than \<open>2 ^ 29\<close> bytes, binary data and C
  strings mixed, has the digest that RFC 1321 defines for the whole message: padded, and absorbed
  block by block in 64 steps each.  The hexadecimal form is the dump of the digest, the
  size is 16, and finishing again changes nothing.\<close>

theorem md5_pieces_digest:
  assumes "list_all (piece_ok (2 ^ 29)) ps"
  shows "\<exists>h. hash_pieces gsk_hash_md5_feed gsk_hash_md5_done gsk_hash_new_md5 ps = Some h \<and>
    gsk_hash_get h = Some (md5_digest (concat (map piece_bytes ps))) \<and>
    gsk_hash_get_hex h = Some (gsk_escape_memory_hex (md5_digest (concat (map piece_bytes ps))) @ [0]) \<and>
    gsk_hash_get_size h = 16 \<and> gsk_hash_done gsk_hash_md5_done h = Some h"
  using md5.hash_pieces_ok [OF assms] by (simp add: md5.spec_size gsk_hash_new_md5_def)

text \<open>The test vector of RFC 1321 for the text \<open>abc\<close>.\<close>

lemma md5_abc:
  "md5_digest [97, 98, 99] =
    [0x90, 0x01, 0x50, 0x98, 0x3c, 0xd2, 0x4f, 0xb0, 0xd6, 0x96, 0x3f, 0x7d, 0x28, 0xe1, 0x7f, 0x72]"
  by code_simp

theorem md5_pieces_digest_witness:
  "map_option gsk_hash_get (hash_pieces gsk_hash_md5_feed gsk_hash_md5_done gsk_hash_new_md5 [Data [97], Data [], Str [98, 99]]) =
    Some (Some [0x90, 0x01, 0x50, 0x98, 0x3c, 0xd2, 0x4f, 0xb0, 0xd6, 0x96, 0x3f, 0x7d, 0x28, 0xe1, 0x7f, 0x72])"
  using md5_pieces_digest [of "[Data [97], Data [], Str [98, 99]]"] by (auto simp: md5_abc)

text \<open>The limit is needed: a single piece of \<open>2 ^ 29\<close> bytes is counted as no bits at all, so the padding
  announces an empty message.  Fed in two halves it is counted.\<close>

theorem md5_large_piece_not_counted:
  assumes "length d = 2 ^ 29"
  shows "\<exists>ctxt. gsk_hash_md5_feed md5_init d = Some ctxt \<and> md5_n ctxt = 0 \<and> (of_nat (8 * length d) :: u64) \<noteq> 0"
proof -
  have len: "unat (of_nat (length d) :: u32) = 2 ^ 29" by (simp add: assms)
  obtain i where "md5_blocks d (of_nat (length d)) MD5_BUFLEN (md5_calc (take 64 d) (md5_st md5_init)) =
      Some (i, absorb md5_compress (md5_calc (take 64 d) (md5_st md5_init)) (drop 64 d))"
    using md5_blocks_ok [of d MD5_BUFLEN "md5_calc (take 64 d) (md5_st md5_init)"] by (auto simp: assms MD5_BUFLEN_def)
  moreover have "bcopy (take 64 d) (md5_buf md5_init) 0 = take 64 d" by (simp add: bcopy_def md5_init_def assms)
  moreover have "md5_i md5_init = 0" "md5_n md5_init = 0" by (simp_all add: md5_init_def)
  ultimately show ?thesis
    using len by (simp add: gsk_hash_md5_feed_def md5_loop_def Let_def word_le_nat_alt MD5_BUFLEN_def assms)
qed

end
