(* ===== verification/Spec2Isabelle.thy ===== *)
theory Spec2Isabelle
  imports Gsk_Buffer_Properties Gskb_Properties Gsk_Base64 Gsk_Date_Properties Gsk_Hook
    Gsk_Mem_Pool Gsk_Prefix_Tree Gsk_Log_Ring Gsk_List_Macros Gsk_Url_Code Gsk_Escape Gsk_Ipv4
    Gsk_Mime_Base64 Gsk_Mime_Quoted Gsk_Md5
begin

text \<open>
  A verification library for the GSK network library, \<^verbatim>\<open>src/src\<close>.

  \<^bold>\<open>The parts and how they interact.\<close>  Data travels in buffers (\<^verbatim>\<open>gskbuffer.c\<close>), chains of
  fragments taken from a recycling stack.  The GSKB encodings
  (\<^verbatim>\<open>batch/gskb-fundamental-formats.h\<close>) write into buffers through an append function.
  Objects tell their users about readiness through hooks (\<^verbatim>\<open>gskhook.c\<close>), which the main loop
  polls or runs from an idle function.  Memory pools (\<^verbatim>\<open>gskmempool.c\<close>, \<^verbatim>\<open>gskmempool.h\<close>), dates,
  calendar arithmetic and base64 (\<^verbatim>\<open>common/\<close>) are used by the protocol code, as are the URL
  codes, the prefix tree of the HTTP server, the list macros on linked nodes, the hash objects,
  and the textual dumps and addresses of the base library.

  \<^bold>\<open>Theories.\<close>
  \<^item> \<^verbatim>\<open>Gsk_Prelude\<close>, \<^verbatim>\<open>Gsk_Interfaces\<close>: words, memory as a function from offsets to bytes,
    \<open>memcpy\<close> and its relatives, and the locales for the contracts between components.
  \<^item> \<^verbatim>\<open>Gsk_Buffer\<close>, \<^verbatim>\<open>Gsk_Buffer_Scan\<close>, \<^verbatim>\<open>Gsk_Buffer_System\<close>, \<^verbatim>\<open>Gsk_Buffer_Properties\<close>: the
    operations of \<^verbatim>\<open>gskbuffer.c\<close> on an explicit allocator, searches, iterators and vectored
    writes, two buffers under arbitrary sequences of operations, and their properties: the
    byte-queue refinement, accounting of fragments, transfer, reading, searching.
  \<^item> \<^verbatim>\<open>Gskb_Fundamental\<close>, \<^verbatim>\<open>Gskb_Roundtrip\<close>, \<^verbatim>\<open>Gskb_Properties\<close>: packing, validating and
    unpacking of numbers and strings; round trips, minimality, and what the validators promise.
    The length passed to a validator is apart from the readable bytes, since the validators of
    variable-length numbers ignore it; the locale \<open>validated_decoder\<close> has what they keep.
  \<^item> \<^verbatim>\<open>Gsk_Base64\<close>: the encoder and decoder of \<^verbatim>\<open>common/gskbase64.c\<close>; round trip and bounds.
  \<^item> \<^verbatim>\<open>Gsk_Timegm\<close>: \<open>gsk_timegm\<close> in its 32-bit arithmetic against a day-by-day calendar.
  \<^item> \<^verbatim>\<open>Gsk_Cstring\<close>, \<^verbatim>\<open>Gsk_Date\<close>, \<^verbatim>\<open>Gsk_Date_Reading\<close>, \<^verbatim>\<open>Gsk_Date_Properties\<close>: the parts of the C
    library that \<^verbatim>\<open>common/gskdate.c\<close> uses, its four parsers and its printer; round trips and
    reads behind the text.
  \<^item> \<^verbatim>\<open>Gsk_Hook\<close>: one hook with the main loop's idle data.  User code that an operation calls
    is a frame on a stack and may call every operation again; the lemmas are invariants of
    all reachable states.  The class structure is a function from offsets to methods.
  \<^item> \<^verbatim>\<open>Gsk_Mem_Pool\<close>: both pools.  \<open>g_malloc\<close> is a parameter with the hypothesis \<open>malloc_ok\<close>
    (aligned blocks apart from all blocks in use); regions handed out never overlap.
  \<^item> \<^verbatim>\<open>Gsk_Simple_Filter\<close>: the filter streams of \<^verbatim>\<open>gsksimplefilter.c\<close> with their class methods as
    arguments.  The locale \<open>stream_filter\<close> is the contract of the methods, \<open>byte_filter\<close> that of
    methods that work byte by byte; what a session of reads and writes yields is proved in it.
  \<^item> \<^verbatim>\<open>Gsk_Mime_Base64\<close>, \<^verbatim>\<open>Gsk_Mime_Quoted\<close>: the MIME transfer encodings as filters on buffers, as
    instances of the contracts; round trips independent of the division into writes, the length
    of the lines, and the quoted-printable decoder that breaks the contract.
  \<^item> \<^verbatim>\<open>Gsk_List_Macros\<close>: the stack, queue and list macros of \<^verbatim>\<open>gsklistmacros.h\<close> on a store of
    nodes with next and prev fields.  Loops along pointers may not end, so they are partial
    functions; the lemmas show that they return, that the merge sort is stable, and that lists
    and queues implement sequences.
  \<^item> \<^verbatim>\<open>Gsk_Prefix_Tree\<close>: \<^verbatim>\<open>http/gskprefixtree.c\<close>, refined to a map from strings to data.
  \<^item> \<^verbatim>\<open>Gsk_Log_Ring\<close>: \<^verbatim>\<open>gsklogringbuffer.c\<close>, refined to a list of whole lines of which the
    oldest are dropped.
  \<^item> \<^verbatim>\<open>Gsk_Url_Code\<close>: the encoders, decoders and the form splitter of \<^verbatim>\<open>url/gskurl.c\<close>; round trips,
    and for which texts the blocks and arrays, whose sizes are counted in 32 bits, are large enough.
  \<^item> \<^verbatim>\<open>Gsk_Escape\<close>: C escapes and hexadecimal dumps of \<^verbatim>\<open>gskutils.c\<close>; the round trip of the dump,
    and where the escapes fail to be one.
  \<^item> \<^verbatim>\<open>Gsk_Ipv4\<close>: the address parser of \<^verbatim>\<open>gskipv4.c\<close>, which stays inside an array of four bytes.
  \<^item> \<^verbatim>\<open>Gsk_Hash\<close>, \<^verbatim>\<open>Gsk_Md5\<close>: the hash objects of \<^verbatim>\<open>hash/gskhash.c\<close> with their methods as
    arguments, the contract \<open>incremental_hash\<close> (pieces have the effect of the whole), and MD5 as its
    instance: the unrolled code computes RFC 1321, for pieces shorter than \<open>2 ^ 29\<close> bytes.

  \<^bold>\<open>Conventions.\<close>  C integers keep their width where the code can wrap.  Reading or
  writing behind the end of an object, signed overflow and aborting is the value None or an
  error constructor; \<open>c_int\<close> is the conversion to an \<open>int\<close>.  Recursion
  follows the data, or is a partial function whose termination is proved; there is no fuel.
  Addresses and sizes in the pools are natural numbers, with the reductions modulo \<open>2 ^ 32\<close> and
  \<open>2 ^ 64\<close> written out where C has them.

  \<^bold>\<open>Not modelled.\<close>  \<open>gsk_buffer_polystr_index_of\<close> and \<open>gsk_buffer_printf\<close>; several hooks in
  one idle tree, set-poll methods and destroy notifications that call the hook again; debug
  output.  Streams, main loops, sockets, processes, TLS, zlib and XML rest on system calls,
  GObject or third-party libraries.  Of \<^verbatim>\<open>gskutils.c\<close> the operating system helpers, of
  \<^verbatim>\<open>gskurl.c\<close> the parsing of URLs, of the MIME code the multipart streams, of
  \<^verbatim>\<open>gsklogringbuffer.c\<close> the time stamps, and of \<^verbatim>\<open>gskhash.c\<close> SHA-1, SHA-256 and CRC-32 are left out.
  The tree and array sort macros, string matchers, the table, DNS and HTTP headers are not
  modelled yet.
\<close>

end
